(* ===== verification/Plecto_Prelude.thy ===== *)
theory Plecto_Prelude
  imports Main "HOL-Library.Word"
begin

text \<open>
  The vocabulary shared by every component: the machine integers of the Rust sources as words,
  the saturating and checked operations the code calls on them, a result type whose left injection
  is the error, and the generic list facts the component proofs use.  The collection
  \<open>unat_defs\<close> moves a statement about word operations to natural numbers; \<open>list_facts\<close>
  collects the lemmas about counting and searching in lists.
\<close>

unbundle bit_operations_syntax

named_theorems unat_defs
named_theorems list_facts

type_synonym u8 = "8 word"
type_synonym u16 = "16 word"
type_synonym u32 = "32 word"
type_synonym u64 = "64 word"
type_synonym u128 = "128 word"

text \<open>\<open>usize\<close> is 64 bits wide on every target the proxy is built for.\<close>

type_synonym usize = "64 word"
type_synonym bytes = "u8 list"

type_synonym ('e, 'a) result = "'e + 'a"

definition u64_max :: u64 where
  "u64_max = - 1"

subsection \<open>Saturating, checked and rounding arithmetic\<close>

definition sat_add :: "'a::len word \<Rightarrow> 'a word \<Rightarrow> 'a word" where
  "sat_add a b = (if unat a + unat b < 2 ^ LENGTH('a) then a + b else - 1)"

definition sat_sub :: "'a::len word \<Rightarrow> 'a word \<Rightarrow> 'a word" where
  "sat_sub a b = (if b \<le> a then a - b else 0)"

definition sat_mul :: "'a::len word \<Rightarrow> 'a word \<Rightarrow> 'a word" where
  "sat_mul a b = (if unat a * unat b < 2 ^ LENGTH('a) then a * b else - 1)"

definition checked_add :: "'a::len word \<Rightarrow> 'a word \<Rightarrow> 'a word option" where
  "checked_add a b = (if unat a + unat b < 2 ^ LENGTH('a) then Some (a + b) else None)"

definition checked_sub :: "'a::len word \<Rightarrow> 'a word \<Rightarrow> 'a word option" where
  "checked_sub a b = (if b \<le> a then Some (a - b) else None)"

definition div_ceil :: "'a::len word \<Rightarrow> 'a word \<Rightarrow> 'a word" where
  "div_ceil a b = (let d = a div b in if a mod b > 0 then d + 1 else d)"

lemma unat_max_word: "unat (- 1 :: 'a::len word) = 2 ^ LENGTH('a) - 1"
  by (simp add: unat_word_ariths(6) unsigned_minus_1_eq_mask mask_eq_exp_minus_1)

lemma unat_sat_add [unat_defs]:
  "unat (sat_add a b :: 'a::len word) = min (unat a + unat b) (2 ^ LENGTH('a) - 1)"
proof (cases "unat a + unat b < 2 ^ LENGTH('a)")
  case True
  then have "unat (a + b) = unat a + unat b"
    by (simp add: unat_word_ariths)
  with True show ?thesis by (simp add: sat_add_def)
next
  case False
  then show ?thesis by (simp add: sat_add_def unat_max_word)
qed

lemma unat_sat_sub [unat_defs]: "unat (sat_sub a b) = unat a - unat b"
  by (simp add: sat_sub_def unat_sub word_le_nat_alt)

lemma unat_sat_mul [unat_defs]:
  "unat (sat_mul a b :: 'a::len word) = min (unat a * unat b) (2 ^ LENGTH('a) - 1)"
proof (cases "unat a * unat b < 2 ^ LENGTH('a)")
  case True
  then have "unat (a * b) = unat a * unat b"
    by (simp add: unat_word_ariths)
  with True show ?thesis by (simp add: sat_mul_def)
next
  case False
  then show ?thesis by (simp add: sat_mul_def unat_max_word)
qed

lemma unat_min [unat_defs]: "unat (min a b) = min (unat a) (unat b)"
  by (simp add: min_def word_le_nat_alt)

lemma unat_max [unat_defs]: "unat (max a b) = max (unat a) (unat b)"
  by (simp add: max_def word_le_nat_alt)

lemma unat_sub_le [unat_defs]: "b \<le> a \<Longrightarrow> unat (a - b) = unat a - unat b"
  by (simp add: unat_sub word_le_nat_alt)

lemma unat_lt_pow [simp]: "unat (w :: 'a::len word) < 2 ^ LENGTH('a)"
  by (rule unsigned_less)

lemma unat_le_max: "unat (w :: 'a::len word) \<le> 2 ^ LENGTH('a) - 1"
  by (rule Nat.le_diff_conv2 [THEN iffD2]) (simp_all add: Suc_le_eq)

lemma unat_bounds:
  "unat (a :: u8) < 256" "unat (b :: u16) < 65536" "unat (c :: u32) < 4294967296"
  "unat (d :: u64) < 18446744073709551616"
  using unat_lt_pow [of a] unat_lt_pow [of b] unat_lt_pow [of c] unat_lt_pow [of d]
  by (simp_all del: unat_lt_pow)

lemma unat_drop_bit [unat_defs]: "unat (drop_bit n w) = unat (w :: 'a::len word) div 2 ^ n"
  by (simp add: unsigned_drop_bit_eq take_bit_nat_eq_self flip: drop_bit_eq_div)

lemma unat_ucast_mod: "unat (ucast (w :: 'a::len word) :: 'b::len word) = unat w mod 2 ^ LENGTH('b)"
  by (simp add: unsigned_ucast_eq take_bit_nat_def)

lemma unat_ucast_up:
  "LENGTH('a) \<le> LENGTH('b) \<Longrightarrow> unat (ucast (w :: 'a::len word) :: 'b::len word) = unat w"
  using less_le_trans [OF unat_lt_pow [of w], of "2 ^ LENGTH('b)"] by (simp add: unat_ucast_mod)

lemma nat_ceil_div:
  fixes a b :: nat
  assumes "0 < b"
  shows "(a + b - 1) div b = (if a mod b = 0 then a div b else a div b + 1)"
proof -
  define q r where "q = a div b" and "r = a mod b"
  have a: "a = q * b + r" and r: "r < b"
    using assms by (simp_all add: q_def r_def)
  show ?thesis
  proof (cases "r = 0")
    case True
    then have "(a + b - 1) div b = ((b - 1) + q * b) div b"
      using a assms by (simp add: add.commute)
    also have "\<dots> = q + (b - 1) div b"
      using assms by (intro div_mult_self1) simp
    finally show ?thesis
      using True assms by (simp add: q_def r_def)
  next
    case False
    then have "(a + b - 1) div b = ((r - 1) + (q + 1) * b) div b"
      using a assms by (simp add: algebra_simps)
    also have "\<dots> = q + 1 + (r - 1) div b"
      using assms by (intro div_mult_self1) simp
    finally show ?thesis
      using False r by (simp add: q_def r_def)
  qed
qed

lemma nat_ceil_div_mult:
  fixes a b :: nat
  assumes "0 < b"
  shows "a \<le> (a + b - 1) div b * b"
  using assms dividend_less_div_times [of b a] nat_ceil_div [of b a]
  by (cases "a mod b = 0") (auto simp: add.commute)

lemma unat_div_ceil [unat_defs]:
  assumes "b \<noteq> 0"
  shows "unat (div_ceil a b) = (unat a + unat b - 1) div unat b"
proof -
  have b: "0 < unat b" using assms by (simp add: unat_gt_0)
  have "unat (a div b + 1) = unat a div unat b + 1" if "unat a mod unat b \<noteq> 0"
  proof -
    have "unat b \<noteq> 1" using that by (metis mod_by_1)
    then have "unat a div unat b < unat a \<or> unat a = 0"
      using b by (cases "unat a = 0") (auto intro!: div_less_dividend)
    with that have "unat a div unat b + 1 \<le> unat a" by auto
    then have "unat a div unat b + 1 < 2 ^ LENGTH('a)"
      by (rule le_less_trans) simp
    then show ?thesis
      by (simp add: unat_word_ariths unat_div_distrib)
  qed
  moreover have "(a mod b > 0) = (unat a mod unat b \<noteq> 0)"
    by (simp add: word_less_nat_alt unat_mod_distrib)
  ultimately show ?thesis
    using b by (simp add: div_ceil_def Let_def nat_ceil_div unat_div_distrib del: One_nat_def)
qed

subsection \<open>Counting in lists\<close>

definition tally :: "('a \<Rightarrow> bool) \<Rightarrow> 'a list \<Rightarrow> nat" where
  "tally P xs = length (filter P xs)"

lemma tally_simps [simp]:
  "tally P [] = 0" "tally P (x # xs) = (if P x then 1 else 0) + tally P xs"
  "tally P (xs @ ys) = tally P xs + tally P ys"
  by (simp_all add: tally_def)

lemma tally_le_length: "tally P xs \<le> length xs"
  by (simp add: tally_def)

lemma tally_mono: "(\<And>x. x \<in> set xs \<Longrightarrow> P x \<Longrightarrow> Q x) \<Longrightarrow> tally P xs \<le> tally Q xs"
  by (induction xs) force+

lemma tally_less_length: "tally P xs < length xs \<Longrightarrow> \<exists>c < length xs. \<not> P (xs ! c)"
proof (rule ccontr)
  assume "tally P xs < length xs" and "\<not> (\<exists>c < length xs. \<not> P (xs ! c))"
  then have "filter P xs = xs" by (auto simp: filter_id_conv in_set_conv_nth)
  with \<open>tally P xs < length xs\<close> show False by (simp add: tally_def)
qed

lemma tally_update [list_facts]:
  "c < length xs \<Longrightarrow>
     tally P (xs[c := v]) + (if P (xs ! c) then 1 else 0) = tally P xs + (if P v then 1 else 0)"
proof (induction xs arbitrary: c)
  case (Cons x xs)
  show ?case
  proof (cases c)
    case (Suc d)
    with Cons.prems Cons.IH [of d] show ?thesis by simp
  qed simp
qed simp

subsection \<open>Byte encodings of integers\<close>

fun le_bytes :: "nat \<Rightarrow> 'a::len word \<Rightarrow> bytes" where
  "le_bytes 0 w = []"
| "le_bytes (Suc n) w = ucast w # le_bytes n (drop_bit 8 w)"

fun of_le_bytes :: "bytes \<Rightarrow> 'a::len word" where
  "of_le_bytes [] = 0"
| "of_le_bytes (b # bs) = ucast b OR push_bit 8 (of_le_bytes bs)"

definition of_be_bytes :: "bytes \<Rightarrow> 'a::len word" where
  "of_be_bytes bs = of_le_bytes (rev bs)"

definition be_bytes :: "nat \<Rightarrow> 'a::len word \<Rightarrow> bytes" where
  "be_bytes n w = rev (le_bytes n w)"

lemma length_le_bytes [simp]: "length (le_bytes n w) = n"
  by (induction n arbitrary: w) auto

lemma length_be_bytes [simp]: "length (be_bytes n w) = n"
  by (simp add: be_bytes_def)

lemma of_le_bytes_le_bytes:
  "of_le_bytes (le_bytes n w) = take_bit (8 * n) (w :: 'a::len word)"
proof (induction n arbitrary: w)
  case 0
  then show ?case by simp
next
  case (Suc n)
  have "ucast (ucast w :: u8) OR push_bit 8 (take_bit (8 * n) (drop_bit 8 w)) = take_bit (8 + 8 * n) w"
    by (rule bit_word_eqI) (auto simp: bit_simps)
  with Suc show ?case by simp
qed

lemma of_le_bytes_64 [simp]: "of_le_bytes (le_bytes 8 w) = (w :: u64)"
  by (simp add: of_le_bytes_le_bytes take_bit_word_eq_self)

lemma of_be_bytes_16 [simp]: "of_be_bytes (be_bytes 2 w) = (w :: u16)"
  by (simp add: of_be_bytes_def be_bytes_def of_le_bytes_le_bytes take_bit_word_eq_self)

lemma be_bytes_two: "be_bytes 2 (w :: u16) = [ucast (drop_bit 8 w), ucast w]"
  by (simp add: be_bytes_def numeral_2_eq_2)

lemma be_bytes_of_be_bytes: "be_bytes 2 (of_be_bytes [h, l] :: u16) = [h, l]"
proof -
  have w: "(of_be_bytes [h, l] :: u16) = ucast l OR push_bit 8 (ucast h)" by (simp add: of_be_bytes_def)
  have "ucast (drop_bit 8 (ucast l OR push_bit 8 (ucast h) :: u16)) = h"
    by (rule bit_word_eqI) (auto simp: bit_simps dest: bit_imp_le_length)
  moreover have "ucast (ucast l OR push_bit 8 (ucast h) :: u16) = l"
    by (rule bit_word_eqI) (auto simp: bit_simps)
  ultimately show ?thesis unfolding be_bytes_two w by simp
qed

end
