(* ===== verification/Murmur_Hash.thy ===== *)
theory Murmur_Hash
  imports Plecto_Prelude
begin

text \<open>
  The stable hash of \<open>control/src/hash.rs\<close>: MurmurHash3 (x64, 128 bit), on words, with the block
  loop, the byte-wise tail and the finalizer of the source.
\<close>

definition murmur_C1 :: u64 where
  "murmur_C1 = 0x87c37b91114253d5"

definition murmur_C2 :: u64 where
  "murmur_C2 = 0x4cf5ad432745937f"

definition rotate_left :: "nat \<Rightarrow> u64 \<Rightarrow> u64" where
  "rotate_left n w = push_bit n w OR drop_bit (64 - n) w"

definition fmix64 :: "u64 \<Rightarrow> u64" where
  "fmix64 k =
     (let k = k XOR drop_bit 33 k;
          k = k * 0xff51afd7ed558ccd;
          k = k XOR drop_bit 33 k;
          k = k * 0xc4ceb9fe1a85ec53
      in k XOR drop_bit 33 k)"

definition read_u64_le :: "bytes \<Rightarrow> nat \<Rightarrow> u64" where
  "read_u64_le data base =
     (let stop = min (base + 8) (length data);
          chunk = (if base \<le> stop then take (stop - base) (drop base data) else [])
      in of_le_bytes (chunk @ replicate (8 - length chunk) 0))"

definition mix_k1 :: "u64 \<Rightarrow> u64" where
  "mix_k1 k = rotate_left 31 (k * murmur_C1) * murmur_C2"

definition mix_k2 :: "u64 \<Rightarrow> u64" where
  "mix_k2 k = rotate_left 33 (k * murmur_C2) * murmur_C1"

definition murmur_block :: "bytes \<Rightarrow> nat \<Rightarrow> u64 \<times> u64 \<Rightarrow> u64 \<times> u64" where
  "murmur_block data i h =
     (case h of (h1, h2) \<Rightarrow>
        let base = i * 16;
            k1 = read_u64_le data base;
            k2 = read_u64_le data (base + 8);
            h1 = h1 XOR mix_k1 k1;
            h1 = (rotate_left 27 h1 + h2) * 5 + 0x52dce729;
            h2 = h2 XOR mix_k2 k2;
            h2 = (rotate_left 31 h2 + h1) * 5 + 0x38495ab5
        in (h1, h2))"

text \<open>The tail words: the loops run over the byte positions downwards, each byte shifted into place.\<close>

definition tail_word :: "bytes \<Rightarrow> nat \<Rightarrow> nat \<Rightarrow> u64" where
  "tail_word tail lo hi =
     fold (\<lambda>i k. k XOR push_bit (8 * (i - lo)) (ucast (tail ! i))) (rev [lo..<hi]) 0"

definition murmur3_x64_128 :: "bytes \<Rightarrow> u64 \<Rightarrow> u64 \<times> u64" where
  "murmur3_x64_128 data seed =
     (let nblocks = length data div 16;
          (h1, h2) = fold (murmur_block data) [0..<nblocks] (seed, seed);
          tail = drop (nblocks * 16) data;
          tlen = length tail;
          h2 = (if tlen \<ge> 9 then h2 XOR mix_k2 (tail_word tail 8 tlen) else h2);
          h1 = (if tlen \<ge> 1 then h1 XOR mix_k1 (tail_word tail 0 (min tlen 8)) else h1);
          len = word_of_nat (length data);
          h1 = h1 XOR len;
          h2 = h2 XOR len;
          h1 = h1 + h2;
          h2 = h2 + h1;
          h1 = fmix64 h1;
          h2 = fmix64 h2;
          h1 = h1 + h2;
          h2 = h2 + h1
      in (h1, h2))"

definition hash64 :: "bytes \<Rightarrow> u64" where
  "hash64 data = fst (murmur3_x64_128 data 0)"

subsection \<open>Finalizers are bijections\<close>

lemma xorshift_inject:
  fixes a b :: "'a::len word"
  assumes "a XOR drop_bit n a = b XOR drop_bit n b" and "0 < n"
  shows "a = b"
proof -
  let ?d = "a XOR b"
  have "?d XOR drop_bit n ?d = (a XOR drop_bit n a) XOR (b XOR drop_bit n b)"
    by (rule bit_word_eqI) (auto simp: bit_simps)
  with assms(1) have "?d XOR drop_bit n ?d = 0" by simp
  then have d: "?d = drop_bit n ?d" by (metis xor.left_neutral xor.right_neutral xor.assoc xor_self_eq)
  from d have "unat ?d = unat ?d div 2 ^ n" by (metis unat_drop_bit)
  moreover have "(2::nat) ^ n > 1" using assms(2) by (rule one_less_power [rotated]) simp
  ultimately have "unat ?d = 0"
    by (metis div_less_dividend less_irrefl not_gr_zero)
  then have "?d = 0" by (simp add: unat_eq_zero)
  then show "a = b" by (metis xor.assoc xor.left_neutral xor.right_neutral xor_self_eq)
qed

lemma odd_mult_inject:
  fixes a b c d :: "'a::len word"
  assumes "a * c = b * c" and "c * d = 1"
  shows "a = b"
  by (metis assms mult.assoc mult.right_neutral)

lemma word_inj_surj: "inj f \<Longrightarrow> surj (f :: 'a::len word \<Rightarrow> 'a word)"
  by (rule finite_UNIV_inj_surj) simp

text \<open>
  The 64-bit finalizer is a permutation of the words: it loses no bit of the state it mixes.
\<close>

theorem fmix64_bij: "bij fmix64"
proof -
  have "inj fmix64"
  proof (rule injI)
    fix x y assume "fmix64 x = fmix64 y"
    then have "(x XOR drop_bit 33 x) * 0xff51afd7ed558ccd = (y XOR drop_bit 33 y) * 0xff51afd7ed558ccd"
      by (auto simp: fmix64_def Let_def dest!: xorshift_inject
          odd_mult_inject [where c = "0xc4ceb9fe1a85ec53" and d = "0x9cb4b2f8129337db"])
    then show "x = y"
      by (auto dest!: odd_mult_inject [where d = "0x4f74430c22a54005"] xorshift_inject)
  qed
  then show ?thesis using word_inj_surj by (simp add: bij_def)
qed

subsection \<open>The tail words\<close>

lemma or_byte_shift:
  "push_bit (8 * k) (ucast (b :: u8)) XOR push_bit (8 * Suc k) (r :: u64)
     = push_bit (8 * k) (ucast b OR push_bit 8 r)"
  by (rule bit_word_eqI) (auto simp: bit_simps add.commute dest: bit_imp_le_length)

lemma foldr_tail_word:
  assumes "lo \<le> i" and "i \<le> hi" and "hi \<le> length tail"
  shows "foldr (\<lambda>i k. k XOR push_bit (8 * (i - lo)) (ucast (tail ! i))) [i..<hi] 0
           = push_bit (8 * (i - lo)) (of_le_bytes (take (hi - i) (drop i tail)) :: u64)"
  using assms
proof (induction "hi - i" arbitrary: i)
  case (Suc n)
  then have i: "i < hi" by simp
  then have "take (hi - i) (drop i tail) = tail ! i # take (hi - Suc i) (drop (Suc i) tail)"
    using Suc.prems by (simp add: take_Cons' flip: Cons_nth_drop_Suc)
  moreover have "foldr (\<lambda>i k. k XOR push_bit (8 * (i - lo)) (ucast (tail ! i))) [Suc i..<hi] 0
      = push_bit (8 * (Suc i - lo)) (of_le_bytes (take (hi - Suc i) (drop (Suc i) tail)) :: u64)"
    by (rule Suc.hyps(1)) (use Suc.hyps(2) Suc.prems i in auto)
  moreover have "Suc i - lo = Suc (i - lo)" using Suc.prems by simp
  ultimately show ?case
    using i by (simp only: upt_conv_Cons foldr.simps comp_apply of_le_bytes.simps xor.commute [of "push_bit _ (of_le_bytes _)"] or_byte_shift)
qed simp

lemma tail_word_eq:
  "lo \<le> hi \<Longrightarrow> hi \<le> length tail \<Longrightarrow> tail_word tail lo hi = of_le_bytes (take (hi - lo) (drop lo tail))"
  using foldr_tail_word [of lo lo hi tail] by (simp add: tail_word_def foldr_conv_fold)

lemma of_le_bytes_pad: "of_le_bytes (bs @ replicate n 0) = of_le_bytes bs"
proof (induction bs)
  case Nil
  show ?case by (induction n) auto
qed simp

text \<open>
  The tail loops implement the zero-padded little-endian read: for a tail of at most 15 bytes
  the low and the high word they assemble byte by byte are the two 64-bit words of the
  last block, padded with zeros.
\<close>

theorem murmur_tail_words:
  assumes "length tail < 16"
  shows "tail_word tail 0 (min (length tail) 8) = read_u64_le tail 0"
    and "9 \<le> length tail \<Longrightarrow> tail_word tail 8 (length tail) = read_u64_le tail 8"
  using assms by (auto simp: tail_word_eq read_u64_le_def Let_def of_le_bytes_pad min_def)

theorem murmur_tail_words_witness:
  "tail_word [1, 2, 3, 4, 5, 6, 7, 8, 9, 10] 0 8 = read_u64_le [1, 2, 3, 4, 5, 6, 7, 8, 9, 10] 0
   \<and> tail_word [1, 2, 3, 4, 5, 6, 7, 8, 9, 10] 8 10 = read_u64_le [1, 2, 3, 4, 5, 6, 7, 8, 9, 10] 8"
  using murmur_tail_words [of "[1, 2, 3, 4, 5, 6, 7, 8, 9, 10]"] by (simp add: eval_nat_numeral)

end
