(* ===== verification/Maglev.thy ===== *)
theory Maglev
  imports Murmur_Hash
begin

text \<open>
  Consistent hashing (\<open>control/src/maglev.rs\<close>) and the primality test its table size is validated
  with (\<open>control/src/manifest/validate.rs\<close>).  The two loops of \<open>MaglevTable::build\<close> -- the probe for an
  empty slot and the outer fill -- are partial functions, \<open>None\<close> meaning that they never end; the
  theorems show that they return and how many slots each backend holds.  Indices and counters are
  natural numbers; the product the source computes with \<open>wrapping_mul\<close> is taken modulo 2^64.
\<close>

subsection \<open>Primality of the table size\<close>

function prime_loop :: "nat \<Rightarrow> nat \<Rightarrow> bool" where
  "prime_loop n d = (if d * d \<le> n then (if n mod d = 0 then False else prime_loop n (d + 2)) else True)"
  by auto
termination
proof (relation "measure (\<lambda>(n, d). n + 2 - d)")
  fix n d :: nat assume "d * d \<le> n" "n mod d \<noteq> 0"
  then have "d \<le> n" by (cases d) auto
  then show "((n, d + 2), (n, d)) \<in> measure (\<lambda>(n, d). n + 2 - d)" by simp
qed simp

declare prime_loop.simps [simp del]

definition is_prime :: "u32 \<Rightarrow> bool" where
  "is_prime n =
     (if n < 2 then False
      else if unat n mod 2 = 0 then n = 2
      else prime_loop (unat n) 3)"

definition prime_nat :: "nat \<Rightarrow> bool" where
  "prime_nat n \<longleftrightarrow> 2 \<le> n \<and> (\<forall>d. d dvd n \<longrightarrow> d = 1 \<or> d = n)"

lemma prime_loop_iff:
  assumes "odd d" and "odd n"
  shows "prime_loop n d \<longleftrightarrow> (\<forall>e. d \<le> e \<and> e * e \<le> n \<and> odd e \<longrightarrow> \<not> e dvd n)"
  using assms
proof (induction n d rule: prime_loop.induct)
  case (1 n d)
  have step: "d \<le> e \<and> odd e \<longleftrightarrow> e = d \<or> d + 2 \<le> e \<and> odd e" for e
    using 1(2) by (auto elim!: oddE)
  have stop: "\<not> e * e \<le> n" if "\<not> d * d \<le> n" "d \<le> e" for e
    using that mult_le_mono [OF that(2) that(2)] by linarith
  show ?case
  proof (cases "d * d \<le> n")
    case True
    show ?thesis
    proof (cases "n mod d = 0")
      case True
      with \<open>d * d \<le> n\<close> 1(2) show ?thesis
        by (subst prime_loop.simps) (auto simp: dvd_eq_mod_eq_0 intro!: exI [of _ d])
    next
      case False
      then have "prime_loop n d \<longleftrightarrow> (\<forall>e. d + 2 \<le> e \<and> e * e \<le> n \<and> odd e \<longrightarrow> \<not> e dvd n)"
        using True 1 by (subst prime_loop.simps) simp
      moreover have "\<not> d dvd n" using False by (simp add: dvd_eq_mod_eq_0)
      ultimately show ?thesis using step by metis
    qed
  next
    case False
    then show ?thesis
      using stop by (subst prime_loop.simps) auto
  qed
qed

lemma odd_composite_small_factor:
  assumes "odd n" and "2 \<le> n" and "\<not> prime_nat n"
  shows "\<exists>e. 3 \<le> e \<and> e * e \<le> n \<and> odd e \<and> e dvd n"
proof -
  obtain d where d: "d dvd n" "d \<noteq> 1" "d \<noteq> n" using assms(2,3) by (auto simp: prime_nat_def)
  then obtain e where e: "n = d * e" by auto
  have "odd d" "odd e" using assms(1) e by auto
  moreover have "d \<noteq> 0" "e \<noteq> 0" "e \<noteq> 1" using e assms(2) d by (auto intro: gr0I)
  ultimately have *: "3 \<le> d" "3 \<le> e" using d(2) by presburger+
  show ?thesis
  proof (cases "d \<le> e")
    case True
    then have "d * d \<le> n" using e by simp
    with * d \<open>odd d\<close> show ?thesis by blast
  next
    case False
    then have "e * e \<le> n" using e by simp
    with * e \<open>odd e\<close> show ?thesis by auto
  qed
qed

text \<open>
  The trial-division test accepts exactly the primes of its 32-bit range.
\<close>

lemma is_prime_iff: "is_prime n \<longleftrightarrow> prime_nat (unat n)"
proof -
  consider (small) "unat n < 2" | (even) "2 \<le> unat n" "even (unat n)" | (odd) "2 \<le> unat n" "odd (unat n)"
    by linarith
  then show ?thesis
  proof cases
    case small
    then show ?thesis by (simp add: is_prime_def prime_nat_def word_less_nat_alt)
  next
    case even
    then have "is_prime n \<longleftrightarrow> unat n = 2"
      by (auto simp: is_prime_def word_less_nat_alt word_unat_eq_iff even_iff_mod_2_eq_zero)
    moreover have "prime_nat 2"
    proof -
      have "d = 1 \<or> d = 2" if "d dvd 2" for d :: nat
        using that dvd_imp_le [OF that] by (cases "d = 0") auto
      then show ?thesis by (simp add: prime_nat_def)
    qed
    ultimately show ?thesis using even by (auto simp: prime_nat_def)
  next
    case odd
    then have "is_prime n \<longleftrightarrow> (\<forall>e. 3 \<le> e \<and> e * e \<le> unat n \<and> odd e \<longrightarrow> \<not> e dvd unat n)"
      by (simp add: is_prime_def word_less_nat_alt prime_loop_iff odd_iff_mod_2_eq_one)
    moreover have "\<not> prime_nat (unat n)" if "3 \<le> e" "e * e \<le> unat n" "e dvd unat n" for e
    proof
      assume "prime_nat (unat n)"
      with that have "e = unat n" by (auto simp: prime_nat_def dest!: spec [of _ e])
      moreover have "e * 3 \<le> e * e" using that(1) by (rule mult_le_mono2)
      ultimately show False using that by linarith
    qed
    ultimately show ?thesis
      using odd_composite_small_factor odd by blast
  qed
qed

subsection \<open>Building the table\<close>

text \<open>
  The arrays of \<open>build\<close> that the fill loop only reads, and the ones it updates.  An empty slot holds
  -1, as in the source.
\<close>

record perm_env =
  pe_m :: nat
  pe_offset :: "nat list"
  pe_skip :: "nat list"
  pe_weights :: "nat list"
  pe_max_w :: nat

record fill_state =
  fs_entry :: "int list"
  fs_next :: "nat list"
  fs_target :: "nat list"
  fs_filled :: nat
  fs_round :: nat

definition probe_slot :: "perm_env \<Rightarrow> nat \<Rightarrow> nat \<Rightarrow> nat" where
  "probe_slot pe i j = (pe_offset pe ! i + (j * pe_skip pe ! i) mod 2 ^ 64) mod pe_m pe"

partial_function (option) probe :: "perm_env \<Rightarrow> int list \<Rightarrow> nat \<Rightarrow> nat \<Rightarrow> (nat \<times> nat) option" where
  "probe pe entry i j =
     (let c = probe_slot pe i j
      in if entry ! c \<ge> 0 then probe pe entry i (j + 1) else Some (j, c))"

definition take_turn :: "perm_env \<Rightarrow> fill_state \<Rightarrow> nat \<Rightarrow> fill_state option" where
  "take_turn pe st i =
     (case probe pe (fs_entry st) i (fs_next st ! i) of
        None \<Rightarrow> None
      | Some (j, c) \<Rightarrow>
          Some (st\<lparr>fs_target := (fs_target st)[i := fs_target st ! i + pe_max_w pe],
                   fs_entry := (fs_entry st)[c := int i],
                   fs_next := (fs_next st)[i := j + 1],
                   fs_filled := fs_filled st + 1\<rparr>))"

definition has_turn :: "perm_env \<Rightarrow> fill_state \<Rightarrow> nat \<Rightarrow> bool" where
  "has_turn pe st i \<longleftrightarrow> pe_weights pe ! i \<noteq> 0 \<and> \<not> fs_round st * pe_weights pe ! i < fs_target st ! i"

text \<open>One pass of the inner \<open>for\<close>, left early (\<open>break 'fill\<close>) once the table is full.\<close>

fun fill_round :: "perm_env \<Rightarrow> nat list \<Rightarrow> fill_state \<Rightarrow> fill_state option" where
  "fill_round pe [] st = Some st"
| "fill_round pe (i # is) st =
     (if has_turn pe st i
      then (case take_turn pe st i of
              None \<Rightarrow> None
            | Some st' \<Rightarrow> if fs_filled st' = pe_m pe then Some st' else fill_round pe is st')
      else fill_round pe is st)"

partial_function (option) fill :: "perm_env \<Rightarrow> fill_state \<Rightarrow> fill_state option" where
  "fill pe st =
     (if fs_filled st < pe_m pe
      then (case fill_round pe [0..<length (pe_weights pe)] (st\<lparr>fs_round := fs_round st + 1\<rparr>) of
              None \<Rightarrow> None
            | Some st' \<Rightarrow> fill pe st')
      else Some st)"

definition make_env :: "(bytes \<times> u32) list \<Rightarrow> nat \<Rightarrow> perm_env" where
  "make_env entries m =
     (let ws = map (\<lambda>(_, w). unat w) entries
      in \<lparr>pe_m = m,
          pe_offset = map (\<lambda>(name, _). unat (fst (murmur3_x64_128 name 0)) mod m) entries,
          pe_skip = map (\<lambda>(name, _). unat (snd (murmur3_x64_128 name 0)) mod (m - 1) + 1) entries,
          pe_weights = ws,
          pe_max_w = max (if ws = [] then 1 else Max (set ws)) 1\<rparr>)"

definition start_state :: "perm_env \<Rightarrow> fill_state" where
  "start_state pe =
     \<lparr>fs_entry = replicate (pe_m pe) (- 1), fs_next = replicate (length (pe_weights pe)) 0,
      fs_target = pe_weights pe, fs_filled = 0, fs_round = 0\<rparr>"

definition maglev_build :: "(bytes \<times> u32) list \<Rightarrow> nat \<Rightarrow> u16 list option" where
  "maglev_build entries m =
     (if entries = [] \<or> list_all (\<lambda>(_, w). w = 0) entries \<or> m < 2 then Some []
      else map_option (\<lambda>st. map word_of_int (fs_entry st)) (fill (make_env entries m) (start_state (make_env entries m))))"

definition maglev_lookup :: "u16 list \<Rightarrow> u64 \<Rightarrow> nat option" where
  "maglev_lookup table key_hash =
     (let m = length table in if m = 0 then None else Some (unat (table ! (unat key_hash mod m))))"

subsection \<open>The probe sequence is a permutation\<close>

definition env_ok :: "perm_env \<Rightarrow> bool" where
  "env_ok pe \<longleftrightarrow> prime_nat (pe_m pe) \<and> pe_m pe < 2 ^ 32
     \<and> length (pe_offset pe) = length (pe_weights pe) \<and> length (pe_skip pe) = length (pe_weights pe)
     \<and> (\<forall>i < length (pe_weights pe). pe_offset pe ! i < pe_m pe \<and> 0 < pe_skip pe ! i \<and> pe_skip pe ! i < pe_m pe)
     \<and> (\<forall>w \<in> set (pe_weights pe). w \<le> pe_max_w pe) \<and> pe_max_w pe \<in> set (pe_weights pe) \<and> 0 < pe_max_w pe"

lemma prime_coprime:
  assumes "prime_nat p" and "0 < a" and "a < p"
  shows "coprime a p"
proof (rule coprimeI)
  fix d assume "d dvd a" "d dvd p"
  then have "d = 1 \<or> d = p" and "d \<le> a" using assms by (auto simp: prime_nat_def dest: dvd_imp_le)
  with assms show "is_unit d" by auto
qed

lemma probe_slot_nowrap:
  assumes "env_ok pe" and "i < length (pe_weights pe)" and "j \<le> pe_m pe"
  shows "probe_slot pe i j = (pe_offset pe ! i + j * pe_skip pe ! i) mod pe_m pe"
proof -
  have "j * pe_skip pe ! i \<le> pe_m pe * pe_m pe"
    using assms by (intro mult_le_mono) (auto simp: env_ok_def)
  also have "\<dots> < 2 ^ 32 * 2 ^ 32"
    using assms(1) by (intro mult_strict_mono) (auto simp: env_ok_def)
  finally show ?thesis by (simp add: probe_slot_def)
qed

lemma probe_slot_lt: "env_ok pe \<Longrightarrow> probe_slot pe i j < pe_m pe"
  by (simp add: probe_slot_def env_ok_def prime_nat_def)

lemma probe_slot_inj:
  assumes "env_ok pe" and "i < length (pe_weights pe)"
  shows "inj_on (probe_slot pe i) {..<pe_m pe}"
proof (rule inj_onI)
  fix j k assume "j \<in> {..<pe_m pe}" "k \<in> {..<pe_m pe}" and eq: "probe_slot pe i j = probe_slot pe i k"
  then have jk: "j < pe_m pe" "k < pe_m pe" by simp_all
  have cop: "coprime (pe_skip pe ! i) (pe_m pe)"
    using assms by (auto simp: env_ok_def intro: prime_coprime)
  have le: "b = a" if "a \<le> b" "a < pe_m pe" "b < pe_m pe" "probe_slot pe i a = probe_slot pe i b" for a b
  proof -
    have "pe_m pe dvd (pe_offset pe ! i + b * pe_skip pe ! i) - (pe_offset pe ! i + a * pe_skip pe ! i)"
      using that by (subst mod_eq_dvd_iff_nat [symmetric]) (auto simp: probe_slot_nowrap [OF assms])
    then have "pe_m pe dvd (b - a) * pe_skip pe ! i" by (simp add: diff_mult_distrib)
    then have "pe_m pe dvd b - a"
      using cop by (simp add: coprime_commute coprime_dvd_mult_left_iff)
    moreover have "b - a < pe_m pe" using that by linarith
    ultimately have "b - a = 0" by (metis dvd_imp_le gr0I not_less)
    with that(1) show ?thesis by simp
  qed
  then show "j = k" using jk eq by (metis nat_le_linear)
qed

lemma probe_slot_surj:
  assumes "env_ok pe" and "i < length (pe_weights pe)" and "c < pe_m pe"
  shows "\<exists>j < pe_m pe. probe_slot pe i j = c"
proof -
  have "probe_slot pe i ` {..<pe_m pe} = {..<pe_m pe}"
    by (rule endo_inj_surj) (use probe_slot_lt assms(1) probe_slot_inj [OF assms(1,2)] in auto)
  then have "c \<in> probe_slot pe i ` {..<pe_m pe}" using assms(3) by simp
  then show ?thesis by auto
qed

subsection \<open>The fill loop\<close>

definition held :: "fill_state \<Rightarrow> nat \<Rightarrow> nat" where
  "held st i = tally (\<lambda>e. e = int i) (fs_entry st)"

definition fill_inv :: "perm_env \<Rightarrow> fill_state \<Rightarrow> bool" where
  "fill_inv pe st \<longleftrightarrow>
     length (fs_entry st) = pe_m pe \<and> length (fs_next st) = length (pe_weights pe)
     \<and> length (fs_target st) = length (pe_weights pe)
     \<and> (\<forall>e \<in> set (fs_entry st). - 1 \<le> e \<and> e < int (length (pe_weights pe)))
     \<and> fs_filled st = tally (\<lambda>e. 0 \<le> e) (fs_entry st)
     \<and> (\<forall>i < length (pe_weights pe). fs_next st ! i \<le> pe_m pe
          \<and> (\<forall>j < fs_next st ! i. 0 \<le> fs_entry st ! probe_slot pe i j)
          \<and> fs_target st ! i = pe_weights pe ! i + held st i * pe_max_w pe)"

lemma probe_steps:
  assumes "fs_entry st ! probe_slot pe i j0 < 0" and "j \<le> j0"
  shows "\<exists>j'. probe pe (fs_entry st) i j = Some (j', probe_slot pe i j') \<and> j \<le> j' \<and> j' \<le> j0
           \<and> fs_entry st ! probe_slot pe i j' < 0
           \<and> (\<forall>k. j \<le> k \<and> k < j' \<longrightarrow> 0 \<le> fs_entry st ! probe_slot pe i k)"
  using assms(2)
proof (induction "j0 - j" arbitrary: j)
  case 0
  then show ?case using assms(1) by (subst probe.simps) auto
next
  case (Suc n)
  show ?case
  proof (cases "fs_entry st ! probe_slot pe i j < 0")
    case True
    then show ?thesis using Suc.prems by (subst probe.simps) auto
  next
    case False
    obtain j' where j': "probe pe (fs_entry st) i (Suc j) = Some (j', probe_slot pe i j')" "Suc j \<le> j'" "j' \<le> j0"
        "fs_entry st ! probe_slot pe i j' < 0" "\<forall>k. Suc j \<le> k \<and> k < j' \<longrightarrow> 0 \<le> fs_entry st ! probe_slot pe i k"
      using Suc.hyps(1) [of "Suc j"] Suc.hyps(2) by (metis Suc_leI diff_Suc_eq_diff_pred diff_diff_left diff_Suc_1 plus_1_eq_Suc add.commute zero_less_Suc zero_less_diff)
    have "\<forall>k. j \<le> k \<and> k < j' \<longrightarrow> 0 \<le> fs_entry st ! probe_slot pe i k"
      using j'(5) False by (metis le_eq_less_or_eq not_less Suc_leI)
    with j' False show ?thesis by (subst probe.simps) (auto simp: Let_def)
  qed
qed

lemma probe_returns:
  assumes "env_ok pe" and "fill_inv pe st" and "i < length (pe_weights pe)" and "fs_filled st < pe_m pe"
  shows "\<exists>j. probe pe (fs_entry st) i (fs_next st ! i) = Some (j, probe_slot pe i j) \<and> j < pe_m pe
           \<and> fs_entry st ! probe_slot pe i j < 0
           \<and> (\<forall>k < j. 0 \<le> fs_entry st ! probe_slot pe i k)"
proof -
  obtain c where c: "c < pe_m pe" "fs_entry st ! c < 0"
    using tally_less_length [of "\<lambda>e. 0 \<le> e" "fs_entry st"] assms(2,4) by (auto simp: fill_inv_def not_le)
  then obtain j0 where j0: "j0 < pe_m pe" "fs_entry st ! probe_slot pe i j0 < 0"
    using probe_slot_surj [OF assms(1,3)] by metis
  have seen: "\<forall>k < fs_next st ! i. 0 \<le> fs_entry st ! probe_slot pe i k"
    using assms(2,3) by (simp add: fill_inv_def)
  with j0 have "fs_next st ! i \<le> j0" by (meson not_less)
  from probe_steps [OF j0(2) this] obtain j where
    j: "probe pe (fs_entry st) i (fs_next st ! i) = Some (j, probe_slot pe i j)" "fs_next st ! i \<le> j" "j \<le> j0"
      "fs_entry st ! probe_slot pe i j < 0"
      "\<forall>k. fs_next st ! i \<le> k \<and> k < j \<longrightarrow> 0 \<le> fs_entry st ! probe_slot pe i k"
    by blast
  moreover have "\<forall>k < j. 0 \<le> fs_entry st ! probe_slot pe i k"
    using seen j(5) by (meson not_less)
  ultimately show ?thesis using j0(1) by auto
qed

lemma take_turn_inv:
  assumes "env_ok pe" and "fill_inv pe st" and "i < length (pe_weights pe)" and "fs_filled st < pe_m pe"
  shows "\<exists>st'. take_turn pe st i = Some st' \<and> fill_inv pe st' \<and> fs_round st' = fs_round st
           \<and> fs_filled st' = fs_filled st + 1
           \<and> (\<forall>k. held st' k = held st k + (if k = i then 1 else 0))"
proof -
  obtain j where j: "probe pe (fs_entry st) i (fs_next st ! i) = Some (j, probe_slot pe i j)" "j < pe_m pe"
      "fs_entry st ! probe_slot pe i j < 0" "\<forall>k < j. 0 \<le> fs_entry st ! probe_slot pe i k"
    using probe_returns [OF assms] by blast
  let ?c = "probe_slot pe i j"
  have len: "length (fs_entry st) = pe_m pe" "length (fs_next st) = length (pe_weights pe)"
      "length (fs_target st) = length (pe_weights pe)"
    using assms(2) by (simp_all add: fill_inv_def)
  have c: "?c < length (fs_entry st)" using len probe_slot_lt [OF assms(1)] by simp
  define st' where "st' = st\<lparr>fs_target := (fs_target st)[i := fs_target st ! i + pe_max_w pe],
      fs_entry := (fs_entry st)[?c := int i], fs_next := (fs_next st)[i := j + 1], fs_filled := fs_filled st + 1\<rparr>"
  have turn: "take_turn pe st i = Some st'" by (simp add: take_turn_def j(1) st'_def)
  have held: "held st' k = held st k + (if k = i then 1 else 0)" for k
    using tally_update [OF c, of "\<lambda>e. e = int k" "int i"] j(3) by (auto simp: held_def st'_def split: if_splits)
  have keep: "0 \<le> fs_entry st' ! s" if "0 \<le> fs_entry st ! s \<or> s = ?c" for s
    using that c by (cases "s = ?c") (auto simp: st'_def)
  have "fill_inv pe st'"
    unfolding fill_inv_def
  proof (intro conjI allI impI)
    show "\<forall>e \<in> set (fs_entry st'). - 1 \<le> e \<and> e < int (length (pe_weights pe))"
      using assms(2,3) set_update_subset_insert [of "fs_entry st" ?c "int i"] by (auto simp: st'_def fill_inv_def)
    show "fs_filled st' = tally (\<lambda>e. 0 \<le> e) (fs_entry st')"
      using tally_update [OF c, of "\<lambda>e. 0 \<le> e" "int i"] j(3) assms(2) by (auto simp: st'_def fill_inv_def split: if_splits)
    fix k assume k: "k < length (pe_weights pe)"
    show "fs_next st' ! k \<le> pe_m pe"
      using k assms(2) j(2) len by (cases "k = i") (auto simp: st'_def fill_inv_def)
    show "fs_target st' ! k = pe_weights pe ! k + held st' k * pe_max_w pe"
      using k assms(2) len by (cases "k = i") (auto simp: held, auto simp: st'_def fill_inv_def)
    show "0 \<le> fs_entry st' ! probe_slot pe k q" if "q < fs_next st' ! k" for q
      using that k assms(2) len j(4) by (intro keep) (cases "k = i"; auto simp: st'_def fill_inv_def less_Suc_eq)
  qed (use len in \<open>simp_all add: st'_def\<close>)
  with turn held show ?thesis by (auto simp: st'_def)
qed

subsection \<open>How many turns a backend has taken\<close>

text \<open>
  After \<open>r\<close> rounds a backend of positive weight \<open>w\<close> has taken a turn in the first round and one more
  every \<open>W / w\<close> rounds, \<open>W\<close> being the largest weight.
\<close>

definition turns :: "nat \<Rightarrow> nat \<Rightarrow> nat \<Rightarrow> nat" where
  "turns w W r = (if r = 0 \<or> w = 0 then 0 else (r - 1) * w div W + 1)"

lemma turns_step:
  assumes "0 < w" and "w \<le> W" and "0 < r"
  shows "turns w W r = turns w W (r - 1) + (if r * w < w + turns w W (r - 1) * W then 0 else 1)"
proof (cases "r = 1")
  case True
  with assms show ?thesis by (simp add: turns_def)
next
  case False
  define s q where "s = r - 2" and "q = s * w div W"
  have r: "r = s + 2" using False assms(3) by (simp add: s_def)
  have W: "0 < W" using assms by simp
  have lo: "q * W \<le> s * w" and hi: "s * w < q * W + W"
    using dividend_less_div_times [OF W, of "s * w"] by (simp_all add: q_def)
  have prev: "turns w W (r - 1) = q + 1" and cur: "turns w W r = (s + 1) * w div W + 1"
    using assms(1) by (simp_all add: turns_def r q_def)
  show ?thesis
  proof (cases "(s + 1) * w < (q + 1) * W")
    case True
    have "(s + 1) * w div W = q"
      using lo True by (intro div_nat_eqI) (simp_all add: algebra_simps)
    moreover have "r * w < w + (q + 1) * W" using True by (simp add: r)
    ultimately show ?thesis unfolding prev cur by simp
  next
    case False
    have "(s + 1) * w div W = q + 1"
      using hi False assms(2) by (intro div_nat_eqI) (simp_all add: algebra_simps)
    moreover have "\<not> r * w < w + (q + 1) * W" using False by (simp add: r)
    ultimately show ?thesis unfolding prev cur by simp
  qed
qed

lemma turns_max: "0 < W \<Longrightarrow> turns W W r = r"
  by (simp add: turns_def)

definition round_inv :: "perm_env \<Rightarrow> fill_state \<Rightarrow> nat \<Rightarrow> nat \<Rightarrow> bool" where
  "round_inv pe st p r \<longleftrightarrow> fill_inv pe st \<and> fs_round st = r
     \<and> (\<forall>k < length (pe_weights pe).
          held st k = turns (pe_weights pe ! k) (pe_max_w pe) (if k < p then r else r - 1))"

lemma weight_le_max: "env_ok pe \<Longrightarrow> i < length (pe_weights pe) \<Longrightarrow> pe_weights pe ! i \<le> pe_max_w pe"
  by (simp add: env_ok_def)

lemma round_step:
  assumes "env_ok pe" and "round_inv pe st p r" and "p < length (pe_weights pe)" and "0 < r"
    and "fs_filled st < pe_m pe"
  shows "\<not> has_turn pe st p \<Longrightarrow> round_inv pe st (Suc p) r"
    and "has_turn pe st p \<Longrightarrow> \<exists>st'. take_turn pe st p = Some st' \<and> round_inv pe st' (Suc p) r \<and> fs_filled st' \<le> pe_m pe"
proof -
  let ?w = "pe_weights pe ! p" and ?W = "pe_max_w pe"
  have inv: "fill_inv pe st" and rd: "fs_round st = r" and h: "held st p = turns ?w ?W (r - 1)"
    using assms(2,3) by (auto simp: round_inv_def)
  have tgt: "fs_target st ! p = ?w + turns ?w ?W (r - 1) * ?W"
    using inv assms(3) h by (simp add: fill_inv_def)
  have step: "turns ?w ?W r = turns ?w ?W (r - 1) + (if has_turn pe st p then 1 else 0)"
    using turns_step [of ?w ?W r] weight_le_max [OF assms(1,3)] assms(4) tgt rd
    by (cases "?w = 0") (auto simp: has_turn_def turns_def)
  show "round_inv pe st (Suc p) r" if "\<not> has_turn pe st p"
    using assms(2) that step h by (auto simp: round_inv_def less_Suc_eq)
  show "\<exists>st'. take_turn pe st p = Some st' \<and> round_inv pe st' (Suc p) r \<and> fs_filled st' \<le> pe_m pe"
    if "has_turn pe st p"
    using take_turn_inv [OF assms(1) inv assms(3,5)] assms(2,5) that step h
    by (auto simp: round_inv_def less_Suc_eq)
qed

lemma fill_round_inv:
  assumes "env_ok pe" and "round_inv pe st p r" and "p \<le> length (pe_weights pe)" and "0 < r"
    and "fs_filled st < pe_m pe"
  shows "\<exists>st' p'. fill_round pe [p..<length (pe_weights pe)] st = Some st' \<and> round_inv pe st' p' r
           \<and> fs_filled st' \<le> pe_m pe \<and> (fs_filled st' = pe_m pe \<or> p' = length (pe_weights pe))"
  using assms(2,3,5)
proof (induction "length (pe_weights pe) - p" arbitrary: p st)
  case 0
  then show ?case by auto
next
  case (Suc n)
  then have p: "p < length (pe_weights pe)" by simp
  note step = round_step [OF assms(1) Suc.prems(1) p assms(4) Suc.prems(3)]
  have rest: "n = length (pe_weights pe) - Suc p" using Suc.hyps(2) by simp
  show ?case
  proof (cases "has_turn pe st p")
    case False
    then show ?thesis
      using Suc.hyps(1) [OF rest step(1)] p Suc.prems(3) by (simp add: upt_conv_Cons)
  next
    case True
    then obtain st1 where st1: "take_turn pe st p = Some st1" "round_inv pe st1 (Suc p) r" "fs_filled st1 \<le> pe_m pe"
      using step(2) by blast
    show ?thesis
    proof (cases "fs_filled st1 = pe_m pe")
      case True
      with st1 \<open>has_turn pe st p\<close> p show ?thesis by (auto simp: upt_conv_Cons)
    next
      case False
      with st1 have "fs_filled st1 < pe_m pe" by simp
      with Suc.hyps(1) [OF rest st1(2)] p st1 \<open>has_turn pe st p\<close> False show ?thesis
        by (simp add: upt_conv_Cons)
    qed
  qed
qed

lemma held_le_filled: "fill_inv pe st \<Longrightarrow> held st k \<le> fs_filled st"
  by (auto simp: fill_inv_def held_def intro!: tally_mono)

lemma rounds_le_filled:
  assumes "env_ok pe" and "round_inv pe st (length (pe_weights pe)) r"
  shows "r \<le> fs_filled st"
proof -
  obtain k where k: "k < length (pe_weights pe)" "pe_weights pe ! k = pe_max_w pe"
    using assms(1) by (auto simp: env_ok_def in_set_conv_nth)
  then have "held st k = r" using assms by (simp add: round_inv_def turns_max env_ok_def)
  then show ?thesis using held_le_filled [of pe st k] assms(2) by (simp add: round_inv_def)
qed

lemma fill_returns:
  assumes "env_ok pe" and "round_inv pe st (length (pe_weights pe)) r" and "fs_filled st \<le> pe_m pe"
    and "fs_filled st = pe_m pe \<Longrightarrow> 0 < r"
  shows "\<exists>st' p' R. fill pe st = Some st' \<and> 0 < R \<and> R \<le> pe_m pe \<and> round_inv pe st' p' R \<and> fs_filled st' = pe_m pe"
  using assms(2-4)
proof (induction "pe_m pe - r" arbitrary: st r rule: less_induct)
  case less
  have rm: "r \<le> fs_filled st" by (rule rounds_le_filled [OF assms(1) less.prems(1)])
  show ?case
  proof (cases "fs_filled st < pe_m pe")
    case False
    with less.prems rm have "fs_filled st = pe_m pe" "0 < r" "r \<le> pe_m pe" by auto
    then show ?thesis using less.prems(1) by (subst fill.simps) auto
  next
    case True
    let ?st = "st\<lparr>fs_round := fs_round st + 1\<rparr>"
    have "round_inv pe ?st 0 (Suc r)"
      using less.prems(1) by (auto simp: round_inv_def fill_inv_def held_def)
    from fill_round_inv [OF assms(1) this] True obtain st1 p1 where
      st1: "fill_round pe [0..<length (pe_weights pe)] ?st = Some st1" "round_inv pe st1 p1 (Suc r)"
        "fs_filled st1 \<le> pe_m pe" "fs_filled st1 = pe_m pe \<or> p1 = length (pe_weights pe)"
      by auto
    have unfold: "fill pe st = fill pe st1"
      using True st1(1) by (subst fill.simps) simp
    show ?thesis
    proof (cases "fs_filled st1 = pe_m pe")
      case True
      then show ?thesis
        using unfold st1(2) rm \<open>fs_filled st < pe_m pe\<close> fill.simps [of pe st1]
        by (intro exI [of _ st1] exI [of _ p1] exI [of _ "Suc r"]) simp
    next
      case False
      with st1 have "round_inv pe st1 (length (pe_weights pe)) (Suc r)" by simp
      with less.hyps [of "Suc r" st1] st1(3) rm True show ?thesis
        unfolding unfold by auto
    qed
  qed
qed

subsection \<open>The finished table\<close>

text \<open>The preconditions the manifest validation guarantees.\<close>

definition maglev_ok :: "(bytes \<times> u32) list \<Rightarrow> nat \<Rightarrow> bool" where
  "maglev_ok entries m \<longleftrightarrow> prime_nat m \<and> m < 2 ^ 32 \<and> (\<exists>e \<in> set entries. snd e \<noteq> 0) \<and> length entries < 2 ^ 16"

lemma make_env_ok:
  assumes "maglev_ok entries m"
  shows "env_ok (make_env entries m)"
proof -
  let ?ws = "map (\<lambda>(_, w). unat w) entries"
  obtain e where e: "e \<in> set entries" "snd e \<noteq> 0" using assms by (auto simp: maglev_ok_def)
  then have ne: "entries \<noteq> []" and pos: "unat (snd e) \<in> set ?ws" "0 < unat (snd e)"
    by (auto simp: unat_gt_0 case_prod_beta)
  then have "0 < Max (set ?ws)" using Max_ge [OF _ pos(1)] by (meson List.finite_set less_le_trans)
  then have max: "max (if ?ws = [] then 1 else Max (set ?ws)) 1 = Max (set ?ws)" using ne by simp
  have m: "2 \<le> m" using assms by (simp add: maglev_ok_def prime_nat_def)
  have sk: "x mod (m - 1) + 1 < m" for x
    using m mod_less_divisor [of "m - 1" x] by linarith
  show ?thesis
    unfolding env_ok_def make_env_def Let_def perm_env.simps max
    using assms ne m sk \<open>0 < Max (set ?ws)\<close> Max_in [of "set ?ws"]
    by (auto simp: maglev_ok_def case_prod_beta intro: Max_ge)
qed

lemma sum_tally:
  assumes "\<forall>e \<in> set xs. e < int n"
  shows "tally (\<lambda>e. 0 \<le> e) xs = (\<Sum>i < n. tally (\<lambda>e. e = int i) xs)"
  using assms
proof (induction xs)
  case (Cons x xs)
  have "(\<Sum>i < n. if x = int i then 1 else 0 :: nat) = (if 0 \<le> x then 1 else 0)"
  proof (cases "0 \<le> x")
    case True
    then have "(\<Sum>i < n. if x = int i then 1 else 0 :: nat) = (\<Sum>i < n. if i = nat x then 1 else 0)"
      by (intro sum.cong) auto
    also have "\<dots> = 1" using True Cons.prems by (simp add: nat_less_iff)
    finally show ?thesis using True by simp
  next
    case False
    then have "(\<Sum>i < n. if x = int i then 1 else 0 :: nat) = (\<Sum>i < n. 0)" by (intro sum.cong) auto
    with False show ?thesis by simp
  qed
  with Cons show ?case by (simp add: sum.distrib)
qed simp

lemma tally_map: "tally P (map f xs) = tally (\<lambda>x. P (f x)) xs"
  by (induction xs) auto

lemma tally_cong: "(\<And>x. x \<in> set xs \<Longrightarrow> P x = Q x) \<Longrightarrow> tally P xs = tally Q xs"
  unfolding tally_def by (metis filter_cong)

definition slots_of :: "u16 list \<Rightarrow> nat \<Rightarrow> nat" where
  "slots_of table i = tally (\<lambda>e. unat e = i) table"

definition weight_at :: "(bytes \<times> u32) list \<Rightarrow> nat \<Rightarrow> nat" where
  "weight_at entries i = unat (snd (entries ! i))"

definition max_weight :: "(bytes \<times> u32) list \<Rightarrow> nat" where
  "max_weight entries = pe_max_w (make_env entries 2)"

lemma maglev_core:
  assumes "maglev_ok entries m"
  shows "\<exists>table R. maglev_build entries m = Some table \<and> length table = m \<and> 0 < R \<and> R \<le> m
           \<and> (\<forall>e \<in> set table. unat e < length entries)
           \<and> (\<Sum>i < length entries. slots_of table i) = m
           \<and> (\<forall>i < length entries. slots_of table i \<in>
                {turns (weight_at entries i) (max_weight entries) (R - 1), turns (weight_at entries i) (max_weight entries) R})"
proof -
  let ?pe = "make_env entries m" and ?n = "length entries"
  note ok = make_env_ok [OF assms]
  have m2: "2 \<le> m" and ne: "entries \<noteq> []" and nz: "\<not> list_all (\<lambda>(_, w). w = 0) entries" and n16: "?n < 2 ^ 16"
    using assms by (auto simp: maglev_ok_def prime_nat_def list_all_iff)
  have pe: "pe_m ?pe = m" "length (pe_weights ?pe) = ?n" "pe_max_w ?pe = max_weight entries"
      "\<And>i. i < ?n \<Longrightarrow> pe_weights ?pe ! i = weight_at entries i"
    by (auto simp: make_env_def Let_def max_weight_def weight_at_def case_prod_beta)
  have held0: "held (start_state ?pe) k = 0" for k
    by (simp add: held_def start_state_def tally_def)
  have "round_inv ?pe (start_state ?pe) (length (pe_weights ?pe)) 0"
    using held0 by (auto simp: round_inv_def fill_inv_def turns_def) (auto simp: start_state_def tally_def)
  from fill_returns [OF ok this] m2 pe(1) obtain st p R where
    st: "fill ?pe (start_state ?pe) = Some st" "0 < R" "R \<le> m" "round_inv ?pe st p R" "fs_filled st = m"
    by (auto simp: start_state_def)
  have inv: "length (fs_entry st) = m" "\<forall>e \<in> set (fs_entry st). - 1 \<le> e \<and> e < int ?n"
      "tally (\<lambda>e. 0 \<le> e) (fs_entry st) = m"
    using st(4,5) pe by (auto simp: round_inv_def fill_inv_def)
  have full: "\<forall>e \<in> set (fs_entry st). 0 \<le> e"
  proof -
    have "filter (\<lambda>e. 0 \<le> e) (fs_entry st) = fs_entry st"
      using inv(1,3) length_filter_less [of _ "fs_entry st" "\<lambda>e. 0 \<le> e"]
      by (metis filter_True less_irrefl tally_def)
    then show ?thesis by (simp add: filter_id_conv)
  qed
  let ?table = "map word_of_int (fs_entry st) :: u16 list"
  have u: "unat (word_of_int e :: u16) = nat e" if "e \<in> set (fs_entry st)" for e
  proof -
    have "0 \<le> e" "e < 2 ^ 16" using that full inv(2) n16 by force+
    then show ?thesis by (simp add: unsigned_of_int take_bit_int_eq_self nat_take_bit_eq take_bit_nat_eq_self)
  qed
  have slots: "slots_of ?table i = held st i" for i
    unfolding slots_of_def held_def tally_map
    by (rule tally_cong) (use u full in auto)
  have "maglev_build entries m = Some ?table"
    using st(1) ne nz m2 by (simp add: maglev_build_def)
  moreover have "\<forall>e \<in> set ?table. unat e < ?n" using u full inv(2) by (auto simp: nat_less_iff)
  moreover have "(\<Sum>i < ?n. slots_of ?table i) = m"
    using sum_tally [of "fs_entry st" ?n] inv(2,3) by (simp add: slots held_def)
  moreover have "\<forall>i < ?n. slots_of ?table i \<in>
      {turns (weight_at entries i) (max_weight entries) (R - 1), turns (weight_at entries i) (max_weight entries) R}"
    using st(4) pe by (auto simp: slots round_inv_def)
  ultimately show ?thesis using st(2,3) inv(1) by (intro exI [of _ ?table] exI [of _ R]) simp
qed

text \<open>A five-slot table over two backends, for the witnesses.\<close>

definition two_backends :: "(bytes \<times> u32) list" where
  "two_backends = [([0x61], 2), ([0x62], 1)]"

lemma two_backends_ok: "maglev_ok two_backends 5"
proof -
  have "d = 1 \<or> d = 5" if "d dvd 5" for d :: nat
  proof -
    have "d \<in> {0, 1, 2, 3, 4, 5}" using dvd_imp_le [OF that] by auto
    with that show ?thesis by auto
  qed
  then have "prime_nat 5" by (simp add: prime_nat_def)
  then show ?thesis by (simp add: maglev_ok_def two_backends_def)
qed

text \<open>
  Building the table terminates and fills it.  For a prime table size below 2^32 and
  fewer than 2^16 backends, not all of weight zero, the probe and fill loops return; the table has
  exactly \<open>m\<close> entries, every entry is the index of a backend, and so every lookup gives a backend.
\<close>

theorem maglev_build_total:
  assumes "maglev_ok entries m"
  shows "\<exists>table. maglev_build entries m = Some table \<and> length table = m
           \<and> (\<forall>h. \<exists>i < length entries. maglev_lookup table h = Some i)"
proof -
  obtain table where t: "maglev_build entries m = Some table" "length table = m"
      "\<forall>e \<in> set table. unat e < length entries"
    using maglev_core [OF assms] by blast
  have "0 < m" using assms by (simp add: maglev_ok_def prime_nat_def)
  with t show ?thesis by (auto simp: maglev_lookup_def Let_def)
qed

theorem maglev_build_total_witness:
  "\<exists>table. maglev_build two_backends 5 = Some table \<and> length table = 5
     \<and> (\<forall>h. \<exists>i < length two_backends. maglev_lookup table h = Some i)"
  by (rule maglev_build_total [OF two_backends_ok])

text \<open>
  Weighted balance.  There is a number of rounds \<open>R\<close> such that every backend of weight \<open>w\<close>
  holds the slots of \<open>R\<close> or of \<open>R - 1\<close> rounds, i.e. \<open>(R - 1) * w div W + 1\<close> or \<open>(R - 2) * w div W + 1\<close>
  entries, where \<open>W\<close> is the largest weight; no other share is possible and none is lost.
\<close>

theorem maglev_weighted_share:
  assumes "maglev_ok entries m"
  shows "\<exists>table R. maglev_build entries m = Some table \<and> 0 < R
           \<and> (\<Sum>i < length entries. slots_of table i) = m
           \<and> (\<forall>i < length entries. slots_of table i \<in>
                {turns (weight_at entries i) (max_weight entries) (R - 1),
                 turns (weight_at entries i) (max_weight entries) R})"
  using maglev_core [OF assms] by blast

theorem maglev_weighted_share_witness:
  "\<exists>table R. maglev_build two_backends 5 = Some table \<and> 0 < R
     \<and> (\<Sum>i < length two_backends. slots_of table i) = 5
     \<and> (\<forall>i < length two_backends. slots_of table i \<in>
          {turns (weight_at two_backends i) (max_weight two_backends) (R - 1),
           turns (weight_at two_backends i) (max_weight two_backends) R})"
  by (rule maglev_weighted_share [OF two_backends_ok])

text \<open>
  With at least as many slots as backends no backend of positive weight is left out: each
  holds at least one slot.
\<close>

theorem maglev_every_backend_present:
  assumes "maglev_ok entries m" and "length entries \<le> m" and "i < length entries"
    and "snd (entries ! i) \<noteq> 0"
  shows "\<exists>table. maglev_build entries m = Some table \<and> 0 < slots_of table i"
proof -
  obtain table R where t: "maglev_build entries m = Some table" "0 < R"
      "(\<Sum>k < length entries. slots_of table k) = m"
      "\<forall>k < length entries. slots_of table k \<in> {turns (weight_at entries k) (max_weight entries) (R - 1),
         turns (weight_at entries k) (max_weight entries) R}"
    using maglev_core [OF assms(1)] by blast
  have w: "0 < weight_at entries i" using assms(4) by (simp add: weight_at_def unat_gt_0)
  have "0 < slots_of table i"
  proof (cases "R = 1")
    case False
    then have "0 < turns (weight_at entries i) (max_weight entries) (R - 1)"
        "0 < turns (weight_at entries i) (max_weight entries) R"
      using w t(2) by (auto simp: turns_def)
    with t(4) assms(3) show ?thesis by auto
  next
    case True
    have "slots_of table k \<le> 1" if "k < length entries" for k
      using t(4) that True by (auto simp: turns_def)
    moreover have "(\<Sum>k < length entries. slots_of table k) < length entries"
      if "slots_of table i = 0" "\<And>k. k < length entries \<Longrightarrow> slots_of table k \<le> 1"
    proof -
      have "(\<Sum>k < length entries. slots_of table k) < (\<Sum>k < length entries. 1)"
        by (rule sum_strict_mono_ex1) (use that assms(3) in auto)
      then show ?thesis by simp
    qed
    ultimately show ?thesis using t(3) assms(2) by (metis gr0I not_less)
  qed
  with t(1) show ?thesis by blast
qed

theorem maglev_every_backend_present_witness:
  "\<exists>table. maglev_build two_backends 5 = Some table \<and> 0 < slots_of table 1"
  by (rule maglev_every_backend_present [OF two_backends_ok]) (simp_all add: two_backends_def)

text \<open>
  With fewer slots than backends, which the manifest validation excludes but a DNS re-resolution
  that expands the endpoint set does not, some backend holds no slot at all.
\<close>

theorem maglev_short_table_starves:
  assumes "maglev_ok entries m" and "m < length entries"
  shows "\<exists>table. maglev_build entries m = Some table \<and> (\<exists>i < length entries. slots_of table i = 0)"
proof -
  obtain table where t: "maglev_build entries m = Some table" "(\<Sum>k < length entries. slots_of table k) = m"
    using maglev_core [OF assms(1)] by blast
  have "\<exists>i < length entries. slots_of table i = 0"
  proof (rule ccontr)
    assume "\<not> (\<exists>i < length entries. slots_of table i = 0)"
    then have "\<And>i. i \<in> {..<length entries} \<Longrightarrow> 1 \<le> slots_of table i" by (auto simp: Suc_le_eq)
    from sum_bounded_below [of "{..<length entries}" 1 "slots_of table", OF this] have "length entries \<le> (\<Sum>k < length entries. slots_of table k)" by simp
    with t(2) assms(2) show False by simp
  qed
  with t(1) show ?thesis by blast
qed

theorem maglev_short_table_starves_witness:
  "\<exists>table. maglev_build (two_backends @ two_backends @ two_backends) 5 = Some table
     \<and> (\<exists>i < length (two_backends @ two_backends @ two_backends). slots_of table i = 0)"
  using two_backends_ok by (intro maglev_short_table_starves) (auto simp: maglev_ok_def two_backends_def)

lemma slots_balanced:
  fixes c :: "nat \<Rightarrow> nat"
  assumes "(\<Sum>k < n. c k) = m" and "\<And>k. k < n \<Longrightarrow> R - 1 \<le> c k \<and> c k \<le> R" and "0 < R" and "i < n"
  shows "m div n \<le> c i" and "c i \<le> (m + n - 1) div n"
proof -
  have split: "(\<Sum>k < n. c k) = c i + (\<Sum>k \<in> {..<n} - {i}. c k)"
    using assms(4) by (simp add: sum.remove)
  have card: "card ({..<n} - {i}) = n - 1" using assms(4) by simp
  have "(\<Sum>k \<in> {..<n} - {i}. c k) \<le> (n - 1) * R" and "(n - 1) * (R - 1) \<le> (\<Sum>k \<in> {..<n} - {i}. c k)"
    using sum_bounded_above [of "{..<n} - {i}" c R] sum_bounded_below [of "{..<n} - {i}" "R - 1" c] assms(2) card
    by auto
  then have up: "m \<le> c i + (n - 1) * R" and lo: "c i + (n - 1) * (R - 1) \<le> m"
    using split assms(1) by linarith+
  obtain n' R' where n: "n = Suc n'" "R = Suc R'" using assms(3,4) by (metis gr0_implies_Suc less_zeroE not0_implies_Suc)
  have "c i = R \<or> c i = R'" using assms(2) [OF assms(4)] n by auto
  then have "m < Suc (c i) * n" and "c i * n \<le> m + n - 1"
    using up lo n by (auto simp: algebra_simps)
  moreover have "c i * n div n = c i" using assms(4) by simp
  ultimately show "m div n \<le> c i" and "c i \<le> (m + n - 1) div n"
    using less_mult_imp_div_less [of m "Suc (c i)" n] div_le_mono [of "c i * n" "m + n - 1" n] by linarith+
qed

text \<open>
  Near-perfect balance of equal weights: when all backends have the same positive weight, each
  holds between \<open>m div n\<close> and \<open>ceil (m / n)\<close> slots.
\<close>

theorem maglev_equal_weights_balanced:
  assumes "maglev_ok entries m" and "\<forall>e \<in> set entries. snd e = w" and "i < length entries"
  shows "\<exists>table. maglev_build entries m = Some table \<and> m div length entries \<le> slots_of table i
           \<and> slots_of table i \<le> (m + length entries - 1) div length entries"
proof -
  obtain table R where t: "maglev_build entries m = Some table" "0 < R"
      "(\<Sum>k < length entries. slots_of table k) = m"
      "\<forall>k < length entries. slots_of table k \<in> {turns (weight_at entries k) (max_weight entries) (R - 1),
         turns (weight_at entries k) (max_weight entries) R}"
    using maglev_core [OF assms(1)] by blast
  have w: "0 < unat w" using assms(1,2) by (auto simp: maglev_ok_def unat_gt_0)
  have "set (map (\<lambda>(_, w). unat w) entries) = {unat w}"
    using assms(2) nth_mem [OF assms(3)] by (force simp: case_prod_beta image_iff simp del: nth_mem)
  moreover have "entries \<noteq> []" using assms(3) by auto
  ultimately have "max_weight entries = unat w"
    using w by (simp add: max_weight_def make_env_def Let_def del: set_map)
  moreover have "weight_at entries k = unat w" if "k < length entries" for k
    using assms(2) that by (simp add: weight_at_def)
  ultimately have "R - 1 \<le> slots_of table k \<and> slots_of table k \<le> R" if "k < length entries" for k
    using t(4) that turns_max [OF w] by auto
  from slots_balanced [OF t(3) this t(2) assms(3)] t(1) show ?thesis by blast
qed

theorem maglev_equal_weights_balanced_witness:
  "\<exists>table. maglev_build [([0x61], 7), ([0x62], 7)] 5 = Some table \<and> 5 div 2 \<le> slots_of table 0
     \<and> slots_of table 0 \<le> (5 + 2 - 1) div 2"
proof -
  have "maglev_ok [([0x61], 7), ([0x62], 7)] 5"
    using two_backends_ok by (auto simp: maglev_ok_def)
  then show ?thesis
    using maglev_equal_weights_balanced [of "[([0x61], 7), ([0x62], 7)]" 5 7 0] by (simp add: numeral_2_eq_2)
qed

end
