(* ===== verification/Upstream_Manifest.thy ===== *)
theory Upstream_Manifest
  imports Plecto_Strings Maglev
begin

text \<open>
  The \<open>[[upstream]]\<close> section of the manifest (\<open>control/src/manifest/upstream.rs\<close>) as records, with the
  source's defaults, and its build-time validation (\<open>control/src/manifest/validate.rs\<close>).  What the
  validation promises to the load balancer -- a prime, large enough Maglev table and positive bounded
  weights -- is proved of every upstream it accepts.
\<close>

datatype lb_algorithm = RoundRobin | LeastRequest | MaglevHash

record weighted_address =
  wa_address :: string
  wa_weight :: u32

datatype address_spec = Bare string | WeightedSpec weighted_address

definition default_instance_weight :: u32 where
  "default_instance_weight = 1"

definition MAX_INSTANCE_WEIGHT :: u32 where
  "MAX_INSTANCE_WEIGHT = 1000"

definition MAX_HASH_TABLE_SIZE :: u32 where
  "MAX_HASH_TABLE_SIZE = 5000011"

definition default_hash_table_size :: u32 where
  "default_hash_table_size = 65537"

definition spec_address :: "address_spec \<Rightarrow> string" where
  "spec_address spec = (case spec of Bare a \<Rightarrow> a | WeightedSpec w \<Rightarrow> wa_address w)"

definition spec_weight :: "address_spec \<Rightarrow> u32" where
  "spec_weight spec = (case spec of Bare _ \<Rightarrow> default_instance_weight | WeightedSpec w \<Rightarrow> wa_weight w)"

text \<open>The serialised form: a default weight is canonicalised to the bare string.\<close>

datatype address_toml = TomlString string | TomlTable weighted_address

definition serialize_address :: "address_spec \<Rightarrow> address_toml" where
  "serialize_address spec =
     (case spec of
        Bare addr \<Rightarrow> TomlString addr
      | WeightedSpec w \<Rightarrow>
          if wa_weight w = default_instance_weight then TomlString (wa_address w) else TomlTable w)"

definition deserialize_address :: "address_toml \<Rightarrow> address_spec" where
  "deserialize_address t = (case t of TomlString a \<Rightarrow> Bare a | TomlTable w \<Rightarrow> WeightedSpec w)"

datatype hash_key_kind = KeyHeader | KeySourceIp

record hash_config =
  hc_key :: hash_key_kind
  hc_header :: "string option"
  hc_table_size :: u32

record upstream_tls =
  ut_ca_path :: "string option"
  ut_sni :: "string option"
  ut_client_cert_path :: "string option"
  ut_client_key_path :: "string option"

record outlier_detection =
  consecutive_gateway_failures :: u32
  base_ejection_time_ms :: u64
  max_ejection_percent :: u32

definition outlier_default :: outlier_detection where
  "outlier_default =
     \<lparr>consecutive_gateway_failures = 0, base_ejection_time_ms = 30000, max_ejection_percent = 10\<rparr>"

record health_config =
  hl_path :: string
  hl_interval_ms :: u64
  hl_timeout_ms :: u64
  hl_healthy_threshold :: u32
  hl_unhealthy_threshold :: u32
  hl_port :: "u16 option"

record upstream =
  up_name :: string
  up_addresses :: "address_spec list"
  up_tls :: "upstream_tls option"
  up_lb_algorithm :: lb_algorithm
  up_hash :: "hash_config option"
  up_health :: health_config
  up_resolve_interval_ms :: u64
  up_request_timeout_ms :: u64
  up_max_retries :: u64
  up_overall_timeout_ms :: u64
  up_max_requests :: u32
  up_outlier :: outlier_detection

datatype lb_error =
    ZeroInterval
  | ZeroTimeout
  | ZeroWeight string
  | WeightOverMax string u32
  | MaglevWithoutHash
  | HashWithoutMaglev
  | EmptyHashHeader
  | TableTooLarge u32
  | TableNotPrime u32
  | TableTooSmall u32 nat
  | TooManyInstances nat

fun validate_weights :: "address_spec list \<Rightarrow> (lb_error, unit) result" where
  "validate_weights [] = Inr ()"
| "validate_weights (spec # specs) =
     (let w = spec_weight spec
      in if w = 0 then Inl (ZeroWeight (spec_address spec))
         else if w > MAX_INSTANCE_WEIGHT then Inl (WeightOverMax (spec_address spec) w)
         else validate_weights specs)"

definition validate_hash :: "upstream \<Rightarrow> hash_config \<Rightarrow> (lb_error, unit) result" where
  "validate_hash up h =
     (if hc_key h = KeyHeader \<and> trim (case hc_header h of None \<Rightarrow> '''' | Some s \<Rightarrow> s) = ''''
      then Inl EmptyHashHeader
      else let m = hc_table_size h; n = length (up_addresses up)
           in if m > MAX_HASH_TABLE_SIZE then Inl (TableTooLarge m)
              else if \<not> is_prime m then Inl (TableNotPrime m)
              else if n > unat m then Inl (TableTooSmall m n)
              else if n > 2 ^ 16 - 1 then Inl (TooManyInstances n)
              else Inr ())"

definition validate_lb :: "upstream \<Rightarrow> (lb_error, unit) result" where
  "validate_lb up =
     (if hl_interval_ms (up_health up) = 0 then Inl ZeroInterval
      else if hl_timeout_ms (up_health up) = 0 then Inl ZeroTimeout
      else case validate_weights (up_addresses up) of
             Inl e \<Rightarrow> Inl e
           | Inr _ \<Rightarrow>
               (case (up_lb_algorithm up, up_hash up) of
                  (MaglevHash, None) \<Rightarrow> Inl MaglevWithoutHash
                | (algo, Some h) \<Rightarrow>
                    if algo \<noteq> MaglevHash then Inl HashWithoutMaglev else validate_hash up h
                | _ \<Rightarrow> Inr ()))"

definition configured_addresses :: "upstream \<Rightarrow> (string \<times> u32) list" where
  "configured_addresses up = map (\<lambda>spec. (spec_address spec, spec_weight spec)) (up_addresses up)"

definition maglev_table_size :: "upstream \<Rightarrow> nat" where
  "maglev_table_size up = unat (case up_hash up of None \<Rightarrow> 65537 | Some h \<Rightarrow> hc_table_size h)"

definition address_bytes :: "string \<Rightarrow> bytes" where
  "address_bytes a = map of_char a"

subsection \<open>Properties\<close>

text \<open>
  Canonical serialisation loses nothing the proxy uses: reading back a serialised address gives
  the same address and weight, and serialising is idempotent, so an explicit \<open>weight = 1\<close> does not
  change the content hash.
\<close>

theorem address_round_trip:
  "spec_address (deserialize_address (serialize_address spec)) = spec_address spec
   \<and> spec_weight (deserialize_address (serialize_address spec)) = spec_weight spec
   \<and> serialize_address (deserialize_address (serialize_address spec)) = serialize_address spec"
  by (simp add: serialize_address_def deserialize_address_def spec_address_def spec_weight_def
      split: address_spec.splits)

lemma validate_weights_Inr:
  "validate_weights specs = Inr u \<Longrightarrow> spec \<in> set specs \<Longrightarrow> spec_weight spec \<noteq> 0 \<and> spec_weight spec \<le> MAX_INSTANCE_WEIGHT"
  by (induction specs) (auto simp: Let_def split: if_splits)

lemma validate_weights_of:
  assumes "validate_lb up = Inr u"
  shows "\<forall>(a, w) \<in> set (configured_addresses up). 1 \<le> w \<and> w \<le> MAX_INSTANCE_WEIGHT"
proof -
  have "spec_weight spec \<noteq> 0 \<and> spec_weight spec \<le> MAX_INSTANCE_WEIGHT" if "spec \<in> set (up_addresses up)" for spec
    using assms that validate_weights_Inr by (fastforce simp: validate_lb_def split: if_splits sum.splits)
  then show ?thesis
    by (auto simp: configured_addresses_def word_le_nat_alt Suc_le_eq unat_gt_0)
qed

lemma validate_lb_maglev:
  assumes "validate_lb up = Inr u" and "up_lb_algorithm up = MaglevHash" and "up_addresses up \<noteq> []"
  shows "maglev_ok (map (\<lambda>(a, w). (address_bytes a, w)) (configured_addresses up)) (maglev_table_size up)"
    and "length (up_addresses up) \<le> maglev_table_size up"
proof -
  obtain h where h: "up_hash up = Some h" "validate_hash up h = Inr u"
    using assms(1,2) by (auto simp: validate_lb_def split: if_splits sum.splits option.splits lb_algorithm.splits)
  then have m: "is_prime (hc_table_size h)" "length (up_addresses up) \<le> unat (hc_table_size h)"
      "length (up_addresses up) < 2 ^ 16"
    by (auto simp: validate_hash_def Let_def split: if_splits)
  then show "length (up_addresses up) \<le> maglev_table_size up" using h(1) by (simp add: maglev_table_size_def)
  obtain spec where spec: "spec \<in> set (up_addresses up)" using assms(3) by (cases "up_addresses up") auto
  then have "spec_weight spec \<noteq> 0"
    using validate_weights_of [OF assms(1)] by (auto simp: configured_addresses_def)
  with spec m h(1) show "maglev_ok (map (\<lambda>(a, w). (address_bytes a, w)) (configured_addresses up)) (maglev_table_size up)"
    by (auto simp: maglev_ok_def maglev_table_size_def configured_addresses_def is_prime_iff unat_bounds
        intro!: bexI [of _ spec])
qed

text \<open>
  Validation guarantees the preconditions of the Maglev table.  An accepted upstream has
  weights between 1 and the maximum; if it is balanced by Maglev and has an address, its table size
  is a prime below 2^32 with room for every instance, which is all that building the table needs.
\<close>

theorem validate_lb_sound:
  assumes "validate_lb up = Inr u"
  shows "(\<forall>(a, w) \<in> set (configured_addresses up). 1 \<le> w \<and> w \<le> MAX_INSTANCE_WEIGHT)
    \<and> (up_lb_algorithm up = MaglevHash \<and> up_addresses up \<noteq> [] \<longrightarrow>
         maglev_ok (map (\<lambda>(a, w). (address_bytes a, w)) (configured_addresses up)) (maglev_table_size up)
         \<and> length (up_addresses up) \<le> maglev_table_size up)"
  using validate_weights_of [OF assms] validate_lb_maglev [OF assms] by auto

definition sample_upstream :: upstream where
  "sample_upstream =
     \<lparr>up_name = ''api'', up_addresses = [Bare ''a:1'', WeightedSpec \<lparr>wa_address = ''b:1'', wa_weight = 3\<rparr>],
      up_tls = None, up_lb_algorithm = MaglevHash,
      up_hash = Some \<lparr>hc_key = KeySourceIp, hc_header = None, hc_table_size = 7\<rparr>,
      up_health = \<lparr>hl_path = ''/up'', hl_interval_ms = 2000, hl_timeout_ms = 1000, hl_healthy_threshold = 2,
        hl_unhealthy_threshold = 3, hl_port = None\<rparr>,
      up_resolve_interval_ms = 0, up_request_timeout_ms = 30000, up_max_retries = 1, up_overall_timeout_ms = 0,
      up_max_requests = 64, up_outlier = outlier_default\<rparr>"

lemma sample_upstream_valid: "validate_lb sample_upstream = Inr ()"
  by (simp add: validate_lb_def sample_upstream_def spec_weight_def default_instance_weight_def MAX_INSTANCE_WEIGHT_def
      validate_hash_def MAX_HASH_TABLE_SIZE_def is_prime_def prime_loop.simps Let_def)

theorem validate_lb_sound_witness:
  "maglev_ok (map (\<lambda>(a, w). (address_bytes a, w)) (configured_addresses sample_upstream)) (maglev_table_size sample_upstream)
   \<and> length (up_addresses sample_upstream) \<le> maglev_table_size sample_upstream"
  using validate_lb_sound [OF sample_upstream_valid] by (simp add: sample_upstream_def)

end
