(* ===== verification/Upstream_Instance.thy ===== *)
theory Upstream_Instance
  imports Upstream_Manifest
begin

text \<open>
  One backend instance and its health state machine (\<open>control/src/upstream/instance.rs\<close>).  The
  transitions run under the instance's mutex, so each is one function of the record; a poisoned
  mutex, after which a transition is a no-op, arises only from a panic and is not modelled.
\<close>

record health_counters =
  consecutive_ok :: u32
  consecutive_fail :: u32
  ever_healthy :: bool
  consecutive_gw_fail :: u32
  outlier_eject_count :: u32

record backend_instance =
  i_address :: string
  i_weight :: u32
  i_healthy :: bool
  i_in_flight :: usize
  i_counters :: health_counters
  i_healthy_threshold :: u32
  i_unhealthy_threshold :: u32
  i_outlier_ejected_until_ms :: u64

definition instance_new :: "string \<Rightarrow> u32 \<Rightarrow> health_config \<Rightarrow> backend_instance" where
  "instance_new address w health =
     \<lparr>i_address = address, i_weight = max w 1, i_healthy = False, i_in_flight = 0,
      i_counters = \<lparr>consecutive_ok = 0, consecutive_fail = 0, ever_healthy = False,
        consecutive_gw_fail = 0, outlier_eject_count = 0\<rparr>,
      i_healthy_threshold = max (hl_healthy_threshold health) 1,
      i_unhealthy_threshold = max (hl_unhealthy_threshold health) 1,
      i_outlier_ejected_until_ms = 0\<rparr>"

definition is_healthy :: "backend_instance \<Rightarrow> bool" where
  "is_healthy i = i_healthy i"

definition is_outlier_ejected :: "backend_instance \<Rightarrow> u64 \<Rightarrow> bool" where
  "is_outlier_ejected i now_ms \<longleftrightarrow> i_outlier_ejected_until_ms i > now_ms"

definition record_probe_success :: "backend_instance \<Rightarrow> backend_instance" where
  "record_probe_success i =
     (let c = (i_counters i)\<lparr>consecutive_fail := 0\<rparr>
      in if i_healthy i then i\<lparr>i_counters := c\<rparr>
         else let c = c\<lparr>consecutive_ok := sat_add (consecutive_ok c) 1\<rparr>;
                  need = (if ever_healthy c then i_healthy_threshold i else 1)
              in if consecutive_ok c \<ge> need
                 then i\<lparr>i_counters := c\<lparr>ever_healthy := True, consecutive_ok := 0\<rparr>, i_healthy := True\<rparr>
                 else i\<lparr>i_counters := c\<rparr>)"

definition record_failure :: "backend_instance \<Rightarrow> backend_instance" where
  "record_failure i =
     (let c = (i_counters i)\<lparr>consecutive_ok := 0,
                consecutive_fail := sat_add (consecutive_fail (i_counters i)) 1\<rparr>
      in if i_healthy i \<and> consecutive_fail c \<ge> i_unhealthy_threshold i
         then i\<lparr>i_counters := c\<lparr>consecutive_fail := 0\<rparr>, i_healthy := False\<rparr>
         else i\<lparr>i_counters := c\<rparr>)"

definition record_probe_failure :: "backend_instance \<Rightarrow> backend_instance" where
  "record_probe_failure i = record_failure i"

definition record_passive_failure :: "backend_instance \<Rightarrow> backend_instance" where
  "record_passive_failure i = record_failure i"

datatype health_event = ProbeSuccess | ProbeFailure | PassiveFailure

definition health_step :: "health_event \<Rightarrow> backend_instance \<Rightarrow> backend_instance" where
  "health_step e i =
     (case e of
        ProbeSuccess \<Rightarrow> record_probe_success i
      | ProbeFailure \<Rightarrow> record_probe_failure i
      | PassiveFailure \<Rightarrow> record_passive_failure i)"

definition health_run :: "health_event list \<Rightarrow> backend_instance \<Rightarrow> backend_instance" where
  "health_run es i = fold health_step es i"

subsection \<open>The promise of the state machine\<close>

text \<open>
  The specification forgets the counters: it keeps the rotation bit, whether the instance has ever
  been healthy, and the length of the current streak against the bit -- successes while it
  is out of rotation, failures while it is in.  The bit flips when the streak reaches its threshold.
\<close>

record health_spec =
  hs_healthy :: bool
  hs_ever :: bool
  hs_streak :: nat

definition spec_step :: "nat \<Rightarrow> nat \<Rightarrow> health_event \<Rightarrow> health_spec \<Rightarrow> health_spec" where
  "spec_step up_at down_at e h =
     (let against = ((e = ProbeSuccess) \<noteq> hs_healthy h);
          need = (if hs_healthy h then down_at else if hs_ever h then up_at else 1)
      in if \<not> against then h\<lparr>hs_streak := 0\<rparr>
         else if Suc (hs_streak h) \<ge> need
         then h\<lparr>hs_healthy := \<not> hs_healthy h, hs_ever := True, hs_streak := 0\<rparr>
         else h\<lparr>hs_streak := Suc (hs_streak h)\<rparr>)"

definition abs_health :: "backend_instance \<Rightarrow> health_spec" where
  "abs_health i =
     \<lparr>hs_healthy = i_healthy i, hs_ever = ever_healthy (i_counters i),
      hs_streak = (if i_healthy i then unat (consecutive_fail (i_counters i)) else unat (consecutive_ok (i_counters i)))\<rparr>"

text \<open>
  The invariant behind the refinement: thresholds are positive, an instance in rotation has no
  success count and a failure streak below its threshold, an instance out of rotation a success
  streak below its threshold.
\<close>

definition inst_inv :: "backend_instance \<Rightarrow> bool" where
  "inst_inv i \<longleftrightarrow> 0 < unat (i_healthy_threshold i) \<and> 0 < unat (i_unhealthy_threshold i)
     \<and> (i_healthy i \<longrightarrow> ever_healthy (i_counters i) \<and> consecutive_ok (i_counters i) = 0
          \<and> consecutive_fail (i_counters i) < i_unhealthy_threshold i)
     \<and> (\<not> i_healthy i \<longrightarrow> consecutive_ok (i_counters i) < (if ever_healthy (i_counters i) then i_healthy_threshold i else 1))"

lemma sat_succ_lt:
  fixes a b :: u32
  assumes "a < b"
  shows "unat (sat_add a 1) = Suc (unat a)"
  using assms less_le_trans [of "unat a" "unat b" "2 ^ 32 - 1"] unat_le_max [of b]
  by (simp add: unat_sat_add word_less_nat_alt)

lemma inst_inv_new: "inst_inv (instance_new a w h)"
  by (simp add: inst_inv_def instance_new_def unat_max less_max_iff_disj)

lemma health_step_success:
  assumes "inst_inv i"
  shows "inst_inv (record_probe_success i)"
    and "abs_health (record_probe_success i)
           = spec_step (unat (i_healthy_threshold i)) (unat (i_unhealthy_threshold i)) ProbeSuccess (abs_health i)"
  using assms sat_succ_lt [of "consecutive_ok (i_counters i)" "if ever_healthy (i_counters i) then i_healthy_threshold i else 1"]
  by (cases "i_healthy i"; cases "ever_healthy (i_counters i)";
      auto simp: record_probe_success_def inst_inv_def abs_health_def spec_step_def Let_def word_le_nat_alt word_less_nat_alt)+

lemma health_step_failure:
  assumes "inst_inv i" and "e \<noteq> ProbeSuccess"
  shows "inst_inv (record_failure i)"
    and "abs_health (record_failure i)
           = spec_step (unat (i_healthy_threshold i)) (unat (i_unhealthy_threshold i)) e (abs_health i)"
  using assms sat_succ_lt [of "consecutive_fail (i_counters i)" "i_unhealthy_threshold i"]
  by (cases "i_healthy i"; auto simp: record_failure_def inst_inv_def abs_health_def spec_step_def Let_def
      word_le_nat_alt word_less_nat_alt)+

lemma thresholds_kept [simp]:
  "i_healthy_threshold (health_step e i) = i_healthy_threshold i"
  "i_unhealthy_threshold (health_step e i) = i_unhealthy_threshold i"
  by (simp_all add: health_step_def record_probe_success_def record_probe_failure_def record_passive_failure_def
      record_failure_def Let_def split: health_event.splits)

lemma health_step_refines:
  assumes "inst_inv i"
  shows "inst_inv (health_step e i) \<and> abs_health (health_step e i)
           = spec_step (unat (i_healthy_threshold i)) (unat (i_unhealthy_threshold i)) e (abs_health i)"
  using health_step_success [OF assms] health_step_failure [OF assms, of e]
  by (cases e) (simp_all add: health_step_def record_probe_failure_def record_passive_failure_def)

text \<open>
  C38: The health state machine refines its specification.  For every sequence of probe results and
  passive failures, starting from a fresh instance, the rotation bit is the one of the two-threshold
  machine: out of rotation until a first success, then in until \<open>unhealthy_threshold\<close> failures in a
  row, then out until \<open>healthy_threshold\<close> successes in a row, with no effect of counter saturation.
\<close>

theorem health_refines_spec:
  fixes health :: health_config
  defines "up_at \<equiv> max (unat (hl_healthy_threshold health)) 1"
    and "down_at \<equiv> max (unat (hl_unhealthy_threshold health)) 1"
  shows "abs_health (health_run es (instance_new a w health)) =
           fold (spec_step up_at down_at) es \<lparr>hs_healthy = False, hs_ever = False, hs_streak = 0\<rparr>"
proof -
  have gen: "abs_health (fold health_step es i) =
      fold (spec_step (unat (i_healthy_threshold i)) (unat (i_unhealthy_threshold i))) es (abs_health i)"
    if "inst_inv i" for i
    using that
  proof (induction es arbitrary: i)
    case (Cons e es)
    then show ?case using health_step_refines [OF Cons.prems, of e] by simp
  qed simp
  show ?thesis
    using gen [OF inst_inv_new, of a w health]
    by (simp add: health_run_def abs_health_def instance_new_def up_at_def down_at_def unat_max)
qed

lemma record_failure_keeps_down: "i_healthy (record_failure i) \<Longrightarrow> i_healthy i"
  by (auto simp: record_failure_def Let_def split: if_splits)

lemma record_failure_healthy:
  assumes "i_healthy i" and "consecutive_fail (i_counters i) < i_unhealthy_threshold i"
  shows "i_healthy (record_failure i) \<longleftrightarrow> Suc (unat (consecutive_fail (i_counters i))) < unat (i_unhealthy_threshold i)"
    and "i_healthy (record_failure i) \<Longrightarrow>
           unat (consecutive_fail (i_counters (record_failure i))) = Suc (unat (consecutive_fail (i_counters i)))"
    and "i_unhealthy_threshold (record_failure i) = i_unhealthy_threshold i"
  using assms sat_succ_lt [OF assms(2)] by (auto simp: record_failure_def Let_def word_le_nat_alt split: if_splits)

text \<open>
  Demotion is exact.  A healthy instance with no failure on record leaves rotation with the
  \<open>unhealthy_threshold\<close>-th consecutive failure, active or passive, and not before; and no
  failure ever puts an instance back into rotation.
\<close>

theorem demotion_threshold:
  assumes "i_healthy i" and "consecutive_fail (i_counters i) = 0" and "0 < i_unhealthy_threshold i"
  shows "n \<le> unat (i_unhealthy_threshold i) \<Longrightarrow>
           i_healthy ((record_failure ^^ n) i) \<longleftrightarrow> n < unat (i_unhealthy_threshold i)"
    and "i_healthy (record_failure j) \<Longrightarrow> i_healthy j"
proof -
  let ?t = "i_unhealthy_threshold i"
  have run: "i_healthy ((record_failure ^^ n) i) \<and> unat (consecutive_fail (i_counters ((record_failure ^^ n) i))) = n
      \<and> i_unhealthy_threshold ((record_failure ^^ n) i) = ?t" if "n < unat ?t" for n
    using that
  proof (induction n)
    case (Suc n)
    then have IH: "i_healthy ((record_failure ^^ n) i)" "unat (consecutive_fail (i_counters ((record_failure ^^ n) i))) = n"
        "i_unhealthy_threshold ((record_failure ^^ n) i) = ?t"
      by auto
    then have "consecutive_fail (i_counters ((record_failure ^^ n) i)) < ?t"
      using Suc.prems by (simp add: word_less_nat_alt)
    from record_failure_healthy [OF _ this [folded IH(3)]] IH Suc.prems show ?case by simp
  qed (use assms in simp)
  show "i_healthy ((record_failure ^^ n) i) \<longleftrightarrow> n < unat ?t" if le: "n \<le> unat ?t"
  proof (cases "n = unat ?t")
    case True
    obtain m where m: "unat ?t = Suc m" using assms(3) by (metis gr0_implies_Suc unat_0 word_less_nat_alt)
    have "consecutive_fail (i_counters ((record_failure ^^ m) i)) < i_unhealthy_threshold ((record_failure ^^ m) i)"
      using run [of m] m by (simp add: word_less_nat_alt)
    from record_failure_healthy(1) [OF _ this] run [of m] m True show ?thesis by simp
  next
    case False
    with le run [of n] show ?thesis by simp
  qed
  show "i_healthy (record_failure j) \<Longrightarrow> i_healthy j" by (rule record_failure_keeps_down)
qed

theorem demotion_threshold_witness:
  "\<not> i_healthy ((record_failure ^^ 3) (record_probe_success (instance_new ''a'' 1
      \<lparr>hl_path = ''/'', hl_interval_ms = 1, hl_timeout_ms = 1, hl_healthy_threshold = 2, hl_unhealthy_threshold = 3, hl_port = None\<rparr>)))"
  using demotion_threshold(1) [of "record_probe_success (instance_new ''a'' 1
      \<lparr>hl_path = ''/'', hl_interval_ms = 1, hl_timeout_ms = 1, hl_healthy_threshold = 2, hl_unhealthy_threshold = 3, hl_port = None\<rparr>)" 3]
  by (simp add: record_probe_success_def instance_new_def Let_def sat_add_def max_def word_le_nat_alt)

end
