(* ===== verification/Split_Mix.thy ===== *)
theory Split_Mix
  imports Murmur_Hash
begin

text \<open>
  The per-worker generator of \<open>control/src/rng.rs\<close>: SplitMix64 with Lemire's bounded draw.  The
  thread-local state is passed explicitly.  The rejection loop of \<open>below\<close> is a partial
  function, \<open>None\<close> meaning that it does not return; that it always returns rests on the state walking
  through every word and on the finalizer being a permutation.
\<close>

definition GOLDEN_GAMMA :: u64 where
  "GOLDEN_GAMMA = 0x9E3779B97F4A7C15"

definition sm_mix :: "u64 \<Rightarrow> u64" where
  "sm_mix z =
     (let z = (z XOR drop_bit 30 z) * 0xBF58476D1CE4E5B9;
          z = (z XOR drop_bit 27 z) * 0x94D049BB133111EB
      in z XOR drop_bit 31 z)"

text \<open>The seed is drawn from the wall clock (\<open>nanos\<close>) and the shared counter, which is advanced.\<close>

definition sm_seed :: "u64 \<Rightarrow> u64 \<Rightarrow> u64 \<times> u64" where
  "sm_seed nanos counter = (counter + 1, sm_mix (nanos XOR counter * GOLDEN_GAMMA))"

definition next_u64 :: "u64 \<Rightarrow> u64 \<times> u64" where
  "next_u64 st = (let z = st + GOLDEN_GAMMA in (z, sm_mix z))"

definition product128 :: "u64 \<Rightarrow> u64 \<Rightarrow> u128" where
  "product128 a b = ucast a * ucast b"

partial_function (option) below_loop :: "u64 \<Rightarrow> u64 \<Rightarrow> u64 \<Rightarrow> u128 \<Rightarrow> (u64 \<times> u128) option" where
  "below_loop n threshold st m =
     (if (ucast m :: u64) < threshold
      then below_loop n threshold (fst (next_u64 st)) (product128 (snd (next_u64 st)) n)
      else Some (st, m))"

definition below :: "u32 \<Rightarrow> u64 \<Rightarrow> (u64 \<times> u32) option" where
  "below n0 st0 =
     (let n = ucast n0 :: u64;
          (st, x) = next_u64 st0;
          m = product128 x n;
          l = ucast m :: u64
      in case (if l < n then below_loop n ((- n) mod n) st m else Some (st, m)) of
           None \<Rightarrow> None
         | Some (st, m) \<Rightarrow> Some (st, ucast (drop_bit 64 m)))"

definition two_distinct_below :: "u32 \<Rightarrow> u64 \<Rightarrow> (u64 \<times> u32 \<times> u32) option" where
  "two_distinct_below n st =
     (case below n st of
        None \<Rightarrow> None
      | Some (st1, i) \<Rightarrow>
          (case below (n - 1) st1 of
             None \<Rightarrow> None
           | Some (st2, j) \<Rightarrow> Some (st2, i, if j \<ge> i then j + 1 else j)))"

subsection \<open>Products and thresholds as natural numbers\<close>

lemma unat_product128: "unat (product128 a b) = unat a * unat b"
proof -
  have "unat a * unat b < 2 ^ 64 * 2 ^ 64"
    using unat_lt_pow [of a] unat_lt_pow [of b] by (intro mult_strict_mono') simp_all
  then have "unat a * unat b < 2 ^ 128" by simp
  then show ?thesis
    by (simp add: product128_def unat_word_ariths unat_ucast_up)
qed

lemma unat_threshold:
  fixes n :: u64
  assumes "n \<noteq> 0"
  shows "unat ((- n) mod n) = 2 ^ 64 mod unat n"
proof -
  have n: "0 < unat n" "unat n \<le> 2 ^ 64"
    using assms unat_lt_pow [of n] by (auto simp: unat_gt_0)
  have "unat (- n) = 2 ^ 64 - unat n"
    using n unat_sub_if' [of 0 n] by simp
  then show ?thesis
    using n by (simp add: unat_mod_distrib le_mod_geq)
qed

subsection \<open>Every word is eventually drawn\<close>

lemma sm_mix_surj: "surj sm_mix"
proof (rule word_inj_surj, rule injI)
  fix x y assume "sm_mix x = sm_mix y"
  then have "(x XOR drop_bit 30 x) * 0xBF58476D1CE4E5B9 = (y XOR drop_bit 30 y) * 0xBF58476D1CE4E5B9"
    by (auto simp: sm_mix_def Let_def dest!: xorshift_inject
        odd_mult_inject [where c = "0x94D049BB133111EB" and d = "0x319642b2d24d8ec3"])
  then show "x = y"
    by (auto dest!: odd_mult_inject [where d = "0x96de1b173f119089"] xorshift_inject)
qed

text \<open>\<open>draw k st\<close> is the result of the \<open>k\<close>-th draw from state \<open>st\<close>, counted from zero.\<close>

definition draw :: "nat \<Rightarrow> u64 \<Rightarrow> u64" where
  "draw k st = sm_mix (st + (of_nat k + 1) * GOLDEN_GAMMA)"

lemma draw_simps: "draw 0 st = snd (next_u64 st)" "draw (Suc k) st = draw k (fst (next_u64 st))"
  by (simp_all add: draw_def next_u64_def Let_def algebra_simps)

lemma draw_reaches: "\<exists>k. draw k st = x"
proof -
  obtain z where z: "x = sm_mix z" using sm_mix_surj by (metis surjD)
  define w where "w = (z - st) * 0xf1de83e19937733d - 1"
  have "(w + 1) * GOLDEN_GAMMA = (z - st) * (0xf1de83e19937733d * GOLDEN_GAMMA)"
    by (simp only: w_def mult.assoc diff_add_cancel)
  also have "0xf1de83e19937733d * GOLDEN_GAMMA = 1"
    by (simp add: GOLDEN_GAMMA_def)
  finally have "draw (unat w) st = x"
    by (simp add: draw_def z)
  then show ?thesis by blast
qed

lemma below_loop_returns:
  assumes "threshold \<le> (ucast (product128 (draw k st) n) :: u64)"
  shows "\<exists>st' x. below_loop n threshold st (product128 y n) = Some (st', product128 x n)
           \<and> threshold \<le> (ucast (product128 x n) :: u64)"
  using assms
proof (induction k arbitrary: st y)
  case 0
  then show ?case
    by (cases "(ucast (product128 y n) :: u64) < threshold")
      (auto simp: draw_simps below_loop.simps [of n threshold st]
        below_loop.simps [of n threshold "fst (next_u64 st)"] not_less)
next
  case (Suc k)
  then show ?case
    by (cases "(ucast (product128 y n) :: u64) < threshold")
      (auto simp: draw_simps below_loop.simps [of n threshold st] not_less)
qed

text \<open>The draw \<open>- 1\<close> is never rejected, so some draw is accepted.\<close>

lemma acceptable_draw:
  fixes n :: u64
  assumes "0 < n" and "unat n < 2 ^ 32"
  shows "(- n) mod n \<le> (ucast (product128 (- 1) n) :: u64)"
proof -
  have n: "0 < unat n" using assms(1) by (simp add: unat_gt_0 word_neq_0_conv)
  have "(2 ^ 64 - 1) * unat n = (unat n - 1) * 2 ^ 64 + (2 ^ 64 - unat n)"
    using n assms(2) by (simp add: algebra_simps)
  then have "(2 ^ 64 - 1) * unat n mod 2 ^ 64 = (2 ^ 64 - unat n) mod 2 ^ 64"
    by (metis mod_mult_self3)
  then have "unat (ucast (product128 (- 1) n) :: u64) = 2 ^ 64 - unat n"
    using n by (simp add: unat_ucast_mod unat_product128 unat_max_word)
  moreover have "2 ^ 64 mod unat n \<le> 2 ^ 64 - unat n"
  proof -
    have "2 * unat n \<le> (2 ^ 64 :: nat)" using assms(2) by simp
    with mod_less_divisor [OF n, of "2 ^ 64"] show ?thesis by linarith
  qed
  ultimately show ?thesis
    using assms by (simp add: word_le_nat_alt unat_threshold word_neq_0_conv)
qed

text \<open>Both exits of the draw accept by the same test, because the threshold is below the bound.\<close>

lemma widen_32_64: "unat (ucast (n :: u32) :: u64) = unat n"
  by (simp add: unat_ucast_up)

lemma widen_nonzero: "n \<noteq> 0 \<Longrightarrow> (ucast (n :: u32) :: u64) \<noteq> 0"
  using widen_32_64 [of n] by (metis unat_0 unat_eq_zero)

lemma below_unfold:
  fixes n :: u32
  assumes "n \<noteq> 0"
  shows "below n st = map_option (\<lambda>(st, m). (st, ucast (drop_bit 64 m)))
    (below_loop (ucast n) ((- ucast n) mod ucast n) (fst (next_u64 st)) (product128 (snd (next_u64 st)) (ucast n)))"
proof -
  let ?n = "ucast n :: u64"
  have "unat ((- ?n) mod ?n) < unat ?n"
    using unat_threshold [OF widen_nonzero [OF assms]] widen_nonzero [OF assms]
    by (metis mod_less_divisor unat_gt_0)
  then have "(- ?n) mod ?n < ?n" by (rule word_less_nat_alt [THEN iffD2])
  then show ?thesis
    by (auto simp: below_def Let_def case_prod_beta below_loop.simps [of ?n "(- ?n) mod ?n" "fst (next_u64 st)"]
        split: option.splits)
qed

lemma below_accepts:
  assumes "n \<noteq> 0"
  shows "\<exists>st' x. below n st = Some (st', ucast (drop_bit 64 (product128 x (ucast n))))
           \<and> 2 ^ 64 mod unat n \<le> unat x * unat n mod 2 ^ 64"
proof -
  let ?n = "ucast n :: u64" and ?st = "fst (next_u64 st)"
  note un = widen_32_64 [of n]
  have n: "?n \<noteq> 0" "0 < ?n" "unat ?n < 2 ^ 32"
    using widen_nonzero [OF assms] unat_lt_pow [of n] un by (auto simp: word_neq_0_conv)
  obtain k where "draw k ?st = - 1" using draw_reaches by blast
  then obtain st' x where "below_loop ?n ((- ?n) mod ?n) ?st (product128 (snd (next_u64 st)) ?n) = Some (st', product128 x ?n)"
      "(- ?n) mod ?n \<le> (ucast (product128 x ?n) :: u64)"
    using below_loop_returns [of "(- ?n) mod ?n" k ?st ?n] acceptable_draw [OF n(2,3)] by metis
  then show ?thesis
    using n(1) by (auto simp: below_unfold [OF assms] word_le_nat_alt unat_threshold unat_ucast_mod [of "product128 _ _"]
        unat_product128 un)
qed

lemma high_part:
  assumes "n \<noteq> 0"
  shows "unat (ucast (drop_bit 64 (product128 x (ucast (n :: u32)))) :: u32) = unat x * unat n div 2 ^ 64"
    and "unat x * unat n div 2 ^ 64 < unat n"
proof -
  have un: "unat (ucast n :: u64) = unat n"
    by (simp add: unat_ucast_up)
  have "unat x * unat n < 2 ^ 64 * unat n"
    using assms unat_lt_pow [of x] by (intro mult_strict_right_mono) (simp_all add: unat_gt_0)
  then show lt: "unat x * unat n div 2 ^ 64 < unat n"
    by (simp add: less_mult_imp_div_less mult.commute)
  then have "unat x * unat n div 2 ^ 64 < 2 ^ 32"
    using unat_lt_pow [of n] by (simp del: unat_lt_pow)
  then show "unat (ucast (drop_bit 64 (product128 x (ucast n))) :: u32) = unat x * unat n div 2 ^ 64"
    by (simp add: unat_ucast_mod [of "drop_bit _ _"] unat_drop_bit unat_product128 un)
qed

text \<open>
  A bounded draw always returns: for every non-zero bound and every generator state the
  rejection loop of \<open>below\<close> ends, with a result strictly below the bound.
\<close>

theorem below_returns:
  assumes "n \<noteq> 0"
  shows "\<exists>st' r. below n st = Some (st', r) \<and> r < n"
  using below_accepts [OF assms, of st] high_part [OF assms] by (auto simp: word_less_nat_alt)

theorem below_returns_witness: "\<exists>st' r. below 10 0 = Some (st', r) \<and> r < 10"
  by (rule below_returns) simp

subsection \<open>No modulo bias\<close>

text \<open>
  A draw \<open>x\<close> is accepted when the low word of the product is not below the threshold, and it then
  yields the high word.  Accepted draws are counted per result.
\<close>

definition accepted :: "u32 \<Rightarrow> u64 \<Rightarrow> bool" where
  "accepted n x \<longleftrightarrow> \<not> (ucast (product128 x (ucast n)) :: u64) < (- ucast n) mod ucast n"

definition draw_value :: "u32 \<Rightarrow> u64 \<Rightarrow> u32" where
  "draw_value n x = ucast (drop_bit 64 (product128 x (ucast n)))"

lemma multiples_in_window:
  fixes a n q :: nat
  assumes "0 < n"
  shows "card {x. a \<le> x * n \<and> x * n < a + n * q} = q"
proof -
  define c where "c = (a + n - 1) div n"
  have ge: "a \<le> x * n \<longleftrightarrow> c \<le> x" for x
  proof
    assume "a \<le> x * n"
    then have "a + n - 1 < Suc x * n" using assms by simp
    then show "c \<le> x" unfolding c_def by (simp add: less_mult_imp_div_less flip: less_Suc_eq_le)
  next
    assume "c \<le> x"
    then have "c * n \<le> x * n" by simp
    with nat_ceil_div_mult [OF assms, of a] show "a \<le> x * n" unfolding c_def by linarith
  qed
  have lt: "x * n < a + n * q \<longleftrightarrow> x < c + q" for x
  proof (cases "q \<le> x")
    case True
    then have "x * n = (x - q) * n + n * q"
      by (metis add_mult_distrib le_add_diff_inverse2 mult.commute)
    then have "x * n < a + n * q \<longleftrightarrow> (x - q) * n < a" by linarith
    also have "\<dots> \<longleftrightarrow> x - q < c" using ge [of "x - q"] by linarith
    finally show ?thesis using True by linarith
  next
    case False
    then have "x * n < q * n" using assms by simp
    then have "x * n < a + n * q" using mult.commute [of q n] by linarith
    with False show ?thesis by simp
  qed
  have "{x. a \<le> x * n \<and> x * n < a + n * q} = {c..<c + q}"
    using ge lt by auto
  then show ?thesis by simp
qed

lemma card_words: "card {x :: 'a::len word. P (unat x)} = card {k. k < 2 ^ LENGTH('a) \<and> P k}"
proof (rule bij_betw_same_card [of unat])
  show "bij_betw unat {x :: 'a word. P (unat x)} {k. k < 2 ^ LENGTH('a) \<and> P k}"
    by (rule bij_betw_byWitness [where f' = word_of_nat])
      (auto simp: unsigned_of_nat take_bit_nat_eq_self)
qed

lemma window:
  fixes p r n :: nat
  defines "T \<equiv> 2 ^ 64 mod n"
  shows "T \<le> p mod 2 ^ 64 \<and> p div 2 ^ 64 = r \<longleftrightarrow>
           r * 2 ^ 64 + T \<le> p \<and> p < r * 2 ^ 64 + T + n * (2 ^ 64 div n)"
proof -
  have total: "T + n * (2 ^ 64 div n) = 2 ^ 64" by (simp add: T_def)
  have "T \<le> 2 ^ 64" by (simp add: T_def)
  have "p = p div 2 ^ 64 * 2 ^ 64 + p mod 2 ^ 64" by simp
  moreover have "p mod 2 ^ 64 < (2 ^ 64 :: nat)" by simp
  moreover have "p div 2 ^ 64 = r" if "r * 2 ^ 64 \<le> p" and "p < r * 2 ^ 64 + 2 ^ 64"
    using that by (intro div_nat_eqI) (simp_all add: mult.commute)
  ultimately show ?thesis
    using total \<open>T \<le> 2 ^ 64\<close> by (smt (verit) add.assoc add_le_cancel_left le_add1 le_trans nat_add_left_cancel_less)
qed

text \<open>
  No modulo bias.  Of the 2^64 equally likely draws, exactly \<open>2^64 div n\<close> are accepted with
  result \<open>r\<close>, for every \<open>r\<close> below the bound: the accepted results are exactly uniform.
\<close>

theorem below_unbiased:
  assumes "n \<noteq> 0" and "r < n"
  shows "card {x. accepted n x \<and> draw_value n x = r} = 2 ^ 64 div unat n"
proof -
  let ?n = "unat n"
  have n: "0 < ?n" using assms(1) by (simp add: unat_gt_0)
  have eq: "accepted n x \<and> draw_value n x = r \<longleftrightarrow>
      2 ^ 64 mod ?n \<le> unat x * ?n mod 2 ^ 64 \<and> unat x * ?n div 2 ^ 64 = unat r" for x
    unfolding accepted_def draw_value_def not_less word_le_nat_alt
      unat_threshold [OF widen_nonzero [OF assms(1)]] word_unat_eq_iff [of _ r] high_part(1) [OF assms(1)]
    by (simp add: unat_ucast_mod [of "product128 _ _"] unat_product128 widen_32_64)
  have small: "k < 2 ^ 64" if "k * ?n < unat r * 2 ^ 64 + 2 ^ 64 mod ?n + ?n * (2 ^ 64 div ?n)" for k
  proof -
    have "unat r + 1 \<le> ?n" using assms(2) by (simp add: word_less_nat_alt)
    then have "(unat r + 1) * 2 ^ 64 \<le> ?n * 2 ^ 64" by (rule mult_le_mono1)
    then have "unat r * 2 ^ 64 + 2 ^ 64 \<le> 2 ^ 64 * ?n" by (simp only: add_mult_distrib mult.commute mult_1)
    moreover have "2 ^ 64 mod ?n + ?n * (2 ^ 64 div ?n) = 2 ^ 64" by simp
    ultimately have "k * ?n < 2 ^ 64 * ?n" using that by linarith
    then show ?thesis by (rule mult_less_cancel2 [THEN iffD1, THEN conjunct2])
  qed
  have "card {x. accepted n x \<and> draw_value n x = r} =
      card {k. k < 2 ^ 64 \<and> (unat r * 2 ^ 64 + 2 ^ 64 mod ?n \<le> k * ?n \<and>
        k * ?n < unat r * 2 ^ 64 + 2 ^ 64 mod ?n + ?n * (2 ^ 64 div ?n))}"
    unfolding eq window by (subst card_words) simp
  also have "\<dots> = card {k. unat r * 2 ^ 64 + 2 ^ 64 mod ?n \<le> k * ?n \<and>
        k * ?n < unat r * 2 ^ 64 + 2 ^ 64 mod ?n + ?n * (2 ^ 64 div ?n)}"
    using small by (metis (no_types, lifting))
  also have "\<dots> = 2 ^ 64 div ?n" by (rule multiples_in_window [OF n])
  finally show ?thesis .
qed

theorem below_unbiased_witness:
  "card {x. accepted 10 x \<and> draw_value 10 x = 3} = 1844674407370955161"
  using below_unbiased [of 10 3] by simp

lemma two_distinct_draw:
  assumes "2 \<le> n"
  shows "\<exists>st' i j. two_distinct_below n st = Some (st', i, j) \<and> i < n \<and> j < n \<and> i \<noteq> j"
proof -
  have n: "n \<noteq> 0" using assms by auto
  then have n1: "unat (n - 1) = unat n - 1" by (rule unat_minus_one)
  have n2: "n - 1 \<noteq> 0" using assms by (auto simp: word_le_nat_alt)
  obtain st1 i where i: "below n st = Some (st1, i)" "i < n" using below_accepts [OF n] high_part [OF n]
    by (metis word_less_nat_alt)
  obtain st2 j where j: "below (n - 1) st1 = Some (st2, j)" "j < n - 1"
    using below_accepts [OF n2] high_part [OF n2] by (metis word_less_nat_alt)
  have jn: "unat (j + 1) = unat j + 1" "unat j + 1 < unat n"
    using j(2) n1 unat_lt_pow [of n] by (auto simp: word_less_nat_alt unat_word_ariths simp del: unat_lt_pow)
  then have "(if i \<le> j then j + 1 else j) < n \<and> i \<noteq> (if i \<le> j then j + 1 else j)"
    by (auto simp: word_less_nat_alt word_le_nat_alt)
  then show ?thesis
    using i j by (auto simp: two_distinct_below_def)
qed

text \<open>
  The power-of-two-choices draw always returns two distinct indices below a bound of
  at least two.
\<close>

theorem two_distinct_below_distinct:
  assumes "2 \<le> n"
  shows "\<exists>st' i j. two_distinct_below n st = Some (st', i, j) \<and> i < n \<and> j < n \<and> i \<noteq> j"
  by (rule two_distinct_draw [OF assms])

theorem two_distinct_below_distinct_witness:
  "\<exists>st' i j. two_distinct_below 3 0 = Some (st', i, j) \<and> i < 3 \<and> j < 3 \<and> i \<noteq> j"
  by (rule two_distinct_below_distinct) simp

end
