(* ===== verification/Weighted.thy ===== *)
theory Weighted
  imports Plecto_Prelude
begin

text \<open>
  Weighted traffic splits (\<open>control/src/weighted.rs\<close>): validation of the weights, the reduction by
  their greatest common divisor, the precomputed apportionment schedule and the pick that walks it.
  A schedule step is the inner loop of the source, crediting the deficits in index order while it
  tracks the largest one.  The groups a split chooses from are a type parameter; whether a
  group has an eligible instance is the only thing \<open>pick\<close> asks of it.
\<close>

definition MAX_TABLE_LEN :: nat where
  "MAX_TABLE_LEN = 65536"

definition MAX_BACKEND_WEIGHT :: u32 where
  "MAX_BACKEND_WEIGHT = 1000000"

datatype split_error = NoBackends | WeightTooLarge u32 | AllDrained | TableTooLong nat

function weight_gcd :: "u32 \<Rightarrow> u32 \<Rightarrow> u32" where
  "weight_gcd a b = (if b \<noteq> 0 then weight_gcd b (a mod b) else a)"
  by auto
termination
  by (relation "measure (\<lambda>(a, b). unat b)") (simp_all add: unat_mod_distrib unat_gt_0)

declare weight_gcd.simps [simp del]

text \<open>\<open>Iterator::reduce\<close>.\<close>

fun reduce :: "('a \<Rightarrow> 'a \<Rightarrow> 'a) \<Rightarrow> 'a list \<Rightarrow> 'a option" where
  "reduce f [] = None"
| "reduce f (x # xs) = Some (foldl f x xs)"

definition validate_split :: "u32 list \<Rightarrow> (split_error, nat) result" where
  "validate_split weights =
     (if weights = [] then Inl NoBackends
      else case List.find (\<lambda>w. w > MAX_BACKEND_WEIGHT) weights of
             Some w \<Rightarrow> Inl (WeightTooLarge w)
           | None \<Rightarrow>
               (case reduce weight_gcd (filter (\<lambda>w. w > 0) weights) of
                  None \<Rightarrow> Inl AllDrained
                | Some divisor \<Rightarrow>
                    let total_w = sum_list (map (\<lambda>w. unat (w div divisor)) weights)
                    in if total_w > MAX_TABLE_LEN then Inl (TableTooLong total_w) else Inr total_w))"

definition credit_step :: "u32 list \<Rightarrow> nat \<Rightarrow> int list \<times> nat \<Rightarrow> int list \<times> nat" where
  "credit_step weights i acc =
     (case acc of (deficit, best) \<Rightarrow>
        let deficit = deficit[i := deficit ! i + uint (weights ! i)]
        in (deficit, if deficit ! i > deficit ! best then i else best))"

definition schedule_step :: "u32 list \<Rightarrow> int \<Rightarrow> int list \<times> u16 list \<Rightarrow> int list \<times> u16 list" where
  "schedule_step weights total_w acc =
     (case acc of (deficit, schedule) \<Rightarrow>
        case fold (credit_step weights) [0..<length weights] (deficit, 0) of
          (deficit, best) \<Rightarrow>
            (deficit[best := deficit ! best - total_w], schedule @ [word_of_nat best]))"

definition weighted_schedule :: "u32 list \<Rightarrow> u16 list" where
  "weighted_schedule weights =
     (let total_w = sum_list (map uint weights)
      in snd ((schedule_step weights total_w ^^ nat total_w) (replicate (length weights) 0, [])))"

record 'g weighted_backends =
  wb_groups :: "'g list"
  wb_table :: "u16 list"
  wb_cursor :: usize

definition weighted_new :: "('g \<times> u32) list \<Rightarrow> (split_error, 'g weighted_backends) result" where
  "weighted_new targets =
     (let weights = map snd targets
      in case validate_split weights of
           Inl e \<Rightarrow> Inl e
         | Inr _ \<Rightarrow>
             let groups = map fst (filter (\<lambda>(_, w). w > 0) targets);
                 nonzero = filter (\<lambda>w. w > 0) weights;
                 divisor = max (case reduce weight_gcd nonzero of None \<Rightarrow> 1 | Some d \<Rightarrow> d) 1;
                 reduced = map (\<lambda>w. w div divisor) nonzero
             in Inr \<lparr>wb_groups = groups, wb_table = weighted_schedule reduced, wb_cursor = 0\<rparr>)"

fun scan_table :: "('g \<Rightarrow> bool) \<Rightarrow> 'g weighted_backends \<Rightarrow> nat \<Rightarrow> nat list \<Rightarrow> 'g option" where
  "scan_table eligible wb start [] = None"
| "scan_table eligible wb start (off # offs) =
     (let backend = unat (wb_table wb ! ((start + off) mod length (wb_table wb)))
      in if eligible (wb_groups wb ! backend) then Some (wb_groups wb ! backend)
         else scan_table eligible wb start offs)"

definition weighted_pick :: "('g \<Rightarrow> bool) \<Rightarrow> 'g weighted_backends \<Rightarrow> 'g weighted_backends \<times> 'g option" where
  "weighted_pick eligible wb =
     (if \<not> list_ex eligible (wb_groups wb) then (wb, None)
      else let len = length (wb_table wb)
           in if len = 0 then (wb, None)
              else (wb\<lparr>wb_cursor := wb_cursor wb + 1\<rparr>,
                    scan_table eligible wb (unat (wb_cursor wb) mod len) [0..<len]))"

subsection \<open>The divisor\<close>

lemma unat_weight_gcd: "unat (weight_gcd a b) = gcd (unat a) (unat b)"
proof (induction a b rule: weight_gcd.induct)
  case (1 a b)
  show ?case
  proof (cases "b = 0")
    case False
    then show ?thesis
      using 1 by (subst weight_gcd.simps) (simp add: unat_mod_distrib gcd.commute gcd_red_nat [of "unat a"])
  qed (simp add: weight_gcd.simps)
qed

lemma foldl_gcd_dvd:
  "unat (foldl weight_gcd x xs) dvd unat x \<and> (\<forall>w \<in> set xs. unat (foldl weight_gcd x xs) dvd unat w)"
proof (induction xs arbitrary: x)
  case (Cons y ys)
  from Cons [of "weight_gcd x y"] show ?case by (auto simp: unat_weight_gcd)
qed simp

lemma reduce_gcd_dvd: "reduce weight_gcd ws = Some d \<Longrightarrow> w \<in> set ws \<Longrightarrow> unat d dvd unat w"
  using foldl_gcd_dvd by (cases ws) auto

lemma reduce_None: "reduce f xs = None \<longleftrightarrow> xs = []"
  by (cases xs) auto

subsection \<open>One step of the schedule\<close>

lemma credit_steps:
  assumes "length d = length ws" and "p \<le> length ws"
  defines "acc \<equiv> fold (credit_step ws) [0..<p] (d, 0)"
  shows "length (fst acc) = length ws
    \<and> (\<forall>i < length ws. fst acc ! i = d ! i + (if i < p then uint (ws ! i) else 0))
    \<and> (0 < p \<longrightarrow> snd acc < p) \<and> (p = 0 \<longrightarrow> snd acc = 0) \<and> (\<forall>i < p. fst acc ! i \<le> fst acc ! snd acc)"
  using assms(2) unfolding acc_def
proof (induction p)
  case 0
  then show ?case using assms(1) by simp
next
  case (Suc p)
  let ?acc = "fold (credit_step ws) [0..<p] (d, 0)"
  obtain e b where acc: "?acc = (e, b)" by (cases ?acc)
  let ?e = "e[p := e ! p + uint (ws ! p)]"
  from Suc acc have IH: "length e = length ws" "\<forall>i < length ws. e ! i = d ! i + (if i < p then uint (ws ! i) else 0)"
      "0 < p \<longrightarrow> b < p" "p = 0 \<longrightarrow> b = 0" "\<forall>i < p. e ! i \<le> e ! b"
    by auto
  have fold: "fold (credit_step ws) [0..<Suc p] (d, 0) = (?e, if ?e ! p > ?e ! b then p else b)"
    by (simp add: acc credit_step_def Let_def)
  show ?case
    unfolding fold using IH Suc.prems by (cases "p = 0") (auto simp: less_Suc_eq nth_list_update)
qed

definition served :: "u16 list \<Rightarrow> nat \<Rightarrow> nat" where
  "served sch i = tally (\<lambda>e. unat e = i) sch"

definition total_weight :: "u32 list \<Rightarrow> int" where
  "total_weight ws = (\<Sum>i < length ws. uint (ws ! i))"

lemma total_weight_eq: "sum_list (map uint ws) = total_weight ws"
  by (simp add: total_weight_def sum_list_sum_nth atLeast0LessThan)

text \<open>
  After \<open>t\<close> steps every deficit is the exact distance to the ideal share, scaled by the total weight,
  the deficits sum to zero and none has fallen to minus the total.
\<close>

definition sched_inv :: "u32 list \<Rightarrow> nat \<Rightarrow> int list \<times> u16 list \<Rightarrow> bool" where
  "sched_inv ws t acc \<longleftrightarrow>
     length (fst acc) = length ws \<and> length (snd acc) = t
     \<and> (\<forall>e \<in> set (snd acc). unat e < length ws)
     \<and> (\<Sum>i < length ws. fst acc ! i) = 0
     \<and> (\<forall>i < length ws. fst acc ! i = int t * uint (ws ! i) - total_weight ws * int (served (snd acc) i)
          \<and> - total_weight ws < fst acc ! i)"

lemma schedule_step_inv:
  assumes "sched_inv ws t acc" and "0 < total_weight ws" and "length ws < 2 ^ 16"
  shows "sched_inv ws (Suc t) (schedule_step ws (total_weight ws) acc)"
proof -
  let ?n = "length ws" and ?L = "total_weight ws"
  obtain d sch where acc: "acc = (d, sch)" by (cases acc)
  have inv: "length d = ?n" "length sch = t" "\<forall>e \<in> set sch. unat e < ?n" "(\<Sum>i < ?n. d ! i) = 0"
      "\<forall>i < ?n. d ! i = int t * uint (ws ! i) - ?L * int (served sch i) \<and> - ?L < d ! i"
    using assms(1) unfolding acc sched_inv_def by auto
  obtain e b where eb: "fold (credit_step ws) [0..<?n] (d, 0) = (e, b)" by fastforce
  have n: "0 < ?n" using assms(2) by (cases ws) (simp_all add: total_weight_def)
  from credit_steps [OF inv(1), of ?n] eb n have
    e: "length e = ?n" "\<forall>i < ?n. e ! i = d ! i + uint (ws ! i)" "b < ?n" "\<forall>i < ?n. e ! i \<le> e ! b"
    by auto
  have sum_e: "(\<Sum>i < ?n. e ! i) = ?L"
    using e(2) inv(4) by (simp add: sum.distrib total_weight_def)
  have pos: "0 < e ! b"
  proof (rule ccontr)
    assume "\<not> 0 < e ! b"
    with e(4) have "(\<Sum>i < ?n. e ! i) \<le> 0" by (intro sum_nonpos) force
    with sum_e assms(2) show False by simp
  qed
  have ub: "unat (word_of_nat b :: u16) = b"
    using e(3) assms(3) by (simp add: unsigned_of_nat take_bit_nat_eq_self)
  have "(\<Sum>i < ?n. e[b := e ! b - ?L] ! i) = (\<Sum>i < ?n. e ! i - (if i = b then ?L else 0))"
    by (intro sum.cong) (auto simp: e(1) nth_list_update)
  also have "\<dots> = 0" using sum_e e(3) by (simp add: sum_subtractf)
  finally have sum0: "(\<Sum>i < ?n. e[b := e ! b - ?L] ! i) = 0" .
  have per: "e[b := e ! b - ?L] ! i = int (Suc t) * uint (ws ! i) - ?L * int (served (sch @ [word_of_nat b]) i)
      \<and> - ?L < e[b := e ! b - ?L] ! i" if "i < ?n" for i
  proof -
    have d: "d ! i = int t * uint (ws ! i) - ?L * int (served sch i)" "- ?L < d ! i"
      using inv(5) that by blast+
    have ei: "e ! i = d ! i + uint (ws ! i)" using e(2) that by blast
    have si: "int (served (sch @ [word_of_nat b]) i) = int (served sch i) + (if b = i then 1 else 0)"
      by (simp add: served_def ub)
    show ?thesis
    proof (cases "i = b")
      case True
      then have "e[b := e ! b - ?L] ! i = e ! i - ?L" using e(1,3) by simp
      then show ?thesis unfolding si ei d(1) using True pos ei d(1) by (simp add: distrib_left distrib_right)
    next
      case False
      then have "e[b := e ! b - ?L] ! i = e ! i" by simp
      moreover have "- ?L < e ! i" using ei d(2) uint_ge_0 [of "ws ! i"] by linarith
      ultimately show ?thesis unfolding si using False ei d(1) by (simp add: distrib_right)
    qed
  qed
  have ent: "\<forall>x \<in> set (sch @ [word_of_nat b]). unat x < ?n" using inv(3) e(3) ub by simp
  have "schedule_step ws ?L acc = (e[b := e ! b - ?L], sch @ [word_of_nat b])"
    by (simp add: acc schedule_step_def eb)
  then show ?thesis
    unfolding sched_inv_def using inv(2) e(1) sum0 per ent by (metis fst_conv length_append_singleton length_list_update snd_conv)
qed

lemma schedule_run_inv:
  assumes "0 < total_weight ws" and "length ws < 2 ^ 16"
  shows "sched_inv ws t ((schedule_step ws (total_weight ws) ^^ t) (replicate (length ws) 0, []))"
proof (induction t)
  case 0
  then show ?case using assms(1) by (simp add: sched_inv_def served_def)
next
  case (Suc t)
  then show ?case using schedule_step_inv [OF _ assms] by simp
qed

lemma schedule_prefix:
  "take t (snd ((schedule_step ws L ^^ (t + k)) acc0)) = take t (snd ((schedule_step ws L ^^ t) acc0))"
  if "length (snd ((schedule_step ws L ^^ t) acc0)) = t"
proof (induction k)
  case (Suc k)
  have ext: "\<exists>b. snd (schedule_step ws L acc) = snd acc @ [b]" for acc
    by (cases acc) (auto simp: schedule_step_def split: prod.splits)
  have len: "t \<le> length (snd ((schedule_step ws L ^^ (t + k)) acc0))"
  proof (induction k)
    case 0 then show ?case using that by simp
  next
    case (Suc k) then show ?case using ext [of "(schedule_step ws L ^^ (t + k)) acc0"] by auto
  qed
  show ?case
    using Suc len ext [of "(schedule_step ws L ^^ (t + k)) acc0"] by auto
qed simp

lemma schedule_at:
  assumes "0 < total_weight ws" and "length ws < 2 ^ 16" and "t \<le> nat (total_weight ws)"
  shows "\<exists>d. sched_inv ws t (d, take t (weighted_schedule ws))"
proof -
  let ?run = "\<lambda>t. (schedule_step ws (total_weight ws) ^^ t) (replicate (length ws) 0, [])"
  have inv: "sched_inv ws t (?run t)" by (rule schedule_run_inv [OF assms(1,2)])
  then have len: "length (snd (?run t)) = t" by (simp add: sched_inv_def)
  have "take t (weighted_schedule ws) = take t (snd (?run t))"
    using schedule_prefix [OF len, of "nat (total_weight ws) - t"] assms(3)
    by (simp add: weighted_schedule_def total_weight_eq Let_def)
  with len have "take t (weighted_schedule ws) = snd (?run t)" by simp
  with inv show ?thesis by (metis prod.collapse)
qed

subsection \<open>Properties of the schedule\<close>

lemma sum_served:
  assumes "\<forall>e \<in> set sch. unat e < n"
  shows "(\<Sum>i < n. served sch i) = length sch"
  using assms
proof (induction sch)
  case (Cons x xs)
  then have "(\<Sum>i < n. if unat x = i then 1 else 0 :: nat) = 1" by simp
  with Cons show ?case by (simp add: served_def sum.distrib)
qed (simp add: served_def)

lemma served_bound:
  assumes "0 < total_weight ws" and "length ws < 2 ^ 16" and "t \<le> nat (total_weight ws)" and "i < length ws"
  shows "int (served (take t (weighted_schedule ws)) i) * total_weight ws < int t * uint (ws ! i) + total_weight ws"
  using schedule_at [OF assms(1-3)] assms(4) by (auto simp: sched_inv_def algebra_simps)

lemma schedule_facts:
  assumes "0 < total_weight ws" and "length ws < 2 ^ 16"
  shows "length (weighted_schedule ws) = nat (total_weight ws)"
    and "\<forall>e \<in> set (weighted_schedule ws). unat e < length ws"
    and "\<And>i. i < length ws \<Longrightarrow> served (weighted_schedule ws) i = unat (ws ! i)"
proof -
  let ?L = "total_weight ws" and ?s = "weighted_schedule ws"
  have len: "length ?s = nat ?L"
    using schedule_run_inv [OF assms, of "nat ?L"] by (simp add: sched_inv_def weighted_schedule_def Let_def total_weight_eq)
  show "length ?s = nat ?L" by (rule len)
  show ent: "\<forall>e \<in> set ?s. unat e < length ws"
  proof -
    obtain d where "sched_inv ws (nat ?L) (d, take (nat ?L) ?s)" using schedule_at [OF assms order_refl] by blast
    then show ?thesis using len by (simp add: sched_inv_def)
  qed
  have le: "served ?s i \<le> unat (ws ! i)" if "i < length ws" for i
  proof -
    have "take (nat ?L) ?s = ?s" and "int (nat ?L) = ?L" using len assms(1) by simp_all
    then have "int (served ?s i) * ?L < ?L * uint (ws ! i) + ?L"
      using served_bound [OF assms order_refl that] by metis
    moreover have "?L * uint (ws ! i) + ?L = (uint (ws ! i) + 1) * ?L" by (simp add: algebra_simps)
    ultimately have "int (served ?s i) * ?L < (uint (ws ! i) + 1) * ?L" by (simp only:)
    then have "int (served ?s i) < uint (ws ! i) + 1"
      using assms(1) by (rule mult_right_less_imp_less [OF _ less_imp_le])
    then have "int (served ?s i) < int (unat (ws ! i)) + 1" by simp
    then show ?thesis by linarith
  qed
  have "(\<Sum>i < length ws. unat (ws ! i)) = (\<Sum>i < length ws. served ?s i)"
  proof -
    have "int (\<Sum>i < length ws. unat (ws ! i)) = ?L"
      by (simp add: total_weight_def)
    then have "(\<Sum>i < length ws. unat (ws ! i)) = nat ?L" by (metis nat_int)
    then show ?thesis using sum_served [OF ent] len by simp
  qed
  then show "served ?s i = unat (ws ! i)" if "i < length ws" for i
    using le that sum_mono_inv [of "served ?s" "{..<length ws}" "\<lambda>i. unat (ws ! i)" i] by simp
qed

text \<open>
  Exact shares.  The schedule of a split has one entry per unit of total weight, every entry
  is the index of a backend, and in one period each backend is served exactly its weight.
\<close>

theorem schedule_exact_shares:
  assumes "0 < total_weight ws" and "length ws < 2 ^ 16" and "i < length ws"
  shows "length (weighted_schedule ws) = nat (total_weight ws)
    \<and> (\<forall>e \<in> set (weighted_schedule ws). unat e < length ws)
    \<and> served (weighted_schedule ws) i = unat (ws ! i)"
  using schedule_facts [OF assms(1,2)] assms(3) by auto

theorem schedule_exact_shares_witness: "served (weighted_schedule [1, 19]) 1 = 19"
  using schedule_exact_shares [of "[1, 19]" 1] by (simp add: total_weight_def lessThan_Suc)

text \<open>
  No backend runs ahead.  At every point of the period a backend has been served less than one
  request more than its ideal share: after \<open>t\<close> picks, fewer than \<open>t * w / L + 1\<close>.
\<close>

theorem schedule_never_ahead:
  assumes "0 < total_weight ws" and "length ws < 2 ^ 16" and "t \<le> nat (total_weight ws)" and "i < length ws"
  shows "int (served (take t (weighted_schedule ws)) i) * total_weight ws < int t * uint (ws ! i) + total_weight ws"
  by (rule served_bound [OF assms])

theorem schedule_never_ahead_witness:
  "int (served (take 2 (weighted_schedule [1, 3])) 1) * 4 < 2 * 3 + 4"
  using schedule_never_ahead [of "[1, 3]" 2 1] by (simp add: total_weight_def lessThan_Suc)

text \<open>
  A backend can fall a whole request behind.  With weights 1, 1, 1, 6, 6 (total 15) the last
  backend has been served 3 times after 10 picks, while its ideal share is 4: the deviation from the
  ideal count is 1, so the bound "less than one" that holds for running ahead fails for falling
  behind.
\<close>

theorem schedule_lag_reaches_one:
  "10 * uint ([1, 1, 1, 6, 6] ! 4 :: u32) - int (served (take 10 (weighted_schedule [1, 1, 1, 6, 6])) 4) * total_weight [1, 1, 1, 6, 6]
     \<ge> total_weight [1, 1, 1, 6, 6]"
  by code_simp

subsection \<open>Compiling and picking\<close>

text \<open>A compiled split: one table entry or more, all of them indices of its groups.\<close>

definition wb_inv :: "'g weighted_backends \<Rightarrow> bool" where
  "wb_inv wb \<longleftrightarrow> wb_table wb \<noteq> [] \<and> (\<forall>e \<in> set (wb_table wb). unat e < length (wb_groups wb))
     \<and> (\<forall>i < length (wb_groups wb). 0 < served (wb_table wb) i)"

lemma filter_snd_map: "filter P (map snd xs) = map snd (filter (\<lambda>(_, w). P w) xs)"
  by (induction xs) auto

lemma validate_split_Inr:
  assumes "validate_split ws = Inr n"
  shows "\<exists>d. reduce weight_gcd (filter (\<lambda>w. w > 0) ws) = Some d \<and> n = sum_list (map (\<lambda>w. unat (w div d)) ws)
           \<and> n \<le> MAX_TABLE_LEN"
  using assms by (auto simp: validate_split_def Let_def split: if_splits option.splits)

lemma reduced_weight:
  assumes "reduce weight_gcd ws = Some d" and "w \<in> set ws" and "w > 0"
  shows "1 \<le> d" and "unat (w div d) * unat d = unat w" and "0 < unat (w div d)"
proof -
  have dvd: "unat d dvd unat w" by (rule reduce_gcd_dvd [OF assms(1,2)])
  have w: "0 < unat w" using assms(3) by (simp add: word_less_nat_alt)
  with dvd have "0 < unat d" by (metis dvd_0_left gr0I)
  then show "1 \<le> d" by (simp add: word_le_nat_alt)
  show mult: "unat (w div d) * unat d = unat w" using dvd by (simp add: unat_div_distrib)
  with w show "0 < unat (w div d)" by (metis gr0I mult_0)
qed

lemma uint_pos: "0 < unat w \<Longrightarrow> 0 < uint w"
  by (metis of_nat_0_less_iff of_nat_unat)

lemma sum_nth_pos:
  fixes f :: "nat \<Rightarrow> int"
  assumes "\<And>i. i < n \<Longrightarrow> 0 < f i" and "0 < n"
  shows "0 < (\<Sum>i < n. f i)"
  using assms by (intro sum_pos) auto

lemma weighted_new_shares:
  fixes targets :: "('g \<times> u32) list"
  assumes "weighted_new targets = Inr wb" and "length targets < 2 ^ 16"
  defines "kept \<equiv> filter (\<lambda>(_, w). w > 0) targets"
  shows "\<exists>d > 0. wb_groups wb = map fst kept \<and> kept \<noteq> []
           \<and> (\<forall>e \<in> set (wb_table wb). unat e < length kept)
           \<and> (\<forall>i < length kept. served (wb_table wb) i * d = unat (snd (kept ! i)))"
proof -
  obtain n where v: "validate_split (map snd targets) = Inr n"
    using assms(1) by (auto simp: weighted_new_def Let_def split: sum.splits)
  have nz: "filter (\<lambda>w. w > 0) (map snd targets) = map snd kept" by (simp only: kept_def filter_snd_map)
  from validate_split_Inr [OF v] obtain d where d: "reduce weight_gcd (map snd kept) = Some d"
    unfolding nz by blast
  have wb: "wb_groups wb = map fst kept" "wb_table wb = weighted_schedule (map (\<lambda>w. w div max d 1) (map snd kept))"
    using assms(1) unfolding weighted_new_def Let_def v nz d kept_def [symmetric] by auto
  let ?r = "map (\<lambda>w. w div max d 1) (map snd kept)"
  have ne: "kept \<noteq> []" using d by auto
  have pos: "snd (kept ! i) > 0" and mem: "snd (kept ! i) \<in> set (map snd kept)" if "i < length kept" for i
    using nth_mem [OF that] by (auto simp: kept_def case_prod_beta)
  have "1 \<le> d" using reduced_weight(1) [OF d mem pos, of 0] ne by simp
  then have max: "max d 1 = d" by (simp add: max_absorb1)
  have r: "unat (?r ! i) * unat d = unat (snd (kept ! i))" "0 < unat (?r ! i)" if "i < length kept" for i
    using reduced_weight(2,3) [OF d mem [OF that] pos [OF that]] that by (simp_all add: max)
  have "0 < total_weight ?r"
    unfolding total_weight_def using r(2) ne by (intro sum_nth_pos) (simp_all add: uint_pos)
  moreover have "length ?r < 2 ^ 16"
    unfolding kept_def length_map by (rule le_less_trans [OF length_filter_le assms(2)])
  ultimately have "\<forall>e \<in> set (wb_table wb). unat e < length kept"
      "\<And>i. i < length kept \<Longrightarrow> served (wb_table wb) i = unat (?r ! i)"
    using schedule_facts(2,3) [of ?r] wb(2) by simp_all
  moreover have "0 < unat d" using \<open>1 \<le> d\<close> by (simp add: word_le_nat_alt)
  ultimately show ?thesis using r wb(1) ne by (intro exI [of _ "unat d"]) simp
qed

lemma weighted_new_inv:
  assumes "weighted_new targets = Inr wb" and "length targets < 2 ^ 16"
  shows "wb_inv wb"
proof -
  let ?kept = "filter (\<lambda>(_, w). w > 0) targets"
  obtain d where d: "wb_groups wb = map fst ?kept" "?kept \<noteq> []" "\<forall>e \<in> set (wb_table wb). unat e < length ?kept"
      "\<forall>i < length ?kept. served (wb_table wb) i * d = unat (snd (?kept ! i))"
    using weighted_new_shares [OF assms] by blast
  have "0 < served (wb_table wb) i" if "i < length ?kept" for i
  proof -
    have "snd (?kept ! i) > 0" using nth_mem [OF that] by (auto simp: case_prod_beta)
    then show ?thesis using d(4) that by (metis gr0I mult_0 unat_0 word_less_nat_alt)
  qed
  moreover from this [of 0] d(2) have "wb_table wb \<noteq> []" by (auto simp: served_def)
  ultimately show ?thesis using d by (simp add: wb_inv_def)
qed

text \<open>
  A compiled split is proportional.  The groups are the targets of non-zero weight in
  manifest order, and there is a divisor by which the number of table slots of every kept group,
  multiplied, gives its configured weight: a drained target is in no slot, every other has its share.
\<close>

theorem split_is_proportional:
  assumes "weighted_new targets = Inr wb" and "length targets < 2 ^ 16"
  shows "\<exists>d > 0. wb_groups wb = map fst (filter (\<lambda>(_, w). w > 0) targets)
     \<and> (\<forall>i < length (wb_groups wb).
          served (wb_table wb) i * d = unat (snd (filter (\<lambda>(_, w). w > 0) targets ! i)))"
  using weighted_new_shares [OF assms] by auto

lemma split_5_95: "\<exists>wb. weighted_new [(''stable'', 95), (''canary'', 5), (''old'', 0)] = Inr wb"
  by (simp add: weighted_new_def validate_split_def MAX_BACKEND_WEIGHT_def MAX_TABLE_LEN_def
      weight_gcd.simps Let_def)

theorem split_is_proportional_witness:
  "\<exists>wb d. weighted_new [(''stable'', 95), (''canary'', 5), (''old'', 0)] = Inr wb \<and> 0 < d
     \<and> wb_groups wb = [''stable'', ''canary''] \<and> served (wb_table wb) 0 * d = 95 \<and> served (wb_table wb) 1 * d = 5"
proof -
  obtain wb where wb: "weighted_new [(''stable'', 95), (''canary'', 5), (''old'', 0)] = Inr wb"
    using split_5_95 by blast
  have kept: "filter (\<lambda>(_, w). w > 0) [(''stable'', 95 :: u32), (''canary'', 5), (''old'', 0)]
      = [(''stable'', 95), (''canary'', 5)]" by simp
  from split_is_proportional [OF wb, unfolded kept] obtain d where d: "0 < d" "wb_groups wb = [''stable'', ''canary'']"
      "\<forall>i < length (wb_groups wb). served (wb_table wb) i * d = unat (snd ([(''stable'', 95 :: u32), (''canary'', 5)] ! i))"
    by auto
  from d(2) d(3) [rule_format, of 0] d(3) [rule_format, of 1]
  have "served (wb_table wb) 0 * d = 95" "served (wb_table wb) 1 * d = 5" by simp_all
  with d wb show ?thesis by blast
qed

lemma scan_table_Some:
  assumes "\<exists>off \<in> set offs. eligible (wb_groups wb ! unat (wb_table wb ! ((start + off) mod length (wb_table wb))))"
  shows "\<exists>off \<in> set offs. scan_table eligible wb start offs =
      Some (wb_groups wb ! unat (wb_table wb ! ((start + off) mod length (wb_table wb))))
    \<and> eligible (wb_groups wb ! unat (wb_table wb ! ((start + off) mod length (wb_table wb))))"
  using assms by (induction offs) (auto simp: Let_def)

lemma rotate_reaches:
  assumes "j < n"
  shows "\<exists>off < n. (start + off) mod n = (j :: nat)"
proof -
  have "(start + (j + n - start mod n) mod n) mod n = (start mod n + (j + n - start mod n)) mod n"
    by (metis mod_add_left_eq mod_add_right_eq)
  also have "start mod n + (j + n - start mod n) = j + n"
    using mod_less_divisor [of n start] assms by linarith
  finally show ?thesis
    using assms by (intro exI [of _ "(j + n - start mod n) mod n"]) simp
qed

lemma weighted_pick_eligible:
  assumes "wb_inv wb" and "g \<in> set (wb_groups wb)" and "eligible g"
  shows "\<exists>h \<in> set (wb_groups wb). eligible h
           \<and> weighted_pick eligible wb = (wb\<lparr>wb_cursor := wb_cursor wb + 1\<rparr>, Some h)"
proof -
  let ?len = "length (wb_table wb)" and ?start = "unat (wb_cursor wb) mod length (wb_table wb)"
  obtain i where i: "i < length (wb_groups wb)" "wb_groups wb ! i = g" using assms(2) by (auto simp: in_set_conv_nth)
  then have "0 < served (wb_table wb) i" using assms(1) by (simp add: wb_inv_def)
  then obtain j where j: "j < ?len" "unat (wb_table wb ! j) = i"
    by (auto simp: served_def tally_def filter_empty_conv in_set_conv_nth)
  obtain off where "off < ?len" "(?start + off) mod ?len = j" using rotate_reaches [OF j(1)] by blast
  with j i assms(3) have "\<exists>off \<in> set [0..<?len]. eligible (wb_groups wb ! unat (wb_table wb ! ((?start + off) mod ?len)))"
    by (intro bexI [of _ off]) simp_all
  from scan_table_Some [where eligible = eligible and wb = wb, OF this] obtain off where
    off: "scan_table eligible wb ?start [0..<?len] = Some (wb_groups wb ! unat (wb_table wb ! ((?start + off) mod ?len)))"
      "eligible (wb_groups wb ! unat (wb_table wb ! ((?start + off) mod ?len)))"
    by blast
  have "wb_groups wb ! unat (wb_table wb ! ((?start + off) mod ?len)) \<in> set (wb_groups wb)"
    using assms(1) by (simp add: wb_inv_def)
  moreover have "list_ex eligible (wb_groups wb)" using assms(2,3) by (auto simp: list_ex_iff)
  ultimately show ?thesis
    using off assms(1) by (intro bexI) (auto simp: weighted_pick_def Let_def wb_inv_def)
qed

text \<open>
  What a split relies on in the groups it chooses from: on a well-formed group, being eligible means
  exactly that the group's own load balancer will find an instance.
\<close>

locale balancer =
  fixes ok :: "'g \<Rightarrow> bool" and eligible :: "'g \<Rightarrow> bool" and chosen :: "'g \<Rightarrow> 'i option"
  assumes eligible_iff: "ok g \<Longrightarrow> eligible g \<longleftrightarrow> chosen g \<noteq> None"
begin

lemma split_serves:
  assumes "wb_inv wb" and "\<forall>g \<in> set (wb_groups wb). ok g"
  shows "(\<exists>g i. snd (weighted_pick eligible wb) = Some g \<and> chosen g = Some i)
           \<longleftrightarrow> (\<exists>g \<in> set (wb_groups wb). chosen g \<noteq> None)"
proof
  assume "\<exists>g i. snd (weighted_pick eligible wb) = Some g \<and> chosen g = Some i"
  then have "list_ex eligible (wb_groups wb)" by (auto simp: weighted_pick_def split: if_splits)
  then show "\<exists>g \<in> set (wb_groups wb). chosen g \<noteq> None"
    using assms(2) eligible_iff by (auto simp: list_ex_iff)
next
  assume "\<exists>g \<in> set (wb_groups wb). chosen g \<noteq> None"
  then obtain g where "g \<in> set (wb_groups wb)" "eligible g" using assms(2) eligible_iff by blast
  from weighted_pick_eligible [where eligible = eligible, OF assms(1) this] obtain h where
    "h \<in> set (wb_groups wb)" "eligible h" "snd (weighted_pick eligible wb) = Some h" by auto
  then show "\<exists>g i. snd (weighted_pick eligible wb) = Some g \<and> chosen g = Some i"
    using assms(2) eligible_iff by blast
qed

end

text \<open>
  Picking fails closed exactly on a full outage.  A compiled split returns a group if and only if
  some group of it is eligible, the group it returns is eligible and not drained, and the pick
  leaves the schedule intact.
\<close>

theorem split_pick_eligible:
  assumes "weighted_new targets = Inr wb0" and "length targets < 2 ^ 16"
    and "wb = wb0\<lparr>wb_cursor := c\<rparr>"
  shows "(snd (weighted_pick eligible wb) = None) = (\<forall>g \<in> set (wb_groups wb). \<not> eligible g)"
    and "snd (weighted_pick eligible wb) = Some h \<Longrightarrow> eligible h \<and> (\<exists>w > 0. (h, w) \<in> set targets)"
    and "wb_table (fst (weighted_pick eligible wb)) = wb_table wb0"
proof -
  have inv: "wb_inv wb" using weighted_new_inv [OF assms(1,2)] assms(3) by (simp add: wb_inv_def)
  have groups: "set (wb_groups wb) = {g. \<exists>w > 0. (g, w) \<in> set targets}"
    using weighted_new_shares [OF assms(1,2)] assms(3) by (auto simp: image_iff)
  have none: "weighted_pick eligible wb = (wb, None)" if "\<forall>g \<in> set (wb_groups wb). \<not> eligible g"
    using that by (auto simp: weighted_pick_def list_ex_iff)
  note some = weighted_pick_eligible [OF inv, of _ eligible]
  show "(snd (weighted_pick eligible wb) = None) = (\<forall>g \<in> set (wb_groups wb). \<not> eligible g)"
    using none some by fastforce
  show "eligible h \<and> (\<exists>w > 0. (h, w) \<in> set targets)" if "snd (weighted_pick eligible wb) = Some h"
    using none some that groups by (cases "\<forall>g \<in> set (wb_groups wb). \<not> eligible g") fastforce+
  show "wb_table (fst (weighted_pick eligible wb)) = wb_table wb0"
    using assms(3) by (simp add: weighted_pick_def Let_def)
qed

theorem split_pick_eligible_witness:
  "\<exists>wb. weighted_new [(''stable'', 95), (''canary'', 5), (''old'', 0)] = Inr wb
     \<and> snd (weighted_pick (\<lambda>g. g \<noteq> ''canary'') (wb\<lparr>wb_cursor := 7\<rparr>)) = Some ''stable''"
proof -
  obtain wb where wb: "weighted_new [(''stable'', 95), (''canary'', 5), (''old'', 0)] = Inr wb"
    using split_5_95 by blast
  let ?el = "\<lambda>g. g \<noteq> ''canary''"
  have "wb_groups wb = [''stable'', ''canary'']" using weighted_new_shares [OF wb] by auto
  then have "snd (weighted_pick ?el (wb\<lparr>wb_cursor := 7\<rparr>)) \<noteq> None"
    using split_pick_eligible(1) [OF wb _ refl, of ?el 7] by simp
  then obtain h where h: "snd (weighted_pick ?el (wb\<lparr>wb_cursor := 7\<rparr>)) = Some h" by auto
  from split_pick_eligible(2) [OF wb _ refl this] have "h = ''stable''" by auto
  with h wb show ?thesis by blast
qed

end
