(* ===== verification/Net_Addr.thy ===== *)
theory Net_Addr
  imports Plecto_Prelude
begin

text \<open>
  Peer addresses and the coarsened key both per-client limiters hash on (\<open>ip_key_bytes\<close> of
  \<open>control/src/ratelimit.rs\<close> and \<open>server/src/conn_limit.rs\<close>).  An address is its octets.  The seeded
  hasher of the standard library is a parameter: a function from the key to a word.
\<close>

datatype ip_addr = V4 bytes | V6 bytes

definition ip_ok :: "ip_addr \<Rightarrow> bool" where
  "ip_ok a = (case a of V4 o4 \<Rightarrow> length o4 = 4 | V6 o6 \<Rightarrow> length o6 = 16)"

definition to_ipv4_mapped :: "bytes \<Rightarrow> bytes option" where
  "to_ipv4_mapped o6 =
     (if take 12 o6 = [0, 0, 0, 0, 0, 0, 0, 0, 0, 0, 0xFF, 0xFF] then Some (drop 12 o6) else None)"

definition unmap_v4 :: "ip_addr \<Rightarrow> ip_addr" where
  "unmap_v4 peer =
     (case peer of
        V6 o6 \<Rightarrow> (case to_ipv4_mapped o6 of Some o4 \<Rightarrow> V4 o4 | None \<Rightarrow> V6 o6)
      | V4 o4 \<Rightarrow> V4 o4)"

definition ip_key_bytes :: "ip_addr \<Rightarrow> bytes" where
  "ip_key_bytes peer =
     (case unmap_v4 peer of
        V4 o4 \<Rightarrow> take 4 o4 @ [0, 0, 0, 0]
      | V6 o6 \<Rightarrow> take 8 o6)"

definition IP_SLOTS :: nat where
  "IP_SLOTS = 2 ^ 16"

definition slot_for_ip :: "(bytes \<Rightarrow> u64) \<Rightarrow> nat \<Rightarrow> ip_addr \<Rightarrow> nat" where
  "slot_for_ip hasher len peer = unat (hasher (ip_key_bytes peer) AND (word_of_nat len - 1))"

lemma slot_for_ip_lt:
  assumes "0 < len" and "len < 2 ^ 64"
  shows "slot_for_ip hasher len peer < len"
proof -
  have u: "unat (word_of_nat len :: u64) = len"
    using assms(2) by (simp add: unsigned_of_nat take_bit_nat_eq_self)
  with assms(1) have "(word_of_nat len :: u64) \<noteq> 0" by auto
  from unat_minus_one [OF this] u have "unat (word_of_nat len - 1 :: u64) = len - 1" by simp
  moreover have "hasher (ip_key_bytes peer) AND (word_of_nat len - 1) \<le> word_of_nat len - 1"
    by (rule word_and_le1)
  ultimately show ?thesis using assms by (simp add: slot_for_ip_def word_le_nat_alt)
qed

text \<open>
  One client, one key.  An IPv4 client has the same key whether the listener reports it as an
  IPv4 or as a mapped IPv6 address, and all addresses of one /64 (that is not the mapped range) share a
  key, so rotating within it evades neither limiter.
\<close>

theorem ip_key_coarsening:
  assumes "length o4 = 4" and "length a = 16" and "length b = 16" and "take 8 a = take 8 b"
    and "to_ipv4_mapped a = None" and "to_ipv4_mapped b = None"
  shows "ip_key_bytes (V6 ([0, 0, 0, 0, 0, 0, 0, 0, 0, 0, 0xFF, 0xFF] @ o4)) = ip_key_bytes (V4 o4)"
    and "ip_key_bytes (V6 a) = ip_key_bytes (V6 b)"
  using assms by (auto simp: ip_key_bytes_def unmap_v4_def to_ipv4_mapped_def split: if_splits)

theorem ip_key_coarsening_witness:
  "ip_key_bytes (V6 [0x20, 1, 0, 0, 0, 0, 0, 1, 9, 9, 9, 9, 9, 9, 9, 9])
     = ip_key_bytes (V6 [0x20, 1, 0, 0, 0, 0, 0, 1, 7, 7, 7, 7, 7, 7, 7, 7])"
  by (rule ip_key_coarsening(2) [of "[1, 2, 3, 4]"]) (simp_all add: to_ipv4_mapped_def)

text \<open>
  Keys of the two families overlap.  The key of an IPv4 address is also the key of every IPv6 address
  whose first four octets are that address and whose next four are zero, so whatever the hasher's
  seed, such a pair shares one slot.
\<close>

theorem ip_key_family_collision:
  assumes "length o4 = 4" and "length rest = 8" and "o4 \<noteq> [0, 0, 0, 0]"
  shows "slot_for_ip hasher len (V6 (o4 @ [0, 0, 0, 0] @ rest)) = slot_for_ip hasher len (V4 o4)"
proof -
  obtain a b c d where o4: "o4 = [a, b, c, d]"
    using assms(1) by (auto simp: numeral_eq_Suc length_Suc_conv)
  show ?thesis
    using assms(3) by (auto simp: slot_for_ip_def ip_key_bytes_def unmap_v4_def to_ipv4_mapped_def o4)
qed

theorem ip_key_family_collision_witness:
  "slot_for_ip of_le_bytes IP_SLOTS (V6 [0x20, 1, 0x0D, 0xB8, 0, 0, 0, 0, 0, 0, 0, 0, 0, 0, 0, 1])
     = slot_for_ip of_le_bytes IP_SLOTS (V4 [0x20, 1, 0x0D, 0xB8])"
  using ip_key_family_collision [of "[0x20, 1, 0x0D, 0xB8]" "[0, 0, 0, 0, 0, 0, 0, 1]" of_le_bytes IP_SLOTS] by simp

end
