(* ===== verification/Upstream_Group.thy ===== *)
theory Upstream_Group
  imports Upstream_Instance Split_Mix Weighted Net_Addr
begin

text \<open>
  Upstream groups and instance selection (\<open>control/src/upstream/mod.rs\<close>, \<open>lb.rs\<close>).  Instances are
  shared: groups, picks and load guards of the source hold \<open>Arc\<close>s to them, so the model keeps them in
  a heap, a list indexed by identity, and an \<open>Arc\<close> is an index (\<open>Arc::ptr_eq\<close> is equality of indices).
  The clock is an argument, read once per pick; the worker's generator state is passed along.  A pick
  that would never return is \<open>None\<close>; the theorems show that none does.  The rustls client configuration of
  a group is a handle (its \<open>Arc\<close> identity), its verification name a string.
\<close>

type_synonym heap = "backend_instance list"
type_synonym inst_id = nat

datatype hash_key_source = HeaderKey string | SourceIpKey

datatype hash_input = HashBytes bytes | HashIp ip_addr

definition hash_of_input :: "hash_input \<Rightarrow> u64" where
  "hash_of_input k =
     (case k of
        HashBytes b \<Rightarrow> hash64 b
      | HashIp (V4 a) \<Rightarrow> hash64 a
      | HashIp (V6 a) \<Rightarrow> hash64 a)"

datatype lb_state = LbRoundRobin | LbLeastRequest | LbMaglev "u16 list"

record endpoints =
  ep_instances :: "inst_id list"
  ep_lb :: lb_state

record upstream_group =
  ug_name :: string
  ug_health :: health_config
  ug_endpoints :: endpoints
  ug_configured :: "(string \<times> u32) list"
  ug_resolve_interval :: u64
  ug_lb_algorithm :: lb_algorithm
  ug_maglev_table_size :: nat
  ug_request_timeout :: u64
  ug_overall_timeout :: u64
  ug_max_retries :: u64
  ug_rr :: usize
  ug_max_requests :: usize
  ug_in_flight :: usize
  ug_outlier_consecutive :: u32
  ug_outlier_base_ejection :: u64
  ug_outlier_max_ejection_percent :: u32
  ug_hash_key :: "hash_key_source option"
  ug_tls_manifest :: "upstream_tls option"
  ug_tls_client :: "nat option"
  ug_tls_sni :: "string option"

definition endpoints_build :: "heap \<Rightarrow> inst_id list \<Rightarrow> lb_algorithm \<Rightarrow> nat \<Rightarrow> endpoints option" where
  "endpoints_build hp ids algorithm table_size =
     (case algorithm of
        RoundRobin \<Rightarrow> Some \<lparr>ep_instances = ids, ep_lb = LbRoundRobin\<rparr>
      | LeastRequest \<Rightarrow> Some \<lparr>ep_instances = ids, ep_lb = LbLeastRequest\<rparr>
      | MaglevHash \<Rightarrow>
          (let entries = map (\<lambda>i. (address_bytes (i_address (hp ! i)), i_weight (hp ! i))) ids
           in map_option (\<lambda>t. \<lparr>ep_instances = ids, ep_lb = LbMaglev t\<rparr>) (maglev_build entries table_size)))"

subsection \<open>Picks\<close>

record pick =
  pk_instance :: inst_id
  pk_load :: "inst_id option"

definition unmetered_pick :: "inst_id \<Rightarrow> pick" where
  "unmetered_pick i = \<lparr>pk_instance = i, pk_load = None\<rparr>"

definition metered_pick :: "heap \<Rightarrow> inst_id \<Rightarrow> heap \<times> pick" where
  "metered_pick hp i =
     (hp[i := (hp ! i)\<lparr>i_in_flight := i_in_flight (hp ! i) + 1\<rparr>], \<lparr>pk_instance = i, pk_load = Some i\<rparr>)"

text \<open>Dropping the load guard of a pick.\<close>

definition drop_pick :: "heap \<Rightarrow> pick \<Rightarrow> heap" where
  "drop_pick hp p =
     (case pk_load p of
        None \<Rightarrow> hp
      | Some i \<Rightarrow> hp[i := (hp ! i)\<lparr>i_in_flight := i_in_flight (hp ! i) - 1\<rparr>])"

definition lower_load :: "heap \<Rightarrow> inst_id \<Rightarrow> inst_id \<Rightarrow> bool" where
  "lower_load hp a b \<longleftrightarrow>
     (unat (i_in_flight (hp ! a)) + 1) * unat (i_weight (hp ! b))
       \<le> (unat (i_in_flight (hp ! b)) + 1) * unat (i_weight (hp ! a))"

definition outlier_enabled :: "upstream_group \<Rightarrow> bool" where
  "outlier_enabled g \<longleftrightarrow> ug_outlier_consecutive g > 0"

definition eligibility_ctx :: "upstream_group \<Rightarrow> u64 \<Rightarrow> bool \<times> u64" where
  "eligibility_ctx g now = (outlier_enabled g, if outlier_enabled g then now else 0)"

definition is_eligible :: "heap \<Rightarrow> bool \<times> u64 \<Rightarrow> inst_id option \<Rightarrow> inst_id \<Rightarrow> bool" where
  "is_eligible hp ctx exclude i \<longleftrightarrow>
     is_healthy (hp ! i) \<and> (\<not> fst ctx \<or> \<not> is_outlier_ejected (hp ! i) (snd ctx))
     \<and> (case exclude of None \<Rightarrow> True | Some ex \<Rightarrow> i \<noteq> ex)"

fun rr_scan :: "(inst_id \<Rightarrow> bool) \<Rightarrow> nat \<Rightarrow> nat \<Rightarrow> inst_id option \<Rightarrow> inst_id list \<Rightarrow> inst_id option" where
  "rr_scan ok target seen last_ok [] = last_ok"
| "rr_scan ok target seen last_ok (i # is) =
     (if ok i then (if seen = target then Some i else rr_scan ok target (seen + 1) (Some i) is)
      else rr_scan ok target seen last_ok is)"

definition round_robin_pick ::
    "heap \<Rightarrow> u64 \<Rightarrow> upstream_group \<Rightarrow> inst_id list \<Rightarrow> inst_id option \<Rightarrow> upstream_group \<times> pick option" where
  "round_robin_pick hp now g ids exclude =
     (let ok = is_eligible hp (eligibility_ctx g now) exclude;
          eligible = length (filter ok ids)
      in if eligible = 0 then (g, None)
         else let target = unat (ug_rr g) mod eligible
              in (g\<lparr>ug_rr := ug_rr g + 1\<rparr>, map_option unmetered_pick (rr_scan ok target 0 None ids)))"

fun lr_scan ::
    "(inst_id \<Rightarrow> bool) \<Rightarrow> u32 \<Rightarrow> u32 \<Rightarrow> u32 \<Rightarrow> inst_id option \<times> inst_id option \<Rightarrow> inst_id list
       \<Rightarrow> inst_id option \<times> inst_id option" where
  "lr_scan ok lo hi seen cand [] = cand"
| "lr_scan ok lo hi seen cand (i # is) =
     (if ok i
      then lr_scan ok lo hi (seen + 1)
             (if seen = lo then Some i else fst cand, if seen = hi then Some i else snd cand) is
      else lr_scan ok lo hi seen cand is)"

definition least_request_pick ::
    "heap \<Rightarrow> u64 \<Rightarrow> u64 \<Rightarrow> upstream_group \<Rightarrow> inst_id list \<Rightarrow> inst_id option
       \<Rightarrow> (upstream_group \<times> heap \<times> u64 \<times> pick option) option" where
  "least_request_pick hp rng now g ids exclude =
     (let ok = is_eligible hp (eligibility_ctx g now) exclude;
          n = length (filter ok ids);
          fallback = (case round_robin_pick hp now g ids exclude of (g', p) \<Rightarrow> (g', hp, p))
      in if n = 0 then Some (g, hp, rng, None)
         else if n = 1 then
           (case List.find ok ids of
              None \<Rightarrow> (case fallback of (g', hp', p) \<Rightarrow> Some (g', hp', rng, p))
            | Some only \<Rightarrow> (case metered_pick hp only of (hp', p) \<Rightarrow> Some (g, hp', rng, Some p)))
         else
           (case two_distinct_below (word_of_nat n) rng of
              None \<Rightarrow> None
            | Some (rng', a, b) \<Rightarrow>
                let (lo, hi) = (if a \<le> b then (a, b) else (b, a))
                in (case lr_scan ok lo hi 0 (None, None) ids of
                      (Some cand_lo, Some cand_hi) \<Rightarrow>
                        (let (x, y) = (if a \<le> b then (cand_lo, cand_hi) else (cand_hi, cand_lo));
                             chosen = (if lower_load hp x y then x else y)
                         in case metered_pick hp chosen of (hp', p) \<Rightarrow> Some (g, hp', rng', Some p))
                    | _ \<Rightarrow> (case fallback of (g', hp', p) \<Rightarrow> Some (g', hp', rng', p)))))"

definition maglev_target ::
    "heap \<Rightarrow> u64 \<Rightarrow> upstream_group \<Rightarrow> u16 list \<Rightarrow> inst_id list \<Rightarrow> inst_id option \<Rightarrow> hash_input option \<Rightarrow> inst_id option" where
  "maglev_target hp now g table ids exclude key =
     (case key of
        None \<Rightarrow> None
      | Some k \<Rightarrow>
          (case maglev_lookup table (hash_of_input k) of
             None \<Rightarrow> None
           | Some idx \<Rightarrow>
               if idx < length ids \<and> is_eligible hp (eligibility_ctx g now) exclude (ids ! idx)
               then Some (ids ! idx) else None))"

definition maglev_pick ::
    "heap \<Rightarrow> u64 \<Rightarrow> upstream_group \<Rightarrow> u16 list \<Rightarrow> inst_id list \<Rightarrow> inst_id option \<Rightarrow> hash_input option
       \<Rightarrow> upstream_group \<times> pick option" where
  "maglev_pick hp now g table ids exclude key =
     (case maglev_target hp now g table ids exclude key of
        Some i \<Rightarrow> (g, Some (unmetered_pick i))
      | None \<Rightarrow> round_robin_pick hp now g ids exclude)"

definition pick_dispatch ::
    "heap \<Rightarrow> u64 \<Rightarrow> u64 \<Rightarrow> upstream_group \<Rightarrow> inst_id option \<Rightarrow> hash_input option
       \<Rightarrow> (upstream_group \<times> heap \<times> u64 \<times> pick option) option" where
  "pick_dispatch hp rng now g exclude key =
     (let ids = ep_instances (ug_endpoints g)
      in case ep_lb (ug_endpoints g) of
           LbRoundRobin \<Rightarrow> (case round_robin_pick hp now g ids exclude of (g', p) \<Rightarrow> Some (g', hp, rng, p))
         | LbLeastRequest \<Rightarrow> least_request_pick hp rng now g ids exclude
         | LbMaglev table \<Rightarrow> (case maglev_pick hp now g table ids exclude key of (g', p) \<Rightarrow> Some (g', hp, rng, p)))"

definition group_pick ::
    "heap \<Rightarrow> u64 \<Rightarrow> u64 \<Rightarrow> upstream_group \<Rightarrow> hash_input option \<Rightarrow> (upstream_group \<times> heap \<times> u64 \<times> pick option) option" where
  "group_pick hp rng now g key = pick_dispatch hp rng now g None key"

definition pick_excluding ::
    "heap \<Rightarrow> u64 \<Rightarrow> u64 \<Rightarrow> upstream_group \<Rightarrow> inst_id \<Rightarrow> hash_input option
       \<Rightarrow> (upstream_group \<times> heap \<times> u64 \<times> pick option) option" where
  "pick_excluding hp rng now g exclude key = pick_dispatch hp rng now g (Some exclude) key"

definition has_eligible :: "heap \<Rightarrow> u64 \<Rightarrow> upstream_group \<Rightarrow> bool" where
  "has_eligible hp now g =
     (case eligibility_ctx g now of
        (check_outlier, now_ms) \<Rightarrow>
          list_ex (\<lambda>i. is_healthy (hp ! i) \<and> (\<not> check_outlier \<or> \<not> is_outlier_ejected (hp ! i) now_ms))
            (ep_instances (ug_endpoints g)))"

lemma find_filter_hd: "filter P xs = [x] \<Longrightarrow> List.find P xs = Some x"
  by (induction xs) (auto split: if_splits)

subsection \<open>Round robin\<close>

lemma rr_scan_nth:
  assumes "target < seen + length (filter ok ids)" and "seen \<le> target"
  shows "rr_scan ok target seen l ids = Some (filter ok ids ! (target - seen))"
  using assms
proof (induction ids arbitrary: seen l)
  case (Cons i ids)
  then show ?case by (cases "seen = target") (auto simp: nth_Cons' Suc_diff_le)
qed simp

lemma round_robin_pick_eq:
  fixes hp now g ids exclude
  defines "el \<equiv> filter (is_eligible hp (eligibility_ctx g now) exclude) ids"
  shows "round_robin_pick hp now g ids exclude =
     (if el = [] then (g, None)
      else (g\<lparr>ug_rr := ug_rr g + 1\<rparr>, Some (unmetered_pick (el ! (unat (ug_rr g) mod length el)))))"
  using rr_scan_nth [of "unat (ug_rr g) mod length el" 0 "is_eligible hp (eligibility_ctx g now) exclude" ids None]
  by (auto simp: round_robin_pick_def Let_def el_def)

subsection \<open>Least request\<close>

lemma lr_scan_nth:
  assumes "unat seen + length (filter ok ids) < 2 ^ 32"
  shows "lr_scan ok lo hi seen cand ids =
     (if unat seen \<le> unat lo \<and> unat lo < unat seen + length (filter ok ids)
      then Some (filter ok ids ! (unat lo - unat seen)) else fst cand,
      if unat seen \<le> unat hi \<and> unat hi < unat seen + length (filter ok ids)
      then Some (filter ok ids ! (unat hi - unat seen)) else snd cand)"
  using assms
proof (induction ids arbitrary: seen cand)
  case (Cons i ids)
  show ?case
  proof (cases "ok i")
    case True
    then have "unat (seen + 1) = Suc (unat seen)" using Cons.prems by (simp add: unat_word_ariths)
    with True Cons show ?thesis
      by (auto simp: nth_Cons' word_unat_eq_iff Suc_le_eq not_less less_Suc_eq_le intro!: arg_cong2 [where f = nth])
  qed (use Cons in simp)
next
  case Nil
  then show ?case by auto
qed

lemma two_distinct_nat:
  assumes "2 \<le> n" and "n < 2 ^ 32"
  shows "\<exists>st' i j. two_distinct_below (word_of_nat n) st = Some (st', i, j) \<and> unat i < n \<and> unat j < n \<and> i \<noteq> j"
proof -
  have n: "unat (word_of_nat n :: u32) = n" using assms(2) by (simp add: unsigned_of_nat take_bit_nat_eq_self)
  then have "(2 :: u32) \<le> word_of_nat n" using assms(1) by (simp add: word_le_nat_alt)
  from two_distinct_draw [OF this, of st] show ?thesis by (auto simp: word_less_nat_alt n)
qed

lemma least_request_eq:
  fixes hp now g ids exclude
  defines "el \<equiv> filter (is_eligible hp (eligibility_ctx g now) exclude) ids"
  assumes "length el < 2 ^ 32" and "2 \<le> length el"
    and "two_distinct_below (word_of_nat (length el)) rng = Some (rng', a, b)"
    and "unat a < length el" and "unat b < length el"
  shows "least_request_pick hp rng now g ids exclude =
     (case metered_pick hp (if lower_load hp (el ! unat a) (el ! unat b) then el ! unat a else el ! unat b) of
        (hp', p) \<Rightarrow> Some (g, hp', rng', Some p))"
proof -
  let ?ok = "is_eligible hp (eligibility_ctx g now) exclude"
  have scan: "lr_scan ?ok lo hi 0 (None, None) ids = (Some (el ! unat lo), Some (el ! unat hi))"
    if "unat lo < length el" "unat hi < length el" for lo hi
    using lr_scan_nth [of 0 ?ok ids lo hi "(None, None)"] assms(2) that by (simp add: el_def [symmetric])
  have "length el \<noteq> 0" "length el \<noteq> 1" using assms(3) by auto
  then show ?thesis
    unfolding least_request_pick_def Let_def el_def [symmetric]
    using assms(4) scan [OF assms(5,6)] scan [OF assms(6,5)] by (cases "a \<le> b") simp_all
qed

text \<open>What a pick promises about the eligible instances \<open>el\<close> it selects from.\<close>

definition pick_promise ::
    "heap \<Rightarrow> inst_id list \<Rightarrow> (upstream_group \<times> heap \<times> u64 \<times> pick option) option \<Rightarrow> bool" where
  "pick_promise hp el r \<longleftrightarrow>
     (\<exists>g' hp' rng' p. r = Some (g', hp', rng', p)
        \<and> (p = None \<longleftrightarrow> el = [])
        \<and> (p = None \<longrightarrow> hp' = hp)
        \<and> (\<forall>q. p = Some q \<longrightarrow> pk_instance q \<in> set el \<and> drop_pick hp' q = hp
             \<and> (pk_load q = None \<longrightarrow> hp' = hp) \<and> (\<forall>l. pk_load q = Some l \<longrightarrow> l = pk_instance q)))"

lemma drop_unmetered [simp]: "drop_pick hp (unmetered_pick i) = hp"
  by (simp add: drop_pick_def unmetered_pick_def)

lemma drop_metered: "i < length hp \<Longrightarrow> drop_pick (fst (metered_pick hp i)) (snd (metered_pick hp i)) = hp"
  by (simp add: drop_pick_def metered_pick_def)

lemma promise_unmetered: "i \<in> set el \<Longrightarrow> pick_promise hp el (Some (g, hp, rng, Some (unmetered_pick i)))"
  by (auto simp: pick_promise_def) (simp_all add: unmetered_pick_def)

lemma promise_metered:
  "i \<in> set el \<Longrightarrow> i < length hp \<Longrightarrow>
     pick_promise hp el (case metered_pick hp i of (hp', p) \<Rightarrow> Some (g, hp', rng, Some p))"
  using drop_metered [of i hp] by (auto simp: pick_promise_def metered_pick_def)

lemma promise_round_robin:
  fixes hp now g ids exclude
  defines "el \<equiv> filter (is_eligible hp (eligibility_ctx g now) exclude) ids"
  shows "pick_promise hp el (case round_robin_pick hp now g ids exclude of (g', p) \<Rightarrow> Some (g', hp, rng, p))"
  unfolding round_robin_pick_eq el_def [symmetric]
  by (cases "el = []") (auto simp: pick_promise_def unmetered_pick_def drop_pick_def)

lemma promise_least_request:
  fixes hp now g ids exclude
  defines "el \<equiv> filter (is_eligible hp (eligibility_ctx g now) exclude) ids"
  assumes "length ids < 2 ^ 32" and "\<forall>i \<in> set ids. i < length hp"
  shows "pick_promise hp el (least_request_pick hp rng now g ids exclude)"
proof -
  let ?ok = "is_eligible hp (eligibility_ctx g now) exclude"
  have el_heap: "i < length hp" if "i \<in> set el" for i using that assms(3) by (auto simp: el_def)
  have len: "length el < 2 ^ 32" unfolding el_def by (rule le_less_trans [OF length_filter_le assms(2)])
  consider (none) "length el = 0" | (one) "length el = 1" | (many) "2 \<le> length el" by linarith
  then show ?thesis
  proof cases
    case none
    then show ?thesis by (simp add: least_request_pick_def Let_def el_def [symmetric] pick_promise_def)
  next
    case one
    then obtain i where i: "el = [i]" by (cases el) auto
    then have "List.find ?ok ids = Some i" by (metis el_def find_filter_hd)
    with one i show ?thesis
      using promise_metered [of i el hp g rng] el_heap [of i]
      by (simp add: least_request_pick_def Let_def el_def [symmetric])
  next
    case many
    obtain rng' a b where ab: "two_distinct_below (word_of_nat (length el)) rng = Some (rng', a, b)"
        "unat a < length el" "unat b < length el"
      using two_distinct_nat [OF many len] by blast
    let ?i = "if lower_load hp (el ! unat a) (el ! unat b) then el ! unat a else el ! unat b"
    have i: "?i \<in> set el" using ab by simp
    show ?thesis
      unfolding least_request_eq [OF len [unfolded el_def] many [unfolded el_def] ab [unfolded el_def], folded el_def]
      by (rule promise_metered [OF i el_heap [OF i]])
  qed
qed

lemma promise_maglev:
  fixes hp now g ids exclude
  defines "el \<equiv> filter (is_eligible hp (eligibility_ctx g now) exclude) ids"
  shows "pick_promise hp el (case maglev_pick hp now g table ids exclude key of (g', p) \<Rightarrow> Some (g', hp, rng, p))"
proof (cases "maglev_target hp now g table ids exclude key")
  case None
  then show ?thesis
    using promise_round_robin [of hp g now exclude ids rng] by (simp add: maglev_pick_def el_def)
next
  case (Some i)
  then have "i \<in> set el"
    by (auto simp: maglev_target_def el_def split: option.splits if_splits)
  with Some show ?thesis by (simp add: maglev_pick_def promise_unmetered)
qed

definition group_ok :: "heap \<Rightarrow> upstream_group \<Rightarrow> bool" where
  "group_ok hp g \<longleftrightarrow> (\<forall>i \<in> set (ep_instances (ug_endpoints g)). i < length hp)
     \<and> length (ep_instances (ug_endpoints g)) < 2 ^ 32"

definition eligible_ids :: "heap \<Rightarrow> u64 \<Rightarrow> upstream_group \<Rightarrow> inst_id option \<Rightarrow> inst_id list" where
  "eligible_ids hp now g exclude =
     filter (is_eligible hp (eligibility_ctx g now) exclude) (ep_instances (ug_endpoints g))"

lemma promise_dispatch:
  "group_ok hp g \<Longrightarrow> pick_promise hp (eligible_ids hp now g exclude) (pick_dispatch hp rng now g exclude key)"
  by (cases "ep_lb (ug_endpoints g)")
    (simp_all add: pick_dispatch_def eligible_ids_def group_ok_def promise_round_robin promise_least_request promise_maglev)

subsection \<open>Eligibility and picks agree\<close>

definition chosen_instance :: "heap \<Rightarrow> u64 \<Rightarrow> u64 \<Rightarrow> hash_input option \<Rightarrow> upstream_group \<Rightarrow> inst_id option" where
  "chosen_instance hp rng now key g =
     (case group_pick hp rng now g key of
        None \<Rightarrow> None
      | Some (_, _, _, p) \<Rightarrow> map_option pk_instance p)"

lemma has_eligible_iff: "has_eligible hp now g \<longleftrightarrow> eligible_ids hp now g None \<noteq> []"
  by (simp add: has_eligible_def eligible_ids_def is_eligible_def eligibility_ctx_def list_ex_iff filter_empty_conv)

lemma chosen_instance_iff:
  assumes "group_ok hp g"
  shows "has_eligible hp now g \<longleftrightarrow> chosen_instance hp rng now key g \<noteq> None"
proof -
  obtain g' hp' rng' p where "pick_dispatch hp rng now g None key = Some (g', hp', rng', p)"
      "p = None \<longleftrightarrow> eligible_ids hp now g None = []"
    using promise_dispatch [OF assms, of now None rng key] unfolding pick_promise_def by blast
  then show ?thesis
    by (cases p) (simp_all add: has_eligible_iff chosen_instance_def group_pick_def)
qed

interpretation lb: balancer "group_ok hp" "has_eligible hp now" "chosen_instance hp rng now key" for hp now rng key
  by unfold_locales (rule chosen_instance_iff)

subsection \<open>Properties\<close>

text \<open>
  C34: Every pick returns, and is right.  For each of the three algorithms, whatever the clock, the
  generator state, the hash key and the excluded instance: the pick finds an instance exactly when one
  is eligible, and the instance it finds belongs to the group, is healthy, is not outlier-ejected
  while detection is on, and is not the excluded one.
\<close>

theorem pick_sound_and_complete:
  assumes "group_ok hp g"
  shows "\<exists>g' hp' rng' p. pick_dispatch hp rng now g exclude key = Some (g', hp', rng', p)
     \<and> (p = None \<longleftrightarrow> (\<forall>i \<in> set (ep_instances (ug_endpoints g)). \<not> is_eligible hp (eligibility_ctx g now) exclude i))
     \<and> (\<forall>q. p = Some q \<longrightarrow> pk_instance q \<in> set (ep_instances (ug_endpoints g))
          \<and> is_healthy (hp ! pk_instance q) \<and> exclude \<noteq> Some (pk_instance q)
          \<and> (outlier_enabled g \<longrightarrow> \<not> is_outlier_ejected (hp ! pk_instance q) now))"
proof -
  obtain g' hp' rng' p where p: "pick_dispatch hp rng now g exclude key = Some (g', hp', rng', p)"
      "p = None \<longleftrightarrow> eligible_ids hp now g exclude = []"
      "\<forall>q. p = Some q \<longrightarrow> pk_instance q \<in> set (eligible_ids hp now g exclude)"
    using promise_dispatch [OF assms, of now exclude rng key] unfolding pick_promise_def by blast
  have "\<forall>q. p = Some q \<longrightarrow> pk_instance q \<in> set (ep_instances (ug_endpoints g))
          \<and> is_healthy (hp ! pk_instance q) \<and> exclude \<noteq> Some (pk_instance q)
          \<and> (outlier_enabled g \<longrightarrow> \<not> is_outlier_ejected (hp ! pk_instance q) now)"
    using p(3) by (auto simp: eligible_ids_def is_eligible_def eligibility_ctx_def)
  moreover have "eligible_ids hp now g exclude = [] \<longleftrightarrow>
      (\<forall>i \<in> set (ep_instances (ug_endpoints g)). \<not> is_eligible hp (eligibility_ctx g now) exclude i)"
    by (simp add: eligible_ids_def filter_empty_conv)
  ultimately show ?thesis using p(1,2) by blast
qed

definition sample_group :: upstream_group where
  "sample_group =
     \<lparr>ug_name = ''api'', ug_health = up_health sample_upstream,
      ug_endpoints = \<lparr>ep_instances = [0, 1], ep_lb = LbLeastRequest\<rparr>, ug_configured = [(''a:1'', 1), (''b:1'', 3)],
      ug_resolve_interval = 0, ug_lb_algorithm = LeastRequest, ug_maglev_table_size = 65537,
      ug_request_timeout = 30000, ug_overall_timeout = 0, ug_max_retries = 1, ug_rr = 0, ug_max_requests = 2,
      ug_in_flight = 0, ug_outlier_consecutive = 5, ug_outlier_base_ejection = 30000,
      ug_outlier_max_ejection_percent = 50, ug_hash_key = None, ug_tls_manifest = None,
      ug_tls_client = None, ug_tls_sni = None\<rparr>"

definition sample_heap :: heap where
  "sample_heap = map (\<lambda>(a, w). record_probe_success (instance_new a w (up_health sample_upstream)))
     [(''a:1'', 1), (''b:1'', 3)]"

lemma sample_group_ok: "group_ok sample_heap sample_group"
  by (simp add: group_ok_def sample_group_def sample_heap_def)

theorem pick_sound_and_complete_witness:
  "\<exists>g' hp' rng' p. pick_dispatch sample_heap 0 7 sample_group (Some 0) None = Some (g', hp', rng', p)
     \<and> (p = None \<longleftrightarrow> (\<forall>i \<in> set (ep_instances (ug_endpoints sample_group)).
          \<not> is_eligible sample_heap (eligibility_ctx sample_group 7) (Some 0) i))
     \<and> (\<forall>q. p = Some q \<longrightarrow> pk_instance q \<in> set (ep_instances (ug_endpoints sample_group))
          \<and> is_healthy (sample_heap ! pk_instance q) \<and> Some 0 \<noteq> Some (pk_instance q)
          \<and> (outlier_enabled sample_group \<longrightarrow> \<not> is_outlier_ejected (sample_heap ! pk_instance q) 7))"
  by (rule pick_sound_and_complete [OF sample_group_ok])

text \<open>
  A traffic split over upstream groups serves whenever it can.  The split's schedule and the
  groups' own load balancers together find an instance exactly when some group of the split has an
  eligible instance.
\<close>

theorem split_over_groups_serves:
  assumes "weighted_new targets = Inr wb" and "length targets < 2 ^ 16"
    and "\<forall>g \<in> set (wb_groups wb). group_ok hp g"
  shows "(\<exists>g i. snd (weighted_pick (has_eligible hp now) wb) = Some g \<and> chosen_instance hp rng now key g = Some i)
           \<longleftrightarrow> (\<exists>g \<in> set (wb_groups wb). has_eligible hp now g)"
  using lb.split_serves [OF weighted_new_inv [OF assms(1,2)] assms(3), of now rng key] assms(3) chosen_instance_iff
  by blast

lemma sample_split: "\<exists>wb. weighted_new [(sample_group, 1)] = Inr wb \<and> wb_groups wb = [sample_group]"
  by (simp add: weighted_new_def validate_split_def MAX_BACKEND_WEIGHT_def MAX_TABLE_LEN_def Let_def)

theorem split_over_groups_serves_witness:
  "\<exists>wb. weighted_new [(sample_group, 1)] = Inr wb
     \<and> ((\<exists>g i. snd (weighted_pick (has_eligible sample_heap 7) wb) = Some g \<and> chosen_instance sample_heap 0 7 None g = Some i)
           \<longleftrightarrow> (\<exists>g \<in> set (wb_groups wb). has_eligible sample_heap 7 g))"
proof -
  obtain wb where wb: "weighted_new [(sample_group, 1)] = Inr wb" "wb_groups wb = [sample_group]"
    using sample_split by blast
  with split_over_groups_serves [OF wb(1), of sample_heap 7 0 None] sample_group_ok show ?thesis by auto
qed

fun rr_run :: "heap \<Rightarrow> u64 \<Rightarrow> upstream_group \<Rightarrow> nat \<Rightarrow> pick option list" where
  "rr_run hp now g 0 = []"
| "rr_run hp now g (Suc n) =
     (case round_robin_pick hp now g (ep_instances (ug_endpoints g)) None of
        (g', p) \<Rightarrow> p # rr_run hp now g' n)"

lemma eligible_ids_rr [simp]: "eligible_ids hp now (g\<lparr>ug_rr := r\<rparr>) ex = eligible_ids hp now g ex"
  by (simp add: eligible_ids_def eligibility_ctx_def outlier_enabled_def)

lemma rr_run_eq:
  fixes hp now g
  defines "el \<equiv> eligible_ids hp now g None"
  assumes "el \<noteq> []" and "unat (ug_rr g) + n \<le> 2 ^ 64 - 1"
  shows "rr_run hp now g n = map (\<lambda>k. Some (unmetered_pick (el ! ((unat (ug_rr g) + k) mod length el)))) [0..<n]"
  using assms(2,3) unfolding el_def
proof (induction n arbitrary: g)
  case (Suc n)
  let ?g = "g\<lparr>ug_rr := ug_rr g + 1\<rparr>"
  have succ: "unat (ug_rr ?g) = Suc (unat (ug_rr g))"
    using Suc.prems(2) by (simp add: unat_word_ariths)
  have "round_robin_pick hp now g (ep_instances (ug_endpoints g)) None =
      (?g, Some (unmetered_pick (eligible_ids hp now g None ! (unat (ug_rr g) mod length (eligible_ids hp now g None)))))"
    using Suc.prems(1) by (simp add: round_robin_pick_eq eligible_ids_def)
  moreover have "rr_run hp now ?g n = map (\<lambda>k. Some (unmetered_pick
      (eligible_ids hp now g None ! ((Suc (unat (ug_rr g)) + k) mod length (eligible_ids hp now g None))))) [0..<n]"
    using Suc.IH [of ?g] Suc.prems succ by simp
  ultimately show ?case
    by (simp add: upt_conv_Cons map_Suc_upt [symmetric] del: upt_Suc)
qed simp

text \<open>
  Round-robin is fair on the eligible set.  With \<open>n\<close> eligible instances that stay eligible, the
  picks of \<open>n\<close> consecutive requests are a rotation of the list of eligible instances, whatever the
  cursor: each is chosen exactly once, and an ineligible one is never given a slot.
\<close>

theorem round_robin_fair:
  assumes "eligible_ids hp now g None \<noteq> []"
    and "unat (ug_rr g) + length (eligible_ids hp now g None) \<le> 2 ^ 64 - 1"
  shows "map (\<lambda>p. map_option pk_instance p) (rr_run hp now g (length (eligible_ids hp now g None)))
           = map Some (rotate (unat (ug_rr g)) (eligible_ids hp now g None))"
  unfolding rr_run_eq [OF assms]
  by (rule nth_equalityI) (simp_all add: unmetered_pick_def nth_rotate)

theorem round_robin_fair_witness:
  "map (\<lambda>p. map_option pk_instance p) (rr_run sample_heap 7 (sample_group\<lparr>ug_rr := 1\<rparr>) 2) = [Some 1, Some 0]"
proof -
  have "eligible_ids sample_heap 7 (sample_group\<lparr>ug_rr := 1\<rparr>) None = [0, 1]"
    by (simp add: eligible_ids_def is_eligible_def eligibility_ctx_def outlier_enabled_def sample_group_def
        sample_heap_def is_healthy_def is_outlier_ejected_def record_probe_success_def instance_new_def Let_def
        sat_add_def word_le_nat_alt)
  note el = this
  have "unat (ug_rr (sample_group\<lparr>ug_rr := 1\<rparr>)) + length [0 :: nat, 1] \<le> 2 ^ 64 - 1" by simp
  with round_robin_fair [of sample_heap 7 "sample_group\<lparr>ug_rr := 1\<rparr>", unfolded el]
  have "map (\<lambda>p. map_option pk_instance p) (rr_run sample_heap 7 (sample_group\<lparr>ug_rr := 1\<rparr>) (length [0 :: nat, 1]))
      = [Some 1, Some 0]" by simp
  moreover have "length [0 :: nat, 1] = 2" by simp
  ultimately show ?thesis by (simp only:)
qed

text \<open>
  Least-request weighs the sampled pair.  With two or more eligible instances the pick draws two
  different ones and forwards to the one whose \<open>(in_flight + 1) / weight\<close> is not greater; its active count
  is raised by the pick and dropping the pick restores the heap exactly, so no load leaks.
\<close>

theorem least_request_power_of_two:
  assumes "ep_lb (ug_endpoints g) = LbLeastRequest" and "group_ok hp g"
    and "2 \<le> length (eligible_ids hp now g exclude)" and "distinct (ep_instances (ug_endpoints g))"
  shows "\<exists>rng' x y hp' q. x \<in> set (eligible_ids hp now g exclude) \<and> y \<in> set (eligible_ids hp now g exclude) \<and> x \<noteq> y
     \<and> pick_dispatch hp rng now g exclude key = Some (g, hp', rng', Some q)
     \<and> pk_instance q = x \<and> lower_load hp x y
     \<and> unat (i_in_flight (hp' ! x)) mod 2 ^ 64 = (unat (i_in_flight (hp ! x)) + 1) mod 2 ^ 64 \<and> drop_pick hp' q = hp"
proof -
  let ?el = "eligible_ids hp now g exclude"
  have len: "length ?el < 2 ^ 32"
    using assms(2) le_less_trans [OF length_filter_le] by (auto simp: eligible_ids_def group_ok_def)
  obtain rng' a b where ab: "two_distinct_below (word_of_nat (length ?el)) rng = Some (rng', a, b)"
      "unat a < length ?el" "unat b < length ?el" "a \<noteq> b"
    using two_distinct_nat [OF assms(3) len] by blast
  have dist: "distinct ?el" using assms(4) by (simp add: eligible_ids_def)
  define x y where "x = (if lower_load hp (?el ! unat a) (?el ! unat b) then ?el ! unat a else ?el ! unat b)"
    and "y = (if lower_load hp (?el ! unat a) (?el ! unat b) then ?el ! unat b else ?el ! unat a)"
  have ne: "x \<noteq> y" using ab dist by (auto simp: x_def y_def nth_eq_iff_index_eq word_unat_eq_iff)
  have mem: "x \<in> set ?el" "y \<in> set ?el" using ab by (auto simp: x_def y_def)
  have low: "lower_load hp x y" by (auto simp: x_def y_def lower_load_def)
  have xh: "x < length hp" using mem(1) assms(2) by (auto simp: eligible_ids_def group_ok_def)
  have "pick_dispatch hp rng now g exclude key
      = Some (g, fst (metered_pick hp x), rng', Some (snd (metered_pick hp x)))"
    using least_request_eq [OF len [unfolded eligible_ids_def] assms(3) [unfolded eligible_ids_def] ab(1-3) [unfolded eligible_ids_def]] assms(1)
    by (simp add: pick_dispatch_def x_def eligible_ids_def case_prod_beta)
  with ne mem low xh drop_metered [OF xh] show ?thesis
    by (intro exI [of _ rng'] exI [of _ x] exI [of _ y] exI [of _ "fst (metered_pick hp x)"] exI [of _ "snd (metered_pick hp x)"])
      (simp add: metered_pick_def unat_word_ariths)
qed

theorem least_request_power_of_two_witness:
  "\<exists>rng' x y hp' q. x \<noteq> y \<and> pick_dispatch sample_heap 0 7 sample_group None None = Some (sample_group, hp', rng', Some q)
     \<and> pk_instance q = x \<and> lower_load sample_heap x y \<and> drop_pick hp' q = sample_heap"
proof -
  have "eligible_ids sample_heap 7 sample_group None = [0, 1]"
    by (simp add: eligible_ids_def is_eligible_def eligibility_ctx_def outlier_enabled_def sample_group_def
        sample_heap_def is_healthy_def is_outlier_ejected_def record_probe_success_def instance_new_def Let_def
        sat_add_def word_le_nat_alt)
  with least_request_power_of_two [OF _ sample_group_ok, of 7 None 0 None] show ?thesis
    by (auto simp: sample_group_def)
qed

text \<open>
  Maglev affinity.  As long as the instance a key hashes to is eligible, every request with
  that key goes to it, independently of the round-robin cursor, the generator and the health of all
  other instances, and the pick changes nothing.
\<close>

theorem maglev_affinity:
  assumes "ep_lb (ug_endpoints g) = LbMaglev table"
    and "maglev_lookup table (hash_of_input k) = Some idx" and "idx < length (ep_instances (ug_endpoints g))"
    and "is_eligible hp (eligibility_ctx g now) exclude (ep_instances (ug_endpoints g) ! idx)"
  shows "pick_dispatch hp rng now g exclude (Some k)
           = Some (g, hp, rng, Some (unmetered_pick (ep_instances (ug_endpoints g) ! idx)))"
  using assms by (simp add: pick_dispatch_def maglev_pick_def maglev_target_def)

theorem maglev_affinity_witness:
  "\<exists>g table. ep_lb (ug_endpoints g) = LbMaglev table
     \<and> pick_dispatch sample_heap 0 7 g None (Some (HashBytes [])) = Some (g, sample_heap, 0, Some (unmetered_pick 1))"
proof -
  let ?g = "sample_group\<lparr>ug_endpoints := \<lparr>ep_instances = [0, 1], ep_lb = LbMaglev [1]\<rparr>\<rparr>"
  have "pick_dispatch sample_heap 0 7 ?g None (Some (HashBytes []))
      = Some (?g, sample_heap, 0, Some (unmetered_pick (ep_instances (ug_endpoints ?g) ! 1)))"
    by (rule maglev_affinity [where table = "[1]"])
      (simp_all add: maglev_lookup_def Let_def is_eligible_def eligibility_ctx_def outlier_enabled_def sample_group_def
        sample_heap_def is_healthy_def is_outlier_ejected_def record_probe_success_def instance_new_def
        sat_add_def word_le_nat_alt)
  then show ?thesis by (intro exI [of _ ?g] exI [of _ "[1]"]) simp
qed

end
