(* ===== verification/Registry.thy ===== *)
theory Registry
  imports Upstream_Group
begin

text \<open>
  Endpoint replacement (\<open>update_endpoints\<close> of \<open>control/src/upstream/mod.rs\<close>) and the registry's
  reconciliation on reload (\<open>control/src/upstream/registry.rs\<close>).  Both keep the instance of an
  unchanged address and weight, which in the model is keeping its heap index, and allocate a fresh
  one otherwise.  Building a TLS client configuration and parsing a verification name
  (\<open>control/src/tls.rs\<close>, over rustls) are arguments, \<open>tls_build\<close> and \<open>tls_sni\<close>, each of which may fail.
\<close>

datatype control_error =
    EmptyUpstreamAddresses string
  | DuplicateUpstream string
  | InvalidUpstreamLb string lb_error
  | TlsConfigError string

type_synonym registry = "string \<rightharpoonup> upstream_group"

definition matches_pair :: "heap \<Rightarrow> string \<Rightarrow> u32 \<Rightarrow> inst_id \<Rightarrow> bool" where
  "matches_pair hp addr w i \<longleftrightarrow> i_address (hp ! i) = addr \<and> i_weight (hp ! i) = w"

text \<open>Reuse or allocate the instance of every pair, in order.\<close>

fun resolve_instances ::
    "heap \<Rightarrow> inst_id list \<Rightarrow> health_config \<Rightarrow> (string \<times> u32) list \<Rightarrow> heap \<times> inst_id list" where
  "resolve_instances hp prev health [] = (hp, [])"
| "resolve_instances hp prev health ((addr, w) # ps) =
     (case List.find (matches_pair hp addr w) prev of
        Some i \<Rightarrow> (case resolve_instances hp prev health ps of (hp', ids) \<Rightarrow> (hp', i # ids))
      | None \<Rightarrow>
          (case resolve_instances (hp @ [instance_new addr w health]) prev health ps of
             (hp', ids) \<Rightarrow> (hp', length hp # ids)))"

definition endpoints_unchanged :: "heap \<Rightarrow> inst_id list \<Rightarrow> (string \<times> u32) list \<Rightarrow> bool" where
  "endpoints_unchanged hp ids resolved \<longleftrightarrow>
     length ids = length resolved
     \<and> list_all (\<lambda>(i, (addr, w)). i_address (hp ! i) = addr \<and> i_weight (hp ! i) = w) (zip ids resolved)"

definition update_endpoints ::
    "heap \<Rightarrow> upstream_group \<Rightarrow> (string \<times> u32) list \<Rightarrow> (heap \<times> upstream_group \<times> bool) option" where
  "update_endpoints hp g resolved =
     (if resolved = [] then Some (hp, g, False)
      else let current = ep_instances (ug_endpoints g)
           in if endpoints_unchanged hp current resolved then Some (hp, g, False)
              else (case resolve_instances hp current (ug_health g) resolved of
                      (hp', ids) \<Rightarrow>
                        map_option (\<lambda>ep. (hp', g\<lparr>ug_endpoints := ep\<rparr>, True))
                          (endpoints_build hp' ids (ug_lb_algorithm g) (ug_maglev_table_size g))))"

subsection \<open>Reconciliation\<close>

fun validate_upstreams :: "string list \<Rightarrow> upstream list \<Rightarrow> (control_error, unit) result" where
  "validate_upstreams seen [] = Inr ()"
| "validate_upstreams seen (up # ups) =
     (if up_addresses up = [] then Inl (EmptyUpstreamAddresses (up_name up))
      else if up_name up \<in> set seen then Inl (DuplicateUpstream (up_name up))
      else case validate_lb up of
             Inl reason \<Rightarrow> Inl (InvalidUpstreamLb (up_name up) reason)
           | Inr _ \<Rightarrow> validate_upstreams (up_name up # seen) ups)"

definition reusable_client :: "registry \<Rightarrow> upstream \<Rightarrow> upstream_tls \<Rightarrow> nat option" where
  "reusable_client reg up tls =
     (case reg (up_name up) of
        None \<Rightarrow> None
      | Some g \<Rightarrow> if ug_tls_manifest g = Some tls then ug_tls_client g else None)"

definition tls_for ::
    "(string \<Rightarrow> upstream_tls \<Rightarrow> (control_error, nat) result) \<Rightarrow> (string \<Rightarrow> string \<Rightarrow> (control_error, string) result)
       \<Rightarrow> registry \<Rightarrow> upstream \<Rightarrow> (control_error, nat option \<times> string option) result" where
  "tls_for tls_build tls_sni reg up =
     (case up_tls up of
        None \<Rightarrow> Inr (None, None)
      | Some tls \<Rightarrow>
          (case (case reusable_client reg up tls of
                   Some cfg \<Rightarrow> Inr cfg
                 | None \<Rightarrow> tls_build (up_name up) tls) of
             Inl e \<Rightarrow> Inl e
           | Inr cfg \<Rightarrow>
               (case ut_sni tls of
                  None \<Rightarrow> Inr (Some cfg, None)
                | Some sni \<Rightarrow>
                    (case tls_sni (up_name up) sni of
                       Inl e \<Rightarrow> Inl e
                     | Inr name \<Rightarrow> Inr (Some cfg, Some name)))))"

fun tls_all ::
    "(string \<Rightarrow> upstream_tls \<Rightarrow> (control_error, nat) result) \<Rightarrow> (string \<Rightarrow> string \<Rightarrow> (control_error, string) result)
       \<Rightarrow> registry \<Rightarrow> upstream list \<Rightarrow> (control_error, (nat option \<times> string option) list) result" where
  "tls_all tls_build tls_sni reg [] = Inr []"
| "tls_all tls_build tls_sni reg (up # ups) =
     (case tls_for tls_build tls_sni reg up of
        Inl e \<Rightarrow> Inl e
      | Inr x \<Rightarrow> (case tls_all tls_build tls_sni reg ups of Inl e \<Rightarrow> Inl e | Inr xs \<Rightarrow> Inr (x # xs)))"

text \<open>The prior group whose instances may be reused: same health policy, same TLS section.\<close>

definition reuse_group :: "upstream_group option \<Rightarrow> upstream \<Rightarrow> upstream_group option" where
  "reuse_group prev_any up =
     (case prev_any of
        None \<Rightarrow> None
      | Some g \<Rightarrow> if ug_health g = up_health up \<and> ug_tls_manifest g = up_tls up then Some g else None)"

definition carries_resolved :: "upstream_group \<Rightarrow> upstream \<Rightarrow> bool" where
  "carries_resolved g up \<longleftrightarrow>
     up_resolve_interval_ms up \<noteq> 0 \<and> ug_resolve_interval g \<noteq> 0
     \<and> ug_configured g = configured_addresses up \<and> ug_lb_algorithm g = up_lb_algorithm up
     \<and> ug_maglev_table_size g = maglev_table_size up"

definition hash_key_source_of :: "hash_config \<Rightarrow> hash_key_source" where
  "hash_key_source_of h =
     (case hc_key h of
        KeyHeader \<Rightarrow> HeaderKey (to_ascii_lowercase (case hc_header h of None \<Rightarrow> '''' | Some s \<Rightarrow> s))
      | KeySourceIp \<Rightarrow> SourceIpKey)"

definition build_endpoints :: "heap \<Rightarrow> upstream_group option \<Rightarrow> upstream \<Rightarrow> (heap \<times> endpoints) option" where
  "build_endpoints hp prev up =
     (case prev of
        Some g \<Rightarrow>
          if carries_resolved g up then Some (hp, ug_endpoints g)
          else (case resolve_instances hp (ep_instances (ug_endpoints g)) (up_health up) (configured_addresses up) of
                  (hp', ids) \<Rightarrow> map_option (Pair hp') (endpoints_build hp' ids (up_lb_algorithm up) (maglev_table_size up)))
      | None \<Rightarrow>
          (case resolve_instances hp [] (up_health up) (configured_addresses up) of
             (hp', ids) \<Rightarrow> map_option (Pair hp') (endpoints_build hp' ids (up_lb_algorithm up) (maglev_table_size up))))"

definition make_group ::
    "upstream_group option \<Rightarrow> upstream \<Rightarrow> nat option \<times> string option \<Rightarrow> endpoints \<Rightarrow> upstream_group" where
  "make_group prev_any up tls ep =
     \<lparr>ug_name = up_name up, ug_health = up_health up, ug_endpoints = ep, ug_configured = configured_addresses up,
      ug_resolve_interval = up_resolve_interval_ms up, ug_lb_algorithm = up_lb_algorithm up,
      ug_maglev_table_size = maglev_table_size up, ug_request_timeout = up_request_timeout_ms up,
      ug_overall_timeout = up_overall_timeout_ms up, ug_max_retries = up_max_retries up,
      ug_rr = (case prev_any of None \<Rightarrow> 0 | Some g \<Rightarrow> ug_rr g), ug_max_requests = ucast (up_max_requests up),
      ug_in_flight = 0, ug_outlier_consecutive = consecutive_gateway_failures (up_outlier up),
      ug_outlier_base_ejection = base_ejection_time_ms (up_outlier up),
      ug_outlier_max_ejection_percent = max_ejection_percent (up_outlier up),
      ug_hash_key = map_option hash_key_source_of (up_hash up), ug_tls_manifest = up_tls up,
      ug_tls_client = fst tls, ug_tls_sni = snd tls\<rparr>"

fun build_groups ::
    "registry \<Rightarrow> heap \<Rightarrow> registry \<Rightarrow> (upstream \<times> nat option \<times> string option) list \<Rightarrow> (heap \<times> registry) option" where
  "build_groups reg hp next_groups [] = Some (hp, next_groups)"
| "build_groups reg hp next_groups ((up, tls) # ups) =
     (let prev_any = reg (up_name up)
      in case build_endpoints hp (reuse_group prev_any up) up of
           None \<Rightarrow> None
         | Some (hp', ep) \<Rightarrow>
             build_groups reg hp' (next_groups(up_name up \<mapsto> make_group prev_any up tls ep)) ups)"

definition reconcile ::
    "(string \<Rightarrow> upstream_tls \<Rightarrow> (control_error, nat) result) \<Rightarrow> (string \<Rightarrow> string \<Rightarrow> (control_error, string) result)
       \<Rightarrow> heap \<times> registry \<Rightarrow> upstream list \<Rightarrow> ((heap \<times> registry) \<times> (control_error, unit) result) option" where
  "reconcile tls_build tls_sni st ups =
     (case st of (hp, reg) \<Rightarrow>
        (case validate_upstreams [] ups of
           Inl e \<Rightarrow> Some ((hp, reg), Inl e)
         | Inr _ \<Rightarrow>
             (case tls_all tls_build tls_sni reg ups of
                Inl e \<Rightarrow> Some ((hp, reg), Inl e)
              | Inr tls \<Rightarrow>
                  map_option (\<lambda>st'. (st', Inr ())) (build_groups reg hp Map.empty (zip ups tls)))))"

subsection \<open>Reused and fresh instances\<close>

definition ids_ok :: "heap \<Rightarrow> inst_id list \<Rightarrow> bool" where
  "ids_ok hp ids \<longleftrightarrow> (\<forall>i \<in> set ids. i < length hp)"

definition fresh_extension :: "heap \<Rightarrow> heap \<Rightarrow> bool" where
  "fresh_extension hp hp' \<longleftrightarrow> (\<exists>new. hp' = hp @ new \<and> (\<forall>x \<in> set new. \<not> i_healthy x))"

lemma fresh_extension_refl [simp]: "fresh_extension hp hp"
  by (simp add: fresh_extension_def)

lemma fresh_extension_trans: "fresh_extension a b \<Longrightarrow> fresh_extension b c \<Longrightarrow> fresh_extension a c"
  by (auto simp: fresh_extension_def)

lemma fresh_extensionD:
  "fresh_extension hp hp' \<Longrightarrow> i < length hp \<Longrightarrow> hp' ! i = hp ! i \<and> i < length hp'"
  by (auto simp: fresh_extension_def nth_append)

lemma fresh_extension_new: "fresh_extension hp (hp @ [instance_new a w h])"
  by (simp add: fresh_extension_def instance_new_def)

lemma matches_pair_extension:
  "fresh_extension hp hp' \<Longrightarrow> i < length hp \<Longrightarrow> matches_pair hp' a w i = matches_pair hp a w i"
  using fresh_extensionD by (simp add: matches_pair_def)

lemma find_extension:
  assumes "fresh_extension hp hp'" and "ids_ok hp prev"
  shows "List.find (matches_pair hp' a w) prev = List.find (matches_pair hp a w) prev"
  using assms matches_pair_extension by (intro find_cong) (auto simp: ids_ok_def)

text \<open>
  The instance list for a list of pairs: one valid index per pair, with the pair's address and weight;
  the first match among the previous instances where there is one, a fresh unhealthy instance elsewhere.
\<close>

definition reuses :: "heap \<Rightarrow> heap \<Rightarrow> inst_id list \<Rightarrow> string \<times> u32 \<Rightarrow> inst_id \<Rightarrow> bool" where
  "reuses hp hp' prev p i =
     (case List.find (matches_pair hp (fst p) (snd p)) prev of
        Some j \<Rightarrow> i = j
      | None \<Rightarrow> length hp \<le> i \<and> \<not> i_healthy (hp' ! i))"

lemma resolve_instances_facts:
  assumes "resolve_instances hp prev health ps = (hp', ids)" and "ids_ok hp prev"
    and "\<forall>(a, w) \<in> set ps. 1 \<le> w"
  shows "fresh_extension hp hp'" and "ids_ok hp' ids"
    and "map (\<lambda>i. (i_address (hp' ! i), i_weight (hp' ! i))) ids = ps"
    and "list_all2 (reuses hp hp' prev) ps ids"
proof -
  have "fresh_extension hp hp' \<and> ids_ok hp' ids \<and> map (\<lambda>i. (i_address (hp' ! i), i_weight (hp' ! i))) ids = ps
      \<and> list_all2 (reuses hp hp' prev) ps ids"
    using assms
  proof (induction ps arbitrary: hp hp' ids)
    case (Cons p ps)
    obtain a w where p: "p = (a, w)" by (cases p)
    show ?case
    proof (cases "List.find (matches_pair hp a w) prev")
      case (Some i)
      then obtain ids0 where r: "resolve_instances hp prev health ps = (hp', ids0)" "ids = i # ids0"
        using Cons.prems(1) p by (auto split: prod.splits)
      have i: "i \<in> set prev" "matches_pair hp a w i" using Some by (auto simp: find_Some_iff)
      have IH: "fresh_extension hp hp'" "ids_ok hp' ids0" "map (\<lambda>i. (i_address (hp' ! i), i_weight (hp' ! i))) ids0 = ps"
          "list_all2 (reuses hp hp' prev) ps ids0"
        using Cons.IH [OF r(1) Cons.prems(2)] Cons.prems(3) by auto
      have "i < length hp" using i(1) Cons.prems(2) by (simp add: ids_ok_def)
      from fresh_extensionD [OF IH(1) this] i(2) have "i_address (hp' ! i) = a" "i_weight (hp' ! i) = w" "i < length hp'"
        by (simp_all add: matches_pair_def)
      moreover have "reuses hp hp' prev p i" using Some p by (simp add: reuses_def)
      ultimately show ?thesis using IH p r(2) by (simp add: ids_ok_def)
    next
      case None
      let ?hp1 = "hp @ [instance_new a w health]"
      obtain ids0 where r: "resolve_instances ?hp1 prev health ps = (hp', ids0)" "ids = length hp # ids0"
        using Cons.prems(1) p None by (auto split: prod.splits)
      have prev1: "ids_ok ?hp1 prev" using Cons.prems(2) by (auto simp: ids_ok_def)
      have IH: "fresh_extension ?hp1 hp'" "ids_ok hp' ids0" "map (\<lambda>i. (i_address (hp' ! i), i_weight (hp' ! i))) ids0 = ps"
          "list_all2 (reuses ?hp1 hp' prev) ps ids0"
        using Cons.IH [OF r(1) prev1] Cons.prems(3) by auto
      have cell: "hp' ! length hp = instance_new a w health" "length hp < length hp'"
        using fresh_extensionD [OF IH(1), of "length hp"] by simp_all
      have "1 \<le> w" using Cons.prems(3) p by simp
      then have cell': "i_address (hp' ! length hp) = a" "i_weight (hp' ! length hp) = w" "\<not> i_healthy (hp' ! length hp)"
        by (simp_all add: cell(1) instance_new_def max_absorb1)
      have mono: "reuses hp hp' prev q k" if "reuses ?hp1 hp' prev q k" for q k
        using that unfolding reuses_def find_extension [OF fresh_extension_new Cons.prems(2)] by (auto split: option.splits)
      have "list_all2 (reuses hp hp' prev) ps ids0"
        by (rule list_all2_mono [OF IH(4)]) (rule mono)
      moreover have "reuses hp hp' prev p (length hp)" using None p cell' by (simp add: reuses_def)
      moreover have "fresh_extension hp hp'" using fresh_extension_trans [OF fresh_extension_new IH(1)] .
      ultimately show ?thesis using IH(2,3) cell(2) cell' p r(2) by (simp add: ids_ok_def)
    qed
  qed (simp add: ids_ok_def)
  then show "fresh_extension hp hp'" and "ids_ok hp' ids"
    and "map (\<lambda>i. (i_address (hp' ! i), i_weight (hp' ! i))) ids = ps"
    and "list_all2 (reuses hp hp' prev) ps ids"
    by blast+
qed

lemma maglev_entries:
  assumes "map (\<lambda>i. (i_address (hp ! i), i_weight (hp ! i))) ids = ps"
  shows "map (\<lambda>i. (address_bytes (i_address (hp ! i)), i_weight (hp ! i))) ids = map (\<lambda>(a, w). (address_bytes a, w)) ps"
  using assms by (auto simp flip: assms)

lemma endpoints_build_returns:
  assumes "map (\<lambda>i. (i_address (hp ! i), i_weight (hp ! i))) ids = ps"
    and "algo = MaglevHash \<Longrightarrow> maglev_ok (map (\<lambda>(a, w). (address_bytes a, w)) ps) m"
  shows "\<exists>ep. endpoints_build hp ids algo m = Some ep \<and> ep_instances ep = ids"
  using maglev_core [of "map (\<lambda>(a, w). (address_bytes a, w)) ps" m] assms
  by (cases algo) (auto simp: endpoints_build_def Let_def maglev_entries)

subsection \<open>Building the groups\<close>

definition reg_ok :: "heap \<Rightarrow> registry \<Rightarrow> bool" where
  "reg_ok hp reg \<longleftrightarrow> (\<forall>n g. reg n = Some g \<longrightarrow> group_ok hp g)"

definition upstream_ok :: "upstream \<Rightarrow> bool" where
  "upstream_ok up \<longleftrightarrow> validate_lb up = Inr () \<and> up_addresses up \<noteq> [] \<and> length (up_addresses up) < 2 ^ 32"

lemma group_ok_extension: "group_ok hp g \<Longrightarrow> fresh_extension hp hp' \<Longrightarrow> group_ok hp' g"
  using fresh_extensionD by (auto simp: group_ok_def)

lemma validate_upstreams_ok:
  assumes "validate_upstreams seen ups = Inr u"
  shows "distinct (map up_name ups) \<and> set (map up_name ups) \<inter> set seen = {}
    \<and> (\<forall>up \<in> set ups. validate_lb up = Inr () \<and> up_addresses up \<noteq> [])"
  using assms
proof (induction ups arbitrary: seen)
  case (Cons up ups)
  then have "validate_upstreams (up_name up # seen) ups = Inr u" "up_name up \<notin> set seen" "up_addresses up \<noteq> []"
      "validate_lb up = Inr ()"
    by (auto split: if_splits sum.splits)
  with Cons.IH show ?case by fastforce
qed simp

lemma configured_weights: "upstream_ok up \<Longrightarrow> \<forall>(a, w) \<in> set (configured_addresses up). 1 \<le> w"
  using validate_weights_of [of up "()"] by (auto simp: upstream_ok_def)

text \<open>
  The endpoint set a reload gives an upstream: the previous one when it is carried over, and
  otherwise one instance per configured address, reused where the previous group had it.
\<close>

lemma build_endpoints_facts:
  assumes "upstream_ok up" and "\<And>g. prev = Some g \<Longrightarrow> group_ok hp g"
  shows "\<exists>hp' ep. build_endpoints hp prev up = Some (hp', ep) \<and> fresh_extension hp hp'
    \<and> ids_ok hp' (ep_instances ep) \<and> length (ep_instances ep) < 2 ^ 32
    \<and> ((\<exists>g. prev = Some g \<and> carries_resolved g up \<and> ep = ug_endpoints g \<and> hp' = hp)
       \<or> map (\<lambda>i. (i_address (hp' ! i), i_weight (hp' ! i))) (ep_instances ep) = configured_addresses up
         \<and> list_all2 (reuses hp hp' (case prev of None \<Rightarrow> [] | Some g \<Rightarrow> ep_instances (ug_endpoints g)))
             (configured_addresses up) (ep_instances ep))"
proof (cases "\<exists>g. prev = Some g \<and> carries_resolved g up")
  case True
  then show ?thesis using assms(2) by (auto simp: build_endpoints_def group_ok_def ids_ok_def)
next
  case False
  let ?prev = "case prev of None \<Rightarrow> [] | Some g \<Rightarrow> ep_instances (ug_endpoints g)"
  obtain hp' ids where r: "resolve_instances hp ?prev (up_health up) (configured_addresses up) = (hp', ids)"
    by fastforce
  have ok: "ids_ok hp ?prev" using assms(2) by (auto simp: ids_ok_def group_ok_def split: option.splits)
  note f = resolve_instances_facts [OF r ok configured_weights [OF assms(1)]]
  have "maglev_ok (map (\<lambda>(a, w). (address_bytes a, w)) (configured_addresses up)) (maglev_table_size up)"
    if "up_lb_algorithm up = MaglevHash"
    using validate_lb_maglev [of up "()"] assms(1) that by (simp add: upstream_ok_def)
  then obtain ep where ep: "endpoints_build hp' ids (up_lb_algorithm up) (maglev_table_size up) = Some ep" "ep_instances ep = ids"
    using endpoints_build_returns [OF f(3)] by blast
  have "build_endpoints hp prev up = Some (hp', ep)"
    using False r ep(1) by (cases prev) (auto simp: build_endpoints_def)
  moreover have "length ids < 2 ^ 32"
    using arg_cong [OF f(3), of length] assms(1) by (simp add: configured_addresses_def upstream_ok_def)
  ultimately show ?thesis using f ep(2) by auto
qed

lemma build_groups_facts:
  assumes "\<forall>(up, t) \<in> set ups. upstream_ok up" and "distinct (map (\<lambda>(up, t). up_name up) ups)"
    and "reg_ok hp reg" and "reg_ok hp acc"
  shows "\<exists>hp' reg'. build_groups reg hp acc ups = Some (hp', reg') \<and> fresh_extension hp hp' \<and> reg_ok hp' reg'
    \<and> dom reg' = dom acc \<union> (\<lambda>(up, t). up_name up) ` set ups
    \<and> (\<forall>n. n \<notin> (\<lambda>(up, t). up_name up) ` set ups \<longrightarrow> reg' n = acc n)
    \<and> (\<forall>(up, t) \<in> set ups. \<exists>hp1 hp2 ep. fresh_extension hp hp1 \<and> fresh_extension hp2 hp'
         \<and> build_endpoints hp1 (reuse_group (reg (up_name up)) up) up = Some (hp2, ep)
         \<and> reg' (up_name up) = Some (make_group (reg (up_name up)) up t ep))"
  using assms
proof (induction ups arbitrary: hp acc)
  case (Cons x ups)
  obtain up t where x: "x = (up, t)" by (cases x)
  let ?prev = "reuse_group (reg (up_name up)) up"
  have up: "upstream_ok up" using Cons.prems(1) x by simp
  have prev: "group_ok hp g" if "?prev = Some g" for g
    using that Cons.prems(3) by (auto simp: reuse_group_def reg_ok_def split: option.splits if_splits)
  obtain hp1 ep where b: "build_endpoints hp ?prev up = Some (hp1, ep)" "fresh_extension hp hp1"
      "ids_ok hp1 (ep_instances ep)" "length (ep_instances ep) < 2 ^ 32"
    using build_endpoints_facts [OF up prev] by blast
  let ?g = "make_group (reg (up_name up)) up t ep" and ?acc = "acc(up_name up \<mapsto> make_group (reg (up_name up)) up t ep)"
  have "group_ok hp1 ?g" using b(3,4) by (simp add: group_ok_def make_group_def ids_ok_def)
  then have acc: "reg_ok hp1 ?acc" using Cons.prems(4) group_ok_extension [OF _ b(2)] by (auto simp: reg_ok_def)
  have reg: "reg_ok hp1 reg" using Cons.prems(3) group_ok_extension [OF _ b(2)] by (auto simp: reg_ok_def)
  have dist: "distinct (map (\<lambda>(up, t). up_name up) ups)" and nin: "up_name up \<notin> (\<lambda>(up, t). up_name up) ` set ups"
    using Cons.prems(2) x by auto
  have ups: "\<forall>(up, t) \<in> set ups. upstream_ok up" using Cons.prems(1) by simp
  obtain hp' reg' where IH: "build_groups reg hp1 ?acc ups = Some (hp', reg')" "fresh_extension hp1 hp'" "reg_ok hp' reg'"
      "dom reg' = dom ?acc \<union> (\<lambda>(up, t). up_name up) ` set ups"
      "\<forall>n. n \<notin> (\<lambda>(up, t). up_name up) ` set ups \<longrightarrow> reg' n = ?acc n"
      "\<forall>(up, t) \<in> set ups. \<exists>hpa hpb ep. fresh_extension hp1 hpa \<and> fresh_extension hpb hp'
         \<and> build_endpoints hpa (reuse_group (reg (up_name up)) up) up = Some (hpb, ep)
         \<and> reg' (up_name up) = Some (make_group (reg (up_name up)) up t ep)"
    using Cons.IH [OF ups dist reg acc] by blast
  have build: "build_groups reg hp acc (x # ups) = Some (hp', reg')" using IH(1) b(1) x by simp
  have here: "reg' (up_name up) = Some ?g" using IH(5) nin by simp
  have rest: "\<exists>hpa hpb ep. fresh_extension hp hpa \<and> fresh_extension hpb hp'
      \<and> build_endpoints hpa (reuse_group (reg (up_name u)) u) u = Some (hpb, ep)
      \<and> reg' (up_name u) = Some (make_group (reg (up_name u)) u s ep)" if "(u, s) \<in> set (x # ups)" for u s
  proof (cases "(u, s) = x")
    case True
    then show ?thesis
      using b here IH(2) x by (intro exI [of _ hp] exI [of _ hp1] exI [of _ ep]) simp
  next
    case False
    with that IH(6) obtain hpa hpb ep' where "fresh_extension hp1 hpa" "fresh_extension hpb hp'"
        "build_endpoints hpa (reuse_group (reg (up_name u)) u) u = Some (hpb, ep')"
        "reg' (up_name u) = Some (make_group (reg (up_name u)) u s ep')" by fastforce
    then show ?thesis using fresh_extension_trans [OF b(2)] by blast
  qed
  have "dom reg' = dom acc \<union> (\<lambda>(up, t). up_name up) ` set (x # ups)" using IH(4) x by auto
  moreover have "\<forall>n. n \<notin> (\<lambda>(up, t). up_name up) ` set (x # ups) \<longrightarrow> reg' n = acc n" using IH(5) x by auto
  ultimately show ?case
    using build IH(3) fresh_extension_trans [OF b(2) IH(2)] rest by (intro exI [of _ hp'] exI [of _ reg']) blast
qed simp

subsection \<open>Properties\<close>

lemma list_all2_and_set: "list_all2 P xs ys \<Longrightarrow> list_all2 (\<lambda>x y. P x y \<and> y \<in> set ys) xs ys"
  by (simp add: list_all2_conv_all_nth)

lemma tls_all_length: "tls_all tb ts reg ups = Inr xs \<Longrightarrow> length xs = length ups"
  by (induction ups arbitrary: xs) (auto split: sum.splits)

lemma zip_names:
  fixes xs :: "(nat option \<times> string option) list" and ups :: "upstream list"
  assumes "length xs = length ups"
  shows "map (\<lambda>(up, t). up_name up) (zip ups xs) = map up_name ups"
    and "(\<lambda>(up, t). up_name up) ` set (zip ups xs) = up_name ` set ups"
proof -
  have "(\<lambda>(up :: upstream, t :: nat option \<times> string option). up_name up) = up_name \<circ> fst" by auto
  then have "map (\<lambda>(up, t). up_name up) (zip ups xs) = map up_name (map fst (zip ups xs))" by (simp only: map_map)
  then show m: "map (\<lambda>(up, t). up_name up) (zip ups xs) = map up_name ups" using assms by simp
  show "(\<lambda>(up, t). up_name up) ` set (zip ups xs) = up_name ` set ups"
    using arg_cong [OF m, of set] by simp
qed

lemma reconcile_success:
  assumes "validate_upstreams [] ups = Inr ()" and "tls_all tb ts reg ups = Inr tls"
    and "\<forall>up \<in> set ups. length (up_addresses up) < 2 ^ 32" and "reg_ok hp reg"
  shows "\<exists>hp' reg'. reconcile tb ts (hp, reg) ups = Some ((hp', reg'), Inr ()) \<and> fresh_extension hp hp'
    \<and> reg_ok hp' reg' \<and> dom reg' = up_name ` set ups
    \<and> (\<forall>up \<in> set ups. \<exists>t hp1 hp2 ep. fresh_extension hp hp1 \<and> fresh_extension hp2 hp'
         \<and> build_endpoints hp1 (reuse_group (reg (up_name up)) up) up = Some (hp2, ep)
         \<and> reg' (up_name up) = Some (make_group (reg (up_name up)) up t ep))"
proof -
  note len = tls_all_length [OF assms(2)]
  have v: "distinct (map up_name ups)" "\<forall>up \<in> set ups. validate_lb up = Inr () \<and> up_addresses up \<noteq> []"
    using validate_upstreams_ok [OF assms(1)] by auto
  have ok: "\<forall>(up, t) \<in> set (zip ups tls). upstream_ok up"
    using v(2) assms(3) by (auto simp: upstream_ok_def dest: set_zip_leftD)
  have dist: "distinct (map (\<lambda>(up, t). up_name up) (zip ups tls))" using v(1) zip_names(1) [OF len] by simp
  have "reg_ok hp Map.empty" by (simp add: reg_ok_def)
  from build_groups_facts [OF ok dist assms(4) this] obtain hp' reg' where
    b: "build_groups reg hp Map.empty (zip ups tls) = Some (hp', reg')" "fresh_extension hp hp'" "reg_ok hp' reg'"
      "dom reg' = up_name ` set ups"
      "\<forall>(up, t) \<in> set (zip ups tls). \<exists>hp1 hp2 ep. fresh_extension hp hp1 \<and> fresh_extension hp2 hp'
         \<and> build_endpoints hp1 (reuse_group (reg (up_name up)) up) up = Some (hp2, ep)
         \<and> reg' (up_name up) = Some (make_group (reg (up_name up)) up t ep)"
    unfolding zip_names(2) [OF len] by auto
  have "\<exists>t. (up, t) \<in> set (zip ups tls)" if "up \<in> set ups" for up
    using that len by (metis in_set_impl_in_set_zip1)
  with b(5) have "\<forall>up \<in> set ups. \<exists>t hp1 hp2 ep. fresh_extension hp hp1 \<and> fresh_extension hp2 hp'
         \<and> build_endpoints hp1 (reuse_group (reg (up_name up)) up) up = Some (hp2, ep)
         \<and> reg' (up_name up) = Some (make_group (reg (up_name up)) up t ep)" by fast
  moreover have "reconcile tb ts (hp, reg) ups = Some ((hp', reg'), Inr ())"
    using assms(1,2) b(1) by (simp add: reconcile_def)
  ultimately show ?thesis using b(2-4) by blast
qed

text \<open>
  C35: A reload is all or nothing, and ends.  For every manifest the reconciliation returns; if it
  reports an error the running registry and every instance are exactly as before, and otherwise there
  is precisely one well-formed group per declared upstream and no existing instance was modified.
\<close>

theorem reconcile_all_or_nothing:
  assumes "reg_ok hp reg" and "\<forall>up \<in> set ups. length (up_addresses up) < 2 ^ 32"
  shows "\<exists>hp' reg' res. reconcile tb ts (hp, reg) ups = Some ((hp', reg'), res)
    \<and> (case res of
         Inl e \<Rightarrow> hp' = hp \<and> reg' = reg
       | Inr _ \<Rightarrow> dom reg' = up_name ` set ups \<and> reg_ok hp' reg' \<and> (\<forall>i < length hp. hp' ! i = hp ! i))"
proof (cases "validate_upstreams [] ups")
  case (Inl e)
  then show ?thesis by (simp add: reconcile_def)
next
  case (Inr u)
  show ?thesis
  proof (cases "tls_all tb ts reg ups")
    case (Inl e)
    with Inr show ?thesis by (simp add: reconcile_def)
  next
    case (Inr tls)
    with \<open>validate_upstreams [] ups = Inr u\<close> reconcile_success [of ups tb ts reg tls hp] assms obtain hp' reg' where
      "reconcile tb ts (hp, reg) ups = Some ((hp', reg'), Inr ())" "fresh_extension hp hp'" "reg_ok hp' reg'"
      "dom reg' = up_name ` set ups" by auto
    then show ?thesis using fresh_extensionD by (intro exI [of _ hp'] exI [of _ reg'] exI [of _ "Inr ()"]) auto
  qed
qed

theorem reconcile_all_or_nothing_witness:
  "\<exists>hp' reg' res. reconcile (\<lambda>n t. Inr 0) (\<lambda>n s. Inr s) ([], Map.empty) [sample_upstream, sample_upstream] = Some ((hp', reg'), res)
    \<and> (case res of
         Inl e \<Rightarrow> hp' = [] \<and> reg' = Map.empty
       | Inr _ \<Rightarrow> dom reg' = up_name ` set [sample_upstream, sample_upstream] \<and> reg_ok hp' reg'
           \<and> (\<forall>i < length ([] :: heap). hp' ! i = [] ! i))"
  by (rule reconcile_all_or_nothing) (simp_all add: reg_ok_def sample_upstream_def)

text \<open>
  Health survives a reload.  When an upstream keeps its name, health policy and TLS section,
  every configured address and weight that the running group already had an instance for is served by that very
  instance afterwards, with its health, failure counts and load untouched; every other configured
  address starts on a fresh instance that is out of rotation until it is probed.
\<close>

theorem reload_keeps_instances:
  assumes "validate_upstreams [] ups = Inr ()" and "tls_all tb ts reg ups = Inr tls"
    and "\<forall>up \<in> set ups. length (up_addresses up) < 2 ^ 32" and "reg_ok hp reg"
    and "up \<in> set ups" and "reg (up_name up) = Some g" and "ug_health g = up_health up" and "ug_tls_manifest g = up_tls up"
    and "\<not> carries_resolved g up"
  shows "\<exists>hp' reg' g'. reconcile tb ts (hp, reg) ups = Some ((hp', reg'), Inr ())
    \<and> reg' (up_name up) = Some g' \<and> ug_rr g' = ug_rr g
    \<and> list_all2 (\<lambda>(a, w) i. case List.find (matches_pair hp a w) (ep_instances (ug_endpoints g)) of
          Some j \<Rightarrow> i = j \<and> hp' ! i = hp ! i
        | None \<Rightarrow> length hp \<le> i \<and> \<not> i_healthy (hp' ! i)) (configured_addresses up) (ep_instances (ug_endpoints g'))"
proof -
  obtain hp' reg' t hp1 hp2 ep where r: "reconcile tb ts (hp, reg) ups = Some ((hp', reg'), Inr ())"
      "fresh_extension hp hp'" "fresh_extension hp hp1" "fresh_extension hp2 hp'"
      "build_endpoints hp1 (reuse_group (reg (up_name up)) up) up = Some (hp2, ep)"
      "reg' (up_name up) = Some (make_group (reg (up_name up)) up t ep)"
    using reconcile_success [OF assms(1-4)] assms(5) by metis
  have prev: "reuse_group (reg (up_name up)) up = Some g" using assms(6-8) by (simp add: reuse_group_def)
  have up: "upstream_ok up" using validate_upstreams_ok [OF assms(1)] assms(3,5) by (simp add: upstream_ok_def)
  have g: "group_ok hp g" using assms(4,6) by (simp add: reg_ok_def)
  have g1: "group_ok hp1 g" by (rule group_ok_extension [OF g r(3)])
  have ids: "ids_ok hp (ep_instances (ug_endpoints g))" using g by (simp add: group_ok_def ids_ok_def)
  from build_endpoints_facts [OF up, of "Some g" hp1] g1 r(5) prev assms(9)
  have l: "list_all2 (reuses hp1 hp2 (ep_instances (ug_endpoints g))) (configured_addresses up) (ep_instances ep)"
      and ok2: "ids_ok hp2 (ep_instances ep)" and e12: "fresh_extension hp1 hp2"
    by auto
  have "list_all2 (\<lambda>(a, w) i. case List.find (matches_pair hp a w) (ep_instances (ug_endpoints g)) of
          Some j \<Rightarrow> i = j \<and> hp' ! i = hp ! i
        | None \<Rightarrow> length hp \<le> i \<and> \<not> i_healthy (hp' ! i)) (configured_addresses up) (ep_instances ep)"
  proof (rule list_all2_mono [OF list_all2_and_set [OF l]])
    fix p i assume A: "reuses hp1 hp2 (ep_instances (ug_endpoints g)) p i \<and> i \<in> set (ep_instances ep)"
    have "hp' ! i = hp2 ! i" using A ok2 fresh_extensionD [OF r(4)] by (simp add: ids_ok_def)
    moreover have "length hp \<le> length hp1" using r(3) by (auto simp: fresh_extension_def)
    moreover have "hp' ! j = hp ! j" if "j \<in> set (ep_instances (ug_endpoints g))" for j
      using that ids fresh_extensionD [OF r(2)] by (simp add: ids_ok_def)
    moreover have "j \<in> set (ep_instances (ug_endpoints g))"
      if "List.find (matches_pair hp a w) (ep_instances (ug_endpoints g)) = Some j" for a w j
      using that by (auto simp: find_Some_iff)
    ultimately show "(\<lambda>(a, w) i. case List.find (matches_pair hp a w) (ep_instances (ug_endpoints g)) of
          Some j \<Rightarrow> i = j \<and> hp' ! i = hp ! i
        | None \<Rightarrow> length hp \<le> i \<and> \<not> i_healthy (hp' ! i)) p i"
      using A unfolding reuses_def find_extension [OF r(3) ids]
      by (cases p, cases "List.find (matches_pair hp (fst p) (snd p)) (ep_instances (ug_endpoints g))") auto
  qed
  then show ?thesis
    using r(1,6) assms(6) by (intro exI [of _ hp'] exI [of _ reg'] exI [of _ "make_group (reg (up_name up)) up t ep"])
      (simp add: make_group_def)
qed

text \<open>A first reload of the sample upstream, and a second one over its result.\<close>

definition plain_upstream :: upstream where
  "plain_upstream = sample_upstream\<lparr>up_lb_algorithm := RoundRobin, up_hash := None\<rparr>"

definition plain_group :: upstream_group where
  "plain_group = make_group None plain_upstream (None, None) \<lparr>ep_instances = [0, 1], ep_lb = LbRoundRobin\<rparr>"

lemma plain_upstream_valid:
  "validate_upstreams [] [plain_upstream] = Inr ()" "tls_all tb ts reg [plain_upstream] = Inr [(None, None)]"
  by (simp_all add: plain_upstream_def sample_upstream_def validate_lb_def spec_weight_def default_instance_weight_def
      MAX_INSTANCE_WEIGHT_def Let_def tls_for_def)

theorem reload_keeps_instances_witness:
  "\<exists>hp' reg' g'. reconcile (\<lambda>n t. Inr 0) (\<lambda>n s. Inr s) (sample_heap, [''api'' \<mapsto> plain_group]) [plain_upstream]
      = Some ((hp', reg'), Inr ()) \<and> reg' ''api'' = Some g' \<and> ug_rr g' = ug_rr plain_group"
proof -
  have reg: "reg_ok sample_heap [''api'' \<mapsto> plain_group]"
    by (simp add: reg_ok_def group_ok_def plain_group_def make_group_def sample_heap_def)
  have up: "\<forall>up \<in> set [plain_upstream]. length (up_addresses up) < 2 ^ 32" "plain_upstream \<in> set [plain_upstream]"
      "[''api'' \<mapsto> plain_group] (up_name plain_upstream) = Some plain_group" "up_name plain_upstream = ''api''"
    by (simp_all add: plain_upstream_def sample_upstream_def)
  have g: "ug_health plain_group = up_health plain_upstream" "ug_tls_manifest plain_group = up_tls plain_upstream"
      "\<not> carries_resolved plain_group plain_upstream"
    by (simp_all add: plain_group_def make_group_def carries_resolved_def plain_upstream_def sample_upstream_def)
  from reload_keeps_instances [OF plain_upstream_valid(1) plain_upstream_valid(2) up(1) reg up(2,3) g, of "\<lambda>n t. Inr 0" "\<lambda>n s. Inr s"]
  show ?thesis unfolding up(4) by blast
qed

lemma endpoints_unchanged_iff:
  "endpoints_unchanged hp ids ps \<longleftrightarrow> map (\<lambda>i. (i_address (hp ! i), i_weight (hp ! i))) ids = ps"
  by (induction ids ps rule: list_induct2') (auto simp: endpoints_unchanged_def)

text \<open>
  Re-resolution of an upstream's addresses.  A non-empty, different address set replaces the
  endpoints with exactly the resolved pairs, keeping the instance of every pair that was already
  there and starting every new one out of rotation; an empty or an unchanged set changes nothing.
\<close>

theorem update_endpoints_correct:
  assumes "group_ok hp g" and "\<forall>(a, w) \<in> set resolved. 1 \<le> w"
    and "ug_lb_algorithm g = MaglevHash \<Longrightarrow> maglev_ok (map (\<lambda>(a, w). (address_bytes a, w)) resolved) (ug_maglev_table_size g)"
  shows "\<exists>hp' g' changed. update_endpoints hp g resolved = Some (hp', g', changed)
    \<and> changed = (resolved \<noteq> [] \<and> map (\<lambda>i. (i_address (hp ! i), i_weight (hp ! i))) (ep_instances (ug_endpoints g)) \<noteq> resolved)
    \<and> (\<not> changed \<longrightarrow> hp' = hp \<and> g' = g)
    \<and> (changed \<longrightarrow> fresh_extension hp hp'
         \<and> map (\<lambda>i. (i_address (hp' ! i), i_weight (hp' ! i))) (ep_instances (ug_endpoints g')) = resolved
         \<and> list_all2 (reuses hp hp' (ep_instances (ug_endpoints g))) resolved (ep_instances (ug_endpoints g')))"
proof -
  let ?ids = "ep_instances (ug_endpoints g)"
  have same: "endpoints_unchanged hp ?ids resolved \<longleftrightarrow> map (\<lambda>i. (i_address (hp ! i), i_weight (hp ! i))) ?ids = resolved"
    by (rule endpoints_unchanged_iff)
  show ?thesis
  proof (cases "resolved = [] \<or> endpoints_unchanged hp ?ids resolved")
    case True
    then show ?thesis using same by (auto simp: update_endpoints_def Let_def)
  next
    case False
    obtain hp' ids where r: "resolve_instances hp ?ids (ug_health g) resolved = (hp', ids)" by fastforce
    have "ids_ok hp ?ids" using assms(1) by (simp add: group_ok_def ids_ok_def)
    note f = resolve_instances_facts [OF r this assms(2)]
    obtain ep where ep: "endpoints_build hp' ids (ug_lb_algorithm g) (ug_maglev_table_size g) = Some ep" "ep_instances ep = ids"
      using endpoints_build_returns [OF f(3) assms(3)] by blast
    then have "update_endpoints hp g resolved = Some (hp', g\<lparr>ug_endpoints := ep\<rparr>, True)"
      using False r by (simp add: update_endpoints_def Let_def)
    then show ?thesis using False same f ep(2)
      by (intro exI [of _ hp'] exI [of _ "g\<lparr>ug_endpoints := ep\<rparr>"] exI [of _ True]) simp
  qed
qed

theorem update_endpoints_correct_witness:
  "\<exists>hp' g'. update_endpoints sample_heap plain_group [(''a:1'', 1), (''c:1'', 1)] = Some (hp', g', True)
     \<and> map (\<lambda>i. (i_address (hp' ! i), i_weight (hp' ! i))) (ep_instances (ug_endpoints g')) = [(''a:1'', 1), (''c:1'', 1)]"
proof -
  have "group_ok sample_heap plain_group" by (simp add: group_ok_def plain_group_def make_group_def sample_heap_def)
  moreover have "map (\<lambda>i. (i_address (sample_heap ! i), i_weight (sample_heap ! i))) (ep_instances (ug_endpoints plain_group))
      \<noteq> [(''a:1'', 1), (''c:1'', 1)]"
    by (simp add: plain_group_def make_group_def sample_heap_def record_probe_success_def instance_new_def Let_def)
  ultimately show ?thesis
    using update_endpoints_correct [of sample_heap plain_group "[(''a:1'', 1), (''c:1'', 1)]"]
    by (auto simp: plain_group_def make_group_def plain_upstream_def)
qed

end
