(* ===== verification/Outlier.thy ===== *)
theory Outlier
  imports Upstream_Group
begin

text \<open>
  Outlier detection (\<open>control/src/upstream/outlier.rs\<close>): the bookkeeping of one forward's outcome,
  under the instance's counter lock and, past the threshold, the group's decision lock, so each call is
  one function of the heap.  An ejection window is a \<open>Duration\<close> built from milliseconds; its
  conversion back, \<open>as_millis() as u64\<close>, keeps the low 64 bits.
\<close>

definition OUTLIER_BACKOFF_SHIFT_CAP :: u32 where
  "OUTLIER_BACKOFF_SHIFT_CAP = 6"

definition ejection_window :: "upstream_group \<Rightarrow> u32 \<Rightarrow> u64" where
  "ejection_window g eject_count =
     word_of_nat (unat (ug_outlier_base_ejection g) * 2 ^ unat (min eject_count OUTLIER_BACKOFF_SHIFT_CAP))"

definition already_ejected :: "heap \<Rightarrow> upstream_group \<Rightarrow> u64 \<Rightarrow> nat" where
  "already_ejected hp g now =
     tally (\<lambda>i. is_outlier_ejected (hp ! i) now) (ep_instances (ug_endpoints g))"

definition set_counters :: "heap \<Rightarrow> inst_id \<Rightarrow> health_counters \<Rightarrow> heap" where
  "set_counters hp i c = hp[i := (hp ! i)\<lparr>i_counters := c\<rparr>]"

definition record_outcome ::
    "heap \<Rightarrow> upstream_group \<Rightarrow> inst_id \<Rightarrow> bool \<Rightarrow> u64 \<Rightarrow> heap \<times> bool" where
  "record_outcome hp g i gateway_failure now =
     (if \<not> outlier_enabled g then (hp, False)
      else let c = i_counters (hp ! i)
           in if \<not> gateway_failure
              then (set_counters hp i (c\<lparr>consecutive_gw_fail := 0, outlier_eject_count := 0\<rparr>), False)
              else let fails = sat_add (consecutive_gw_fail c) 1
                   in if fails < ug_outlier_consecutive g
                      then (set_counters hp i (c\<lparr>consecutive_gw_fail := fails\<rparr>), False)
                      else if (already_ejected hp g now + 1) * 100
                                > unat (ug_outlier_max_ejection_percent g) * length (ep_instances (ug_endpoints g))
                      then (set_counters hp i (c\<lparr>consecutive_gw_fail := 0\<rparr>), False)
                      else (hp[i := (hp ! i)\<lparr>
                              i_outlier_ejected_until_ms := sat_add now (ejection_window g (outlier_eject_count c)),
                              i_counters := c\<lparr>outlier_eject_count := sat_add (outlier_eject_count c) 1,
                                              consecutive_gw_fail := 0\<rparr>\<rparr>], True))"

subsection \<open>The ejection cap\<close>

lemma tally_list_update:
  assumes "distinct ids" and "i < length hp"
  shows "tally (\<lambda>k. P (hp[i := x] ! k)) ids \<le> tally (\<lambda>k. P (hp ! k)) ids + 1"
  using assms
proof (induction ids)
  case (Cons k ids)
  show ?case
  proof (cases "k = i")
    case True
    with Cons.prems have "tally (\<lambda>k. P (hp[i := x] ! k)) ids = tally (\<lambda>k. P (hp ! k)) ids"
      by (intro tally_cong) (metis distinct.simps(2) nth_list_update_neq)
    then show ?thesis by simp
  next
    case False
    with Cons show ?thesis by simp
  qed
qed simp

lemma record_outcome_True:
  assumes "snd (record_outcome hp g i failure now)"
  shows "failure \<and> outlier_enabled g
    \<and> ug_outlier_consecutive g \<le> sat_add (consecutive_gw_fail (i_counters (hp ! i))) 1
    \<and> (already_ejected hp g now + 1) * 100
        \<le> unat (ug_outlier_max_ejection_percent g) * length (ep_instances (ug_endpoints g))
    \<and> (\<exists>x. fst (record_outcome hp g i failure now) = hp[i := x])"
  using assms by (auto simp: record_outcome_def Let_def not_less split: if_splits)

lemma ejection_facts:
  assumes "snd (record_outcome hp g i failure now)" and "i < length hp"
    and "distinct (ep_instances (ug_endpoints g))"
  defines "hp' \<equiv> fst (record_outcome hp g i failure now)"
  shows "already_ejected hp' g now * 100
           \<le> unat (ug_outlier_max_ejection_percent g) * length (ep_instances (ug_endpoints g))"
    and "ug_outlier_consecutive g \<le> sat_add (consecutive_gw_fail (i_counters (hp ! i))) 1"
    and "unat (ug_outlier_max_ejection_percent g) < 100 \<Longrightarrow>
           \<exists>k \<in> set (ep_instances (ug_endpoints g)). \<not> is_outlier_ejected (hp' ! k) now"
proof -
  let ?ids = "ep_instances (ug_endpoints g)" and ?pct = "unat (ug_outlier_max_ejection_percent g)"
  from record_outcome_True [OF assms(1)] obtain x where
    x: "(already_ejected hp g now + 1) * 100 \<le> ?pct * length ?ids" "hp' = hp[i := x]"
      "ug_outlier_consecutive g \<le> sat_add (consecutive_gw_fail (i_counters (hp ! i))) 1"
    unfolding hp'_def by blast
  have "already_ejected hp' g now \<le> already_ejected hp g now + 1"
    unfolding already_ejected_def x(2) by (rule tally_list_update [OF assms(3,2)])
  from le_trans [OF mult_le_mono1 [OF this] x(1)]
  show cap: "already_ejected hp' g now * 100 \<le> ?pct * length ?ids" .
  show "ug_outlier_consecutive g \<le> sat_add (consecutive_gw_fail (i_counters (hp ! i))) 1" by (rule x(3))
  show "\<exists>k \<in> set ?ids. \<not> is_outlier_ejected (hp' ! k) now" if "?pct < 100"
  proof (rule ccontr)
    assume "\<not> ?thesis"
    then have "already_ejected hp' g now = length ?ids" by (simp add: already_ejected_def tally_def)
    moreover have "length ?ids \<noteq> 0" using x(1) by (cases "length ?ids = 0") simp_all
    ultimately show False using cap that by (metis gr0I mult.commute mult_less_cancel2 not_less)
  qed
qed

text \<open>
  C39: The ejection cap holds.  Whenever an outcome ejects an instance, at most \<open>max_ejection_percent\<close>
  of the group's instances are ejected afterwards, and the instance had reached its threshold of
  consecutive gateway failures; with a percentage below 100 a non-empty group keeps an instance
  that is not ejected.
\<close>

theorem ejection_cap:
  assumes "snd (record_outcome hp g i failure now)" and "i < length hp"
    and "distinct (ep_instances (ug_endpoints g))"
  defines "hp' \<equiv> fst (record_outcome hp g i failure now)"
  shows "already_ejected hp' g now * 100
           \<le> unat (ug_outlier_max_ejection_percent g) * length (ep_instances (ug_endpoints g))
    \<and> ug_outlier_consecutive g \<le> sat_add (consecutive_gw_fail (i_counters (hp ! i))) 1
    \<and> (unat (ug_outlier_max_ejection_percent g) < 100 \<longrightarrow>
         (\<exists>k \<in> set (ep_instances (ug_endpoints g)). \<not> is_outlier_ejected (hp' ! k) now))"
  using ejection_facts [OF assms(1-3)] unfolding hp'_def by blast

theorem ejection_cap_witness:
  "already_ejected (fst (record_outcome (map (\<lambda>x. x\<lparr>i_counters := (i_counters x)\<lparr>consecutive_gw_fail := 4\<rparr>\<rparr>) sample_heap)
      sample_group 0 True 1000)) sample_group 1000 * 100 \<le> 50 * 2"
  using ejection_cap [of "map (\<lambda>x. x\<lparr>i_counters := (i_counters x)\<lparr>consecutive_gw_fail := 4\<rparr>\<rparr>) sample_heap" sample_group 0 True 1000]
  by (simp add: record_outcome_def outlier_enabled_def sample_group_def sample_heap_def sat_add_def already_ejected_def
      is_outlier_ejected_def instance_new_def record_probe_success_def Let_def word_less_nat_alt word_le_nat_alt)

text \<open>
  A small pool never ejects.  When \<open>max_ejection_percent\<close> of the pool is less than one instance
  -- with the default of 10 percent, in every pool of fewer than ten -- no outcome ever ejects an
  instance, however long it keeps failing.
\<close>

theorem small_pool_never_ejects:
  assumes "unat (ug_outlier_max_ejection_percent g) * length (ep_instances (ug_endpoints g)) < 100"
  shows "\<not> snd (record_outcome hp g i failure now)"
  using record_outcome_True [of hp g i failure now] assms by force

theorem small_pool_never_ejects_witness:
  "\<not> snd (record_outcome sample_heap (sample_group\<lparr>ug_outlier_max_ejection_percent := 10\<rparr>) 0 True 1000)"
  by (rule small_pool_never_ejects) (simp add: sample_group_def)

end
