(* ===== verification/Permits.thy ===== *)
theory Permits
  imports Upstream_Group
begin

text \<open>
  The two admission counters that run lock-free: the circuit breaker of an upstream
  (\<open>control/src/upstream/circuit_breaker.rs\<close>), an optimistic increment that backs out, and the
  per-client connection cap (\<open>server/src/conn_limit.rs\<close>), a compare-and-exchange loop.  Each atomic
  operation is one step of one thread, so the step relations interleave the callers arbitrarily; the
  locale \<open>permit_counter\<close> is the contract both satisfy.
\<close>

subsection \<open>The contract\<close>

locale permit_counter =
  fixes step :: "'s \<Rightarrow> 's \<Rightarrow> bool" and inv :: "'s \<Rightarrow> bool" and held :: "'s \<Rightarrow> nat" and cap :: "'s \<Rightarrow> nat"
  assumes inv_step: "inv s \<Longrightarrow> step s s' \<Longrightarrow> inv s'"
    and cap_step: "step s s' \<Longrightarrow> cap s' = cap s"
    and inv_bound: "inv s \<Longrightarrow> held s \<le> cap s"
begin

lemma inv_run: "step\<^sup>*\<^sup>* s s' \<Longrightarrow> inv s \<Longrightarrow> inv s' \<and> cap s' = cap s"
  by (induction rule: rtranclp_induct) (auto intro: inv_step simp: cap_step)

lemma never_over_cap: "inv s \<Longrightarrow> step\<^sup>*\<^sup>* s s' \<Longrightarrow> held s' \<le> cap s"
  using inv_run inv_bound by metis

end

subsection \<open>The circuit breaker\<close>

text \<open>Where a caller of \<open>try_acquire\<close> is: not in it, about to back out, or holding a permit.\<close>

datatype breaker_pc = CbIdle | CbBackingOut | CbHolding

record breaker =
  cb_max_requests :: usize
  cb_in_flight :: usize
  cb_threads :: "breaker_pc list"

definition cb_fetch_add :: "nat \<Rightarrow> breaker \<Rightarrow> breaker" where
  "cb_fetch_add t b =
     (let prev = cb_in_flight b
      in b\<lparr>cb_in_flight := prev + 1,
           cb_threads := (cb_threads b)[t := if prev \<ge> cb_max_requests b then CbBackingOut else CbHolding]\<rparr>)"

definition cb_fetch_sub :: "nat \<Rightarrow> breaker \<Rightarrow> breaker" where
  "cb_fetch_sub t b = b\<lparr>cb_in_flight := cb_in_flight b - 1, cb_threads := (cb_threads b)[t := CbIdle]\<rparr>"

text \<open>The uninterrupted \<open>try_acquire\<close>, with the no-op permit of an unlimited breaker.\<close>

definition cb_try_acquire :: "nat \<Rightarrow> breaker \<Rightarrow> breaker \<times> bool" where
  "cb_try_acquire t b =
     (if cb_max_requests b = 0 then (b, True)
      else let b' = cb_fetch_add t b
           in if cb_in_flight b \<ge> cb_max_requests b then (cb_fetch_sub t b', False) else (b', True))"

inductive cb_step :: "breaker \<Rightarrow> breaker \<Rightarrow> bool" where
  enter: "t < length (cb_threads b) \<Longrightarrow> cb_threads b ! t = CbIdle \<Longrightarrow> cb_step b (cb_fetch_add t b)"
| back_out: "t < length (cb_threads b) \<Longrightarrow> cb_threads b ! t = CbBackingOut \<Longrightarrow> cb_step b (cb_fetch_sub t b)"
| release: "t < length (cb_threads b) \<Longrightarrow> cb_threads b ! t = CbHolding \<Longrightarrow> cb_step b (cb_fetch_sub t b)"

definition cb_held :: "breaker \<Rightarrow> nat" where
  "cb_held b = tally (\<lambda>pc. pc = CbHolding) (cb_threads b)"

definition cb_cap :: "breaker \<Rightarrow> nat" where
  "cb_cap b = unat (cb_max_requests b)"

definition cb_inv :: "breaker \<Rightarrow> bool" where
  "cb_inv b \<longleftrightarrow> length (cb_threads b) < 2 ^ 64
     \<and> unat (cb_in_flight b) = tally (\<lambda>pc. pc \<noteq> CbIdle) (cb_threads b)
     \<and> cb_held b \<le> cb_cap b"

lemma tally_lt_length: "t < length xs \<Longrightarrow> \<not> P (xs ! t) \<Longrightarrow> tally P xs < length xs"
  by (metis length_filter_less nth_mem tally_def)

lemma tally_pos: "t < length xs \<Longrightarrow> P (xs ! t) \<Longrightarrow> 0 < tally P xs"
  by (metis filter_empty_conv length_greater_0_conv nth_mem tally_def)

lemma unat_succ: "unat (w :: usize) < 2 ^ 64 - 1 \<Longrightarrow> unat (w + 1) = unat w + 1"
  by (simp add: unat_word_ariths)

lemma unat_pred: "0 < unat (w :: usize) \<Longrightarrow> unat (w - 1) = unat w - 1"
  by (rule unat_minus_one) auto

lemma cb_enter_inv:
  assumes "cb_inv b" and "t < length (cb_threads b)" and "cb_threads b ! t = CbIdle"
  shows "cb_inv (cb_fetch_add t b)"
proof -
  let ?busy = "\<lambda>pc. pc \<noteq> CbIdle"
  have cnt: "unat (cb_in_flight b) = tally ?busy (cb_threads b)" using assms(1) by (simp add: cb_inv_def)
  have "tally ?busy (cb_threads b) < length (cb_threads b)" using tally_lt_length [of t _ ?busy] assms(2,3) by simp
  then have succ: "unat (cb_in_flight b + 1) = unat (cb_in_flight b) + 1"
    using assms(1) cnt by (intro unat_succ) (simp add: cb_inv_def)
  have le: "cb_held b \<le> unat (cb_in_flight b)"
    unfolding cnt cb_held_def by (rule tally_mono) simp
  have busy: "tally ?busy ((cb_threads b)[t := pc]) = Suc (tally ?busy (cb_threads b))" if "pc \<noteq> CbIdle" for pc
    using tally_update [OF assms(2), of ?busy pc] that assms(3) by simp
  have hold: "tally (\<lambda>pc. pc = CbHolding) ((cb_threads b)[t := pc]) = cb_held b + (if pc = CbHolding then 1 else 0)" for pc
    using tally_update [OF assms(2), of "\<lambda>pc. pc = CbHolding" pc] assms(3) by (simp add: cb_held_def)
  show ?thesis
  proof (cases "cb_max_requests b \<le> cb_in_flight b")
    case True
    then show ?thesis
      using assms(1) succ cnt busy hold by (simp add: cb_inv_def cb_fetch_add_def Let_def cb_held_def cb_cap_def)
  next
    case False
    then have "cb_held b + 1 \<le> cb_cap b" using le by (simp add: word_le_nat_alt cb_cap_def)
    with False show ?thesis
      using assms(1) succ cnt busy hold by (simp add: cb_inv_def cb_fetch_add_def Let_def cb_held_def cb_cap_def)
  qed
qed

lemma cb_leave_inv:
  assumes "cb_inv b" and "t < length (cb_threads b)" and "cb_threads b ! t \<noteq> CbIdle"
  shows "cb_inv (cb_fetch_sub t b)"
proof -
  let ?busy = "\<lambda>pc. pc \<noteq> CbIdle"
  have cnt: "unat (cb_in_flight b) = tally ?busy (cb_threads b)" using assms(1) by (simp add: cb_inv_def)
  have pred: "unat (cb_in_flight b - 1) = unat (cb_in_flight b) - 1"
    using unat_pred tally_pos [of t "cb_threads b" ?busy] assms(2,3) cnt by simp
  note upd = tally_update [OF assms(2), of _ CbIdle]
  show ?thesis
    using assms pred cnt upd [of ?busy] upd [of "\<lambda>pc. pc = CbHolding"]
    by (auto simp: cb_inv_def cb_fetch_sub_def cb_held_def cb_cap_def split: if_splits)
qed

lemma cb_inv_bound: "cb_inv b \<Longrightarrow> cb_held b \<le> cb_cap b"
  by (simp add: cb_inv_def)

lemma cb_cap_kept: "cb_step b b' \<Longrightarrow> cb_cap b' = cb_cap b"
  by (auto elim!: cb_step.cases simp: cb_cap_def cb_fetch_add_def cb_fetch_sub_def Let_def)

interpretation cb: permit_counter cb_step cb_inv cb_held cb_cap
  by unfold_locales (auto elim!: cb_step.cases simp: cb_enter_inv cb_leave_inv cb_inv_bound,
    auto simp: cb_cap_def cb_fetch_add_def cb_fetch_sub_def Let_def)

definition cb_init :: "usize \<Rightarrow> nat \<Rightarrow> breaker" where
  "cb_init max_requests callers =
     \<lparr>cb_max_requests = max_requests, cb_in_flight = 0, cb_threads = replicate callers CbIdle\<rparr>"

lemma cb_inv_init: "callers < 2 ^ 64 \<Longrightarrow> cb_inv (cb_init m callers)"
  by (simp add: cb_inv_def cb_init_def cb_held_def tally_def)


lemma cb_overcount_run:
  defines "b0 \<equiv> cb_init 1 3"
  shows "cb_step\<^sup>*\<^sup>* b0 (cb_fetch_sub 0 (cb_fetch_add 1 (cb_fetch_add 0 b0)))"
proof -
  have s1: "cb_step b0 (cb_fetch_add 0 b0)" by (rule cb_step.enter) (simp_all add: b0_def cb_init_def)
  have s2: "cb_step (cb_fetch_add 0 b0) (cb_fetch_add 1 (cb_fetch_add 0 b0))"
    by (rule cb_step.enter) (simp_all add: b0_def cb_init_def cb_fetch_add_def Let_def)
  have s3: "cb_step (cb_fetch_add 1 (cb_fetch_add 0 b0)) (cb_fetch_sub 0 (cb_fetch_add 1 (cb_fetch_add 0 b0)))"
    by (rule cb_step.release) (simp_all add: b0_def cb_init_def cb_fetch_add_def Let_def)
  show ?thesis
    by (rule converse_rtranclp_into_rtranclp [OF s1 converse_rtranclp_into_rtranclp [OF s2 r_into_rtranclp [of cb_step, OF s3]]])
qed


text \<open>
  A breaker can reject while idle.  With a cap of one there is a reachable state in which no
  permit is held and no request is in flight, yet the next caller is refused: another caller that
  was rejected has incremented the counter and not yet backed out.
\<close>

theorem breaker_spurious_rejection:
  "\<exists>b. cb_step\<^sup>*\<^sup>* (cb_init 1 3) b \<and> cb_held b = 0 \<and> cb_threads b ! 2 = CbIdle
     \<and> cb_threads (cb_fetch_add 2 b) ! 2 = CbBackingOut"
  by (rule exI, rule conjI, rule cb_overcount_run)
    (simp add: cb_init_def cb_fetch_add_def cb_fetch_sub_def cb_held_def Let_def numeral_eq_Suc)

text \<open>
  Without overlap the breaker is exact.  When no other caller is inside \<open>try_acquire\<close>, it refuses
  exactly when all \<open>max_requests\<close> permits are held, and a refusal leaves the counter as it was.
\<close>

theorem breaker_exact_without_overlap:
  assumes "cb_inv b" and "cb_max_requests b \<noteq> 0" and "\<forall>pc \<in> set (cb_threads b). pc \<noteq> CbBackingOut"
    and "t < length (cb_threads b)" and "cb_threads b ! t = CbIdle"
  shows "snd (cb_try_acquire t b) \<longleftrightarrow> cb_held b < cb_cap b"
    and "\<not> snd (cb_try_acquire t b) \<Longrightarrow> fst (cb_try_acquire t b) = b"
proof -
  have "tally (\<lambda>pc. pc \<noteq> CbIdle) (cb_threads b) = cb_held b"
    unfolding cb_held_def
  proof (rule tally_cong)
    fix pc assume "pc \<in> set (cb_threads b)"
    with assms(3) have "pc \<noteq> CbBackingOut" by blast
    then show "(pc \<noteq> CbIdle) = (pc = CbHolding)" by (rule_tac y = pc in breaker_pc.exhaust) simp_all
  qed
  then have "unat (cb_in_flight b) = cb_held b" using assms(1) by (simp add: cb_inv_def)
  then show "snd (cb_try_acquire t b) \<longleftrightarrow> cb_held b < cb_cap b"
    using assms(2) by (simp add: cb_try_acquire_def Let_def cb_cap_def word_le_nat_alt not_le)
  show "fst (cb_try_acquire t b) = b" if "\<not> snd (cb_try_acquire t b)"
    using that assms(2,4,5) list_update_id [of "cb_threads b" t]
    by (auto simp: cb_try_acquire_def Let_def cb_fetch_add_def cb_fetch_sub_def split: if_splits)
qed

theorem breaker_exact_without_overlap_witness:
  "snd (cb_try_acquire 0 (cb_init 1 2)) \<and> cb_held (cb_init 1 2) < cb_cap (cb_init 1 2)"
  using breaker_exact_without_overlap(1) [OF cb_inv_init, of 2 1 0]
  by (simp add: cb_init_def cb_held_def cb_cap_def tally_def)

subsection \<open>The per-client connection cap\<close>

text \<open>
  A caller that has read its slot's counter carries the value it read; the exchange succeeds only if
  the counter still has it, and may also fail spuriously, as \<open>compare_exchange_weak\<close> does.
\<close>

datatype conn_pc = CnIdle | CnLoop nat u32 | CnHolding nat

record conn_limit =
  cn_limit :: u32
  cn_slots :: "u32 list"
  cn_threads :: "conn_pc list"

definition cn_load :: "nat \<Rightarrow> nat \<Rightarrow> conn_limit \<Rightarrow> conn_limit" where
  "cn_load t slot c = c\<lparr>cn_threads := (cn_threads c)[t := CnLoop slot (cn_slots c ! slot)]\<rparr>"

definition cn_leave :: "nat \<Rightarrow> conn_limit \<Rightarrow> conn_limit" where
  "cn_leave t c = c\<lparr>cn_threads := (cn_threads c)[t := CnIdle]\<rparr>"

definition cn_exchange :: "nat \<Rightarrow> nat \<Rightarrow> u32 \<Rightarrow> conn_limit \<Rightarrow> conn_limit" where
  "cn_exchange t slot cur c =
     c\<lparr>cn_slots := (cn_slots c)[slot := cur + 1], cn_threads := (cn_threads c)[t := CnHolding slot]\<rparr>"

definition cn_drop :: "nat \<Rightarrow> nat \<Rightarrow> conn_limit \<Rightarrow> conn_limit" where
  "cn_drop t slot c =
     c\<lparr>cn_slots := (cn_slots c)[slot := cn_slots c ! slot - 1], cn_threads := (cn_threads c)[t := CnIdle]\<rparr>"

inductive cn_step :: "conn_limit \<Rightarrow> conn_limit \<Rightarrow> bool" where
  load: "t < length (cn_threads c) \<Longrightarrow> cn_threads c ! t = CnIdle \<Longrightarrow> slot < length (cn_slots c)
    \<Longrightarrow> cn_step c (cn_load t slot c)"
| refuse: "t < length (cn_threads c) \<Longrightarrow> cn_threads c ! t = CnLoop slot cur \<Longrightarrow> cur \<ge> cn_limit c
    \<Longrightarrow> cn_step c (cn_leave t c)"
| exchange: "t < length (cn_threads c) \<Longrightarrow> cn_threads c ! t = CnLoop slot cur \<Longrightarrow> cur < cn_limit c
    \<Longrightarrow> cn_slots c ! slot = cur \<Longrightarrow> cn_step c (cn_exchange t slot cur c)"
| again: "t < length (cn_threads c) \<Longrightarrow> cn_threads c ! t = CnLoop slot cur \<Longrightarrow> cur < cn_limit c
    \<Longrightarrow> cn_step c (cn_load t slot c)"
| close: "t < length (cn_threads c) \<Longrightarrow> cn_threads c ! t = CnHolding slot \<Longrightarrow> cn_step c (cn_drop t slot c)"

definition cn_held :: "nat \<Rightarrow> conn_limit \<Rightarrow> nat" where
  "cn_held slot c = tally (\<lambda>pc. pc = CnHolding slot) (cn_threads c)"

definition cn_cap :: "conn_limit \<Rightarrow> nat" where
  "cn_cap c = unat (cn_limit c)"

definition pc_slot_ok :: "nat \<Rightarrow> conn_pc \<Rightarrow> bool" where
  "pc_slot_ok n pc = (case pc of CnIdle \<Rightarrow> True | CnLoop s _ \<Rightarrow> s < n | CnHolding s \<Rightarrow> s < n)"

definition cn_inv :: "conn_limit \<Rightarrow> bool" where
  "cn_inv c \<longleftrightarrow> (\<forall>pc \<in> set (cn_threads c). pc_slot_ok (length (cn_slots c)) pc)
     \<and> (\<forall>s < length (cn_slots c). unat (cn_slots c ! s) = cn_held s c \<and> cn_held s c \<le> cn_cap c)"

lemma cn_threads_ok:
  "cn_inv c \<Longrightarrow> pc_slot_ok (length (cn_slots c)) pc \<Longrightarrow>
     \<forall>p \<in> set ((cn_threads c)[t := pc]). pc_slot_ok (length (cn_slots c)) p"
  using set_update_subset_insert [of "cn_threads c" t pc] by (auto simp: cn_inv_def)

lemma cn_at_ok: "cn_inv c \<Longrightarrow> t < length (cn_threads c) \<Longrightarrow> pc_slot_ok (length (cn_slots c)) (cn_threads c ! t)"
  by (simp add: cn_inv_def)

lemma cn_tally_update:
  "t < length xs \<Longrightarrow> tally (\<lambda>pc. pc = CnHolding s) (xs[t := pc]) + (if xs ! t = CnHolding s then 1 else 0)
     = tally (\<lambda>pc. pc = CnHolding s) xs + (if pc = CnHolding s then 1 else 0)"
  by (rule tally_update)

lemma cn_load_inv:
  assumes "cn_inv c" and "t < length (cn_threads c)" and "\<forall>s. cn_threads c ! t \<noteq> CnHolding s"
    and "pc_slot_ok (length (cn_slots c)) pc" and "\<forall>s. pc \<noteq> CnHolding s"
  shows "cn_inv (c\<lparr>cn_threads := (cn_threads c)[t := pc]\<rparr>)"
proof -
  have "cn_held s (c\<lparr>cn_threads := (cn_threads c)[t := pc]\<rparr>) = cn_held s c" for s
    using cn_tally_update [OF assms(2), of s pc] assms(3,5) by (simp add: cn_held_def)
  then show ?thesis using assms(1) cn_threads_ok [OF assms(1,4), of t] by (simp add: cn_inv_def cn_cap_def)
qed

lemma cn_exchange_inv:
  assumes "cn_inv c" and "t < length (cn_threads c)" and "cn_threads c ! t = CnLoop slot cur"
    and "cur < cn_limit c" and "cn_slots c ! slot = cur"
  shows "cn_inv (cn_exchange t slot cur c)"
proof -
  have slot: "slot < length (cn_slots c)" using cn_at_ok [OF assms(1,2)] assms(3) by (simp add: pc_slot_ok_def)
  have "unat cur < unat (cn_limit c)" using assms(4) by (simp add: word_less_nat_alt)
  then have succ: "unat (cur + 1) = unat cur + 1"
    using unat_le_max [of "cn_limit c"] by (simp add: unat_word_ariths)
  have held: "cn_held s (cn_exchange t slot cur c) = cn_held s c + (if s = slot then 1 else 0)" for s
    using cn_tally_update [OF assms(2), of s "CnHolding slot"] assms(3)
    by (auto simp: cn_held_def cn_exchange_def split: if_splits)
  have "\<forall>p \<in> set ((cn_threads c)[t := CnHolding slot]). pc_slot_ok (length (cn_slots c)) p"
    by (rule cn_threads_ok [OF assms(1)]) (simp add: pc_slot_ok_def slot)
  moreover have "unat (cn_slots (cn_exchange t slot cur c) ! s) = cn_held s (cn_exchange t slot cur c)
      \<and> cn_held s (cn_exchange t slot cur c) \<le> cn_cap c" if "s < length (cn_slots c)" for s
    using assms(1,5) that succ slot \<open>unat cur < unat (cn_limit c)\<close> unfolding held
    by (auto simp: cn_exchange_def cn_inv_def cn_cap_def nth_list_update)
  ultimately show ?thesis by (auto simp: cn_inv_def cn_exchange_def cn_cap_def)
qed

lemma cn_drop_inv:
  assumes "cn_inv c" and "t < length (cn_threads c)" and "cn_threads c ! t = CnHolding slot"
  shows "cn_inv (cn_drop t slot c)"
proof -
  have slot: "slot < length (cn_slots c)" using cn_at_ok [OF assms(1,2)] assms(3) by (simp add: pc_slot_ok_def)
  have pos: "0 < cn_held slot c" using tally_pos [OF assms(2), of "\<lambda>pc. pc = CnHolding slot"] assms(3) by (simp add: cn_held_def)
  then have "unat (cn_slots c ! slot) = cn_held slot c" "cn_slots c ! slot \<noteq> 0" using assms(1) slot by (auto simp: cn_inv_def)
  then have pred: "unat (cn_slots c ! slot - 1) = cn_held slot c - 1" using unat_minus_one by metis
  have held: "cn_held s (cn_drop t slot c) = cn_held s c - (if s = slot then 1 else 0)" for s
    using cn_tally_update [OF assms(2), of s CnIdle] assms(3) by (auto simp: cn_held_def cn_drop_def split: if_splits)
  have "\<forall>p \<in> set ((cn_threads c)[t := CnIdle]). pc_slot_ok (length (cn_slots c)) p"
    by (rule cn_threads_ok [OF assms(1)]) (simp add: pc_slot_ok_def)
  moreover have "unat (cn_slots (cn_drop t slot c) ! s) = cn_held s (cn_drop t slot c)
      \<and> cn_held s (cn_drop t slot c) \<le> cn_cap c" if "s < length (cn_slots c)" for s
    using assms(1) that pred slot unfolding held by (auto simp: cn_drop_def cn_inv_def nth_list_update intro: diff_le_self le_trans)
  ultimately show ?thesis by (auto simp: cn_inv_def cn_drop_def cn_cap_def)
qed

lemma cn_step_inv: "cn_step c c' \<Longrightarrow> cn_inv c \<Longrightarrow> cn_inv c'"
  by (induction rule: cn_step.induct)
    (auto simp: cn_load_def cn_leave_def cn_exchange_inv cn_drop_inv pc_slot_ok_def dest: cn_at_ok intro!: cn_load_inv)

lemma cn_held_le: "cn_inv c \<Longrightarrow> cn_held s c \<le> cn_cap c"
proof (cases "s < length (cn_slots c)")
  case False
  assume "cn_inv c"
  with False have "cn_held s c = 0"
    by (auto simp: cn_held_def tally_def filter_empty_conv cn_inv_def pc_slot_ok_def)
  then show ?thesis by simp
qed (simp add: cn_inv_def)

interpretation cn: permit_counter cn_step cn_inv "cn_held s" cn_cap for s
  by unfold_locales (auto simp: cn_step_inv cn_held_le,
    auto elim!: cn_step.cases simp: cn_cap_def cn_load_def cn_leave_def cn_exchange_def cn_drop_def)

definition cn_init :: "u32 \<Rightarrow> nat \<Rightarrow> conn_limit" where
  "cn_init limit callers =
     \<lparr>cn_limit = limit, cn_slots = replicate IP_SLOTS 0, cn_threads = replicate callers CnIdle\<rparr>"

lemma cn_inv_init: "cn_inv (cn_init l n)"
  by (simp add: cn_inv_def cn_init_def cn_held_def tally_def pc_slot_ok_def)

text \<open>
  C37: The connection cap is exact under every interleaving.  However the exchange loops of concurrent
  connections interleave, no slot ever has more open connections than the limit, and the slot's
  counter is exactly the number of its open connections, so it never refuses on an overcount.
\<close>

theorem conn_limit_exact:
  assumes "cn_step\<^sup>*\<^sup>* (cn_init limit callers) c"
  shows "cn_held slot c \<le> unat limit \<and> (slot < IP_SLOTS \<longrightarrow> unat (cn_slots c ! slot) = cn_held slot c)"
proof (intro conjI impI)
  show "cn_held slot c \<le> unat limit"
    using cn.never_over_cap [OF cn_inv_init assms] by (simp add: cn_cap_def cn_init_def)
  have "cn_inv c" using cn.inv_run [OF assms cn_inv_init] by blast
  moreover have "length (cn_slots c) = IP_SLOTS"
    using assms by (induction rule: rtranclp_induct)
      (auto elim!: cn_step.cases simp: cn_init_def cn_load_def cn_leave_def cn_exchange_def cn_drop_def)
  ultimately show "unat (cn_slots c ! slot) = cn_held slot c" if "slot < IP_SLOTS" using that by (simp add: cn_inv_def)
qed

theorem conn_limit_exact_witness:
  "cn_held 7 (cn_exchange 0 7 0 (cn_load 0 7 (cn_init 2 1))) \<le> unat (2 :: u32)"
proof (rule conjunct1 [OF conn_limit_exact])
  have s1: "cn_step (cn_init 2 1) (cn_load 0 7 (cn_init 2 1))"
    by (rule cn_step.load) (simp_all add: cn_init_def IP_SLOTS_def)
  have s2: "cn_step (cn_load 0 7 (cn_init 2 1)) (cn_exchange 0 7 0 (cn_load 0 7 (cn_init 2 1)))"
    by (rule cn_step.exchange) (simp_all add: cn_init_def cn_load_def IP_SLOTS_def word_less_nat_alt)
  show "cn_step\<^sup>*\<^sup>* (cn_init 2 1) (cn_exchange 0 7 0 (cn_load 0 7 (cn_init 2 1)))"
    by (rule converse_rtranclp_into_rtranclp [OF s1 r_into_rtranclp [of cn_step, OF s2]])
qed

end
