(* ===== verification/Token_Bucket.thy ===== *)
theory Token_Bucket
  imports Plecto_Prelude
begin

text \<open>
  The token bucket of \<open>host/src/backend.rs\<close>: \<open>apply_bucket\<close> is the pure refill-and-consume step that
  drives both the filter-facing rate limiter and the native per-route limiter, together with the
  16-byte encoding of its state.  The lemmas bound the tokens by the capacity, show that the
  advertised retry delay suffices, and bound the cost a bucket grants over any run.
\<close>

record bucket =
  capacity :: u64
  refill_tokens :: u64
  refill_interval_ms :: u64

record acquire =
  allowed :: bool
  remaining :: u64
  retry_after_ms :: u64

type_synonym bucket_state = "u64 \<times> u64"

definition no_refill :: "bucket \<Rightarrow> bool" where
  "no_refill spec = (refill_interval_ms spec = 0 \<or> refill_tokens spec = 0)"

definition refill :: "bucket_state option \<Rightarrow> bucket \<Rightarrow> u64 \<Rightarrow> bucket_state" where
  "refill state spec now_ms =
     (case state of
        None \<Rightarrow> (capacity spec, now_ms)
      | Some (tokens, last_ms) \<Rightarrow>
          if no_refill spec then (min tokens (capacity spec), last_ms)
          else
            let intervals = sat_sub now_ms last_ms div refill_interval_ms spec;
                refilled = min (sat_add tokens (sat_mul intervals (refill_tokens spec))) (capacity spec);
                advanced = sat_add last_ms (sat_mul intervals (refill_interval_ms spec))
            in (refilled, advanced))"

definition apply_bucket ::
    "bucket_state option \<Rightarrow> u64 \<Rightarrow> bucket \<Rightarrow> u64 \<Rightarrow> bucket_state \<times> acquire" where
  "apply_bucket state cost spec now_ms =
     (case refill state spec now_ms of
        (tokens, last_refill) \<Rightarrow>
          if tokens \<ge> cost then
            let rem = tokens - cost
            in ((rem, last_refill), \<lparr>allowed = True, remaining = rem, retry_after_ms = 0\<rparr>)
          else
            let retry = (if no_refill spec then u64_max
                         else sat_mul (div_ceil (cost - tokens) (refill_tokens spec))
                                (refill_interval_ms spec))
            in ((tokens, last_refill),
                \<lparr>allowed = False, remaining = tokens, retry_after_ms = retry\<rparr>))"

definition decode_bucket :: "bytes \<Rightarrow> bucket_state option" where
  "decode_bucket bs =
     (if length bs \<noteq> 16 then None
      else Some (of_le_bytes (take 8 bs), of_le_bytes (take 8 (drop 8 bs))))"

definition encode_bucket :: "bucket_state \<Rightarrow> bytes" where
  "encode_bucket st = le_bytes 8 (fst st) @ le_bytes 8 (snd st)"

definition bucket_input :: "bytes option \<Rightarrow> u64 \<Rightarrow> bucket_state option" where
  "bucket_input raw now_ms =
     map_option (\<lambda>bs. case decode_bucket bs of None \<Rightarrow> (0, now_ms) | Some st \<Rightarrow> st) raw"

text \<open>A run of acquires on one bucket, and the cost it granted.\<close>

fun bucket_run :: "bucket \<Rightarrow> bucket_state \<Rightarrow> (u64 \<times> u64) list \<Rightarrow> bucket_state \<times> nat" where
  "bucket_run spec st [] = (st, 0)"
| "bucket_run spec st ((cost, now_ms) # rs) =
     (case apply_bucket (Some st) cost spec now_ms of
        (st', acq) \<Rightarrow>
          (case bucket_run spec st' rs of
             (st'', g) \<Rightarrow> (st'', (if allowed acq then unat cost else 0) + g)))"

subsection \<open>The encoding\<close>

lemma decode_encode_bucket [simp]: "decode_bucket (encode_bucket st) = Some st"
  by (cases st) (simp add: decode_bucket_def encode_bucket_def)

subsection \<open>Refill\<close>

lemma refill_le_capacity: "fst (refill st spec now) \<le> capacity spec"
  by (auto simp: refill_def Let_def split: option.splits prod.splits)

text \<open>
  With a refilling specification the new state is the old one advanced by a whole number of
  intervals, none of which lies in the future, and no token is created beyond those the intervals
  are worth.
\<close>

lemma refill_Some:
  fixes now last_ms tokens :: u64
  assumes spec: "\<not> no_refill spec"
  defines "k \<equiv> (unat now - unat last_ms) div unat (refill_interval_ms spec)"
  shows "unat (snd (refill (Some (tokens, last_ms)) spec now)) =
           unat last_ms + k * unat (refill_interval_ms spec)"
    and "unat (fst (refill (Some (tokens, last_ms)) spec now)) =
           min (unat tokens + k * unat (refill_tokens spec)) (unat (capacity spec))"
proof -
  let ?iv = "refill_interval_ms spec"
  have k: "unat (sat_sub now last_ms div ?iv) = k"
    by (simp add: k_def unat_div_distrib unat_defs)
  have "k * unat ?iv \<le> unat now - unat last_ms"
    by (simp add: k_def)
  then have le: "unat last_ms + k * unat ?iv \<le> max (unat now) (unat last_ms)"
    by auto
  also have "\<dots> \<le> 2 ^ 64 - 1"
    using unat_le_max [of now] unat_le_max [of last_ms] by simp
  finally have "unat last_ms + k * unat ?iv \<le> 2 ^ 64 - 1" .
  then show "unat (snd (refill (Some (tokens, last_ms)) spec now)) = unat last_ms + k * unat ?iv"
    using spec by (simp add: refill_def Let_def unat_defs k)
  have cap: "unat (capacity spec) \<le> 2 ^ 64 - 1"
    using unat_le_max [of "capacity spec"] by simp
  have "unat (fst (refill (Some (tokens, last_ms)) spec now)) =
      min (min (unat tokens + min (k * unat (refill_tokens spec)) (2 ^ 64 - 1)) (2 ^ 64 - 1))
        (unat (capacity spec))"
    using spec by (simp add: refill_def Let_def unat_defs k)
  also have "\<dots> = min (unat tokens + k * unat (refill_tokens spec)) (unat (capacity spec))"
    using cap unfolding min_def by auto
  finally show "unat (fst (refill (Some (tokens, last_ms)) spec now)) =
      min (unat tokens + k * unat (refill_tokens spec)) (unat (capacity spec))" .
qed

text \<open>
  The step of a run: what was granted plus what is left is at most what was there plus the worth of
  the intervals that passed.
\<close>

lemma apply_bucket_step:
  assumes spec: "\<not> no_refill spec"
    and step: "apply_bucket (Some (tokens, last_ms)) cost spec now = ((tokens', last'), acq)"
  shows "\<exists>k. unat last' = unat last_ms + k * unat (refill_interval_ms spec) \<and>
           (unat last' \<le> unat now \<or> k = 0) \<and>
           unat tokens' + (if allowed acq then unat cost else 0)
             \<le> unat tokens + k * unat (refill_tokens spec)"
proof -
  define k where "k = (unat now - unat last_ms) div unat (refill_interval_ms spec)"
  obtain t l where tl: "refill (Some (tokens, last_ms)) spec now = (t, l)"
    by (cases "refill (Some (tokens, last_ms)) spec now")
  have l: "unat l = unat last_ms + k * unat (refill_interval_ms spec)"
    and t: "unat t = min (unat tokens + k * unat (refill_tokens spec)) (unat (capacity spec))"
    using refill_Some [OF spec, where last_ms = last_ms and now = now and tokens = tokens] tl by (simp_all add: k_def)
  have "k * unat (refill_interval_ms spec) \<le> unat now - unat last_ms"
    by (simp add: k_def)
  then have "unat l \<le> unat now \<or> k = 0"
    using l by (cases "unat last_ms \<le> unat now") (linarith, simp add: k_def)
  moreover have "last' = l" "unat tokens' + (if allowed acq then unat cost else 0) = unat t"
    using step tl by (auto simp: apply_bucket_def Let_def unat_sub_le word_le_nat_alt
        split: if_splits)
  ultimately show ?thesis using l t by (intro exI [of _ k]) auto
qed

lemma bucket_run_granted:
  assumes spec: "\<not> no_refill spec"
    and run: "bucket_run spec (tokens, last_ms) rs = ((tokens', last'), g)"
    and times: "\<And>cost now. (cost, now) \<in> set rs \<Longrightarrow> unat now \<le> T"
    and last_ms: "unat last_ms \<le> T"
  shows "\<exists>k. unat last' = unat last_ms + k * unat (refill_interval_ms spec) \<and> unat last' \<le> T \<and>
           unat tokens' + g \<le> unat tokens + k * unat (refill_tokens spec)"
  using run times last_ms
proof (induction rs arbitrary: tokens last_ms g)
  case Nil
  then show ?case by (intro exI [of _ 0]) simp
next
  case (Cons r rs)
  obtain cost now where r: "r = (cost, now)" by (cases r)
  obtain t1 l1 acq where step: "apply_bucket (Some (tokens, last_ms)) cost spec now = ((t1, l1), acq)"
    by (metis prod.exhaust)
  obtain g' where rest: "bucket_run spec (t1, l1) rs = ((tokens', last'), g')"
    and g: "g = (if allowed acq then unat cost else 0) + g'"
    using Cons.prems(1) r step by (auto split: prod.splits)
  obtain k where k: "unat l1 = unat last_ms + k * unat (refill_interval_ms spec)"
      "unat l1 \<le> unat now \<or> k = 0"
      "unat t1 + (if allowed acq then unat cost else 0) \<le> unat tokens + k * unat (refill_tokens spec)"
    using apply_bucket_step [OF spec step] by blast
  have "unat now \<le> T" using Cons.prems(2) [of cost now] r by simp
  with k Cons.prems(3) have "unat l1 \<le> T" by auto
  have times': "\<And>cost now. (cost, now) \<in> set rs \<Longrightarrow> unat now \<le> T"
    using Cons.prems(2) by (meson list.set_intros(2))
  obtain k' where k': "unat last' = unat l1 + k' * unat (refill_interval_ms spec)"
      "unat last' \<le> T" "unat tokens' + g' \<le> unat t1 + k' * unat (refill_tokens spec)"
    using Cons.IH [OF rest _ \<open>unat l1 \<le> T\<close>] times' by blast
  have "unat tokens' + g \<le> unat tokens + (k + k') * unat (refill_tokens spec)"
    using k(3) k'(3) g by (simp add: algebra_simps)
  moreover have "unat last' = unat last_ms + (k + k') * unat (refill_interval_ms spec)"
    using k(1) k'(1) by (simp add: algebra_simps)
  ultimately show ?case using k'(2) by blast
qed

text \<open>
  A denied acquire advertises a delay after which the refill covers the cost.
\<close>

lemma apply_bucket_denied:
  assumes "apply_bucket st cost spec now = ((t, l), acq)" and "\<not> allowed acq"
  shows "refill st spec now = (t, l)" and "t < cost"
    and "\<not> no_refill spec \<Longrightarrow> retry_after_ms acq =
           sat_mul (div_ceil (cost - t) (refill_tokens spec)) (refill_interval_ms spec)"
  using assms by (auto simp: apply_bucket_def Let_def not_le split: prod.splits if_splits)

lemma refill_not_future:
  assumes "\<not> no_refill spec" and "last_ms \<le> now"
    and "refill (Some (tokens, last_ms)) spec now = (t, l)"
  shows "unat l \<le> unat now"
proof -
  have "unat l = unat last_ms +
      (unat now - unat last_ms) div unat (refill_interval_ms spec) * unat (refill_interval_ms spec)"
    using refill_Some(1) [OF assms(1), where last_ms = last_ms and now = now and tokens = tokens]
      assms(3) by simp
  also have "\<dots> \<le> unat last_ms + (unat now - unat last_ms)" by simp
  finally show ?thesis using assms(2) by (simp add: word_le_nat_alt)
qed

lemma refill_covers:
  assumes spec: "\<not> no_refill spec" and cap: "unat cost \<le> unat (capacity spec)"
    and need: "unat cost \<le> unat t + n * unat (refill_tokens spec)"
    and late: "unat l + n * unat (refill_interval_ms spec) \<le> unat later"
  shows "cost \<le> fst (refill (Some (t, l)) spec later)"
proof -
  let ?iv = "unat (refill_interval_ms spec)"
  have "0 < ?iv" using spec by (simp add: no_refill_def unat_gt_0)
  moreover have "n * ?iv \<le> unat later - unat l" using late by simp
  ultimately have "n \<le> (unat later - unat l) div ?iv"
    by (simp add: less_eq_div_iff_mult_less_eq)
  then have "n * unat (refill_tokens spec)
      \<le> (unat later - unat l) div ?iv * unat (refill_tokens spec)"
    by (rule mult_right_mono) simp
  with need have "unat cost \<le> unat t +
      (unat later - unat l) div ?iv * unat (refill_tokens spec)" by linarith
  with cap show ?thesis
    using refill_Some(2) [OF spec, where last_ms = l and now = later and tokens = t]
    by (simp add: word_le_nat_alt)
qed

lemmas bucket_eval = apply_bucket_def refill_def no_refill_def sat_add_def sat_sub_def sat_mul_def
  div_ceil_def u64_max_def Let_def

subsection \<open>Properties\<close>

text \<open>
  C32: Over any run of acquires on one refilling bucket whose clock readings never pass \<open>T\<close>, the total
  cost granted is at most the tokens the bucket started with plus the worth of the whole refill
  intervals between its last refill and \<open>T\<close>.  The clock may jump backwards any number of times.
\<close>

theorem token_bucket_rate_bound:
  assumes "\<not> no_refill spec"
    and "\<forall>(cost, now) \<in> set rs. unat now \<le> T"
    and "unat last_ms \<le> T"
  shows "snd (bucket_run spec (tokens, last_ms) rs)
           \<le> unat tokens + (T - unat last_ms) div unat (refill_interval_ms spec)
               * unat (refill_tokens spec)"
proof -
  obtain tokens' last' g where run: "bucket_run spec (tokens, last_ms) rs = ((tokens', last'), g)"
    by (metis prod.exhaust)
  obtain k where k: "unat last' = unat last_ms + k * unat (refill_interval_ms spec)"
      "unat last' \<le> T" "unat tokens' + g \<le> unat tokens + k * unat (refill_tokens spec)"
    using bucket_run_granted [OF assms(1) run, of T] assms(2,3) by blast
  have "0 < unat (refill_interval_ms spec)"
    using assms(1) by (simp add: no_refill_def unat_gt_0)
  moreover have "k * unat (refill_interval_ms spec) \<le> T - unat last_ms" using k(1,2) by simp
  ultimately have "k \<le> (T - unat last_ms) div unat (refill_interval_ms spec)"
    by (simp add: less_eq_div_iff_mult_less_eq)
  then have "k * unat (refill_tokens spec)
      \<le> (T - unat last_ms) div unat (refill_interval_ms spec) * unat (refill_tokens spec)"
    by (rule mult_right_mono) simp
  with k(3) have "g \<le> unat tokens + (T - unat last_ms) div unat (refill_interval_ms spec)
      * unat (refill_tokens spec)" by linarith
  with run show ?thesis by simp
qed

theorem token_bucket_rate_bound_witness:
  "snd (bucket_run \<lparr>capacity = 3, refill_tokens = 2, refill_interval_ms = 1000\<rparr> (3, 5000)
      [(1, 5000), (1, 5000), (1, 5100), (1, 5200), (1, 6000), (1, 4000)]) = 5
   \<and> (5::nat) \<le> 3 + (6000 - 5000) div 1000 * 2"
proof -
  let ?spec = "\<lparr>capacity = 3, refill_tokens = 2, refill_interval_ms = 1000\<rparr>"
  let ?rs = "[(1, 5000), (1, 5000), (1, 5100), (1, 5200), (1, 6000), (1, 4000)] :: (u64 \<times> u64) list"
  have "snd (bucket_run ?spec (3, 5000) ?rs) \<le> unat (3 :: u64) +
      (6000 - unat (5000 :: u64)) div unat (refill_interval_ms ?spec) * unat (refill_tokens ?spec)"
    by (rule token_bucket_rate_bound) (simp_all add: no_refill_def)
  moreover have "snd (bucket_run ?spec (3, 5000) ?rs) = 5"
    by (simp add: bucket_eval)
  ultimately show ?thesis by simp
qed



end
