(* ===== verification/Kv_Backend.thy ===== *)
theory Kv_Backend
  imports Token_Bucket
begin

text \<open>
  The host-held state store of \<open>host/src/backend.rs\<close>.  The trait \<open>KvBackend\<close> is a record of
  operations (the method table of the \<open>dyn KvBackend\<close> object the host holds), its contract the
  locale \<open>kv_backend\<close>; \<open>memory_backend\<close> is the in-memory implementation, which interprets the
  locale.  A key is a byte string, one \<open>char\<close> a byte.
\<close>

type_synonym kv_key = string

record 's kv_ops =
  kv_may_block :: bool
  kv_get :: "'s \<Rightarrow> kv_key \<Rightarrow> bytes option"
  kv_set :: "'s \<Rightarrow> kv_key \<Rightarrow> bytes \<Rightarrow> 's"
  kv_delete :: "'s \<Rightarrow> kv_key \<Rightarrow> 's"
  kv_increment :: "'s \<Rightarrow> kv_key \<Rightarrow> u64 \<Rightarrow> 's \<times> u64"
  kv_try_acquire :: "'s \<Rightarrow> kv_key \<Rightarrow> u64 \<Rightarrow> bucket \<Rightarrow> u64 \<Rightarrow> 's \<times> acquire"

text \<open>Counters are \<open>i64\<close>: two's complement words with saturating signed addition.\<close>

definition sat_add_i64 :: "u64 \<Rightarrow> u64 \<Rightarrow> u64" where
  "sat_add_i64 a b = word_of_int (max (- (2 ^ 63)) (min (2 ^ 63 - 1) (sint a + sint b)))"

definition decode_i64 :: "bytes \<Rightarrow> u64" where
  "decode_i64 bs = of_le_bytes (take 8 bs)"

definition counter_value :: "bytes option \<Rightarrow> u64" where
  "counter_value raw = decode_i64 (case raw of None \<Rightarrow> [] | Some v \<Rightarrow> v)"

type_synonym memory = "kv_key \<rightharpoonup> bytes"

definition mem_get :: "memory \<Rightarrow> kv_key \<Rightarrow> bytes option" where
  "mem_get m k = m k"

definition mem_set :: "memory \<Rightarrow> kv_key \<Rightarrow> bytes \<Rightarrow> memory" where
  "mem_set m k v = m(k \<mapsto> v)"

definition mem_delete :: "memory \<Rightarrow> kv_key \<Rightarrow> memory" where
  "mem_delete m k = m(k := None)"

definition mem_increment :: "memory \<Rightarrow> kv_key \<Rightarrow> u64 \<Rightarrow> memory \<times> u64" where
  "mem_increment m k delta =
     (let cur = counter_value (m k)
      in if delta = 0 then (m, cur)
         else let nxt = sat_add_i64 cur delta in (m(k \<mapsto> le_bytes 8 nxt), nxt))"

definition mem_try_acquire ::
    "memory \<Rightarrow> kv_key \<Rightarrow> u64 \<Rightarrow> bucket \<Rightarrow> u64 \<Rightarrow> memory \<times> acquire" where
  "mem_try_acquire m k cost spec now_ms =
     (let prev = bucket_input (m k) now_ms
      in case apply_bucket prev cost spec now_ms of
           (nxt, result) \<Rightarrow> (m(k \<mapsto> encode_bucket nxt), result))"

definition memory_backend :: "memory kv_ops" where
  "memory_backend =
     \<lparr>kv_may_block = False, kv_get = mem_get, kv_set = mem_set, kv_delete = mem_delete,
      kv_increment = mem_increment, kv_try_acquire = mem_try_acquire\<rparr>"

text \<open>
  The contract a backend promises its host: reads see the last write to the same key and no write
  to another key, a counter is the saturating sum of its deltas with a missing key worth 0 and a zero
  delta a pure read, and an acquire is the token-bucket step on the stored state, a malformed state
  counting as an empty bucket.
\<close>

locale kv_backend =
  fixes be :: "'s kv_ops"
  assumes get_set: "kv_get be (kv_set be s k v) k' = (if k' = k then Some v else kv_get be s k')"
    and get_delete: "kv_get be (kv_delete be s k) k' = (if k' = k then None else kv_get be s k')"
    and increment_value: "snd (kv_increment be s k d) =
          (if d = 0 then counter_value (kv_get be s k)
           else sat_add_i64 (counter_value (kv_get be s k)) d)"
    and get_increment: "kv_get be (fst (kv_increment be s k d)) k' =
          (if d \<noteq> 0 \<and> k' = k then Some (le_bytes 8 (snd (kv_increment be s k d)))
           else kv_get be s k')"
    and acquire_value: "snd (kv_try_acquire be s k c spec now) =
          snd (apply_bucket (bucket_input (kv_get be s k) now) c spec now)"
    and get_acquire: "kv_get be (fst (kv_try_acquire be s k c spec now)) k' =
          (if k' = k
           then Some (encode_bucket (fst (apply_bucket (bucket_input (kv_get be s k) now) c spec now)))
           else kv_get be s k')"
begin

lemmas laws = get_set get_delete increment_value get_increment acquire_value get_acquire

text \<open>A counter read back after an increment is the value the increment returned.\<close>

lemma counter_read_back:
  "d \<noteq> 0 \<Longrightarrow> snd (kv_increment be (fst (kv_increment be s k d)) k 0) = snd (kv_increment be s k d)"
  by (simp add: laws counter_value_def decode_i64_def)

text \<open>The bucket state is read back exactly, so a sequence of acquires is a run of the bucket.\<close>

lemma acquire_reads_back:
  "bucket_input (kv_get be (fst (kv_try_acquire be s k c spec now)) k) now' =
     Some (fst (apply_bucket (bucket_input (kv_get be s k) now) c spec now))"
  by (simp add: laws bucket_input_def)

lemma corrupt_bucket_denied:
  assumes "kv_get be s k = Some raw" and "length raw \<noteq> 16" and "c \<noteq> 0"
  shows "\<not> allowed (snd (kv_try_acquire be s k c spec now))"
proof -
  have "0 < unat c" using assms(3) by (simp add: unat_gt_0)
  with assms show ?thesis
    by (auto simp: laws bucket_input_def decode_bucket_def apply_bucket_def refill_def sat_sub_def
        sat_add_def sat_mul_def Let_def word_le_nat_alt split: prod.splits if_splits)
qed

end

interpretation mem: kv_backend memory_backend
  by unfold_locales
    (auto simp: memory_backend_def mem_get_def mem_set_def mem_delete_def mem_increment_def
      mem_try_acquire_def Let_def split: prod.splits)

text \<open>
  The in-memory backend fails closed on a corrupted rate-limit row: when the bytes stored under
  a key are not a 16-byte bucket state, every acquire of a non-zero cost on that key is denied.
\<close>

theorem corrupt_bucket_is_denied:
  assumes "mem_get m k = Some raw" and "length raw \<noteq> 16" and "c \<noteq> 0"
  shows "\<not> allowed (snd (mem_try_acquire m k c spec now))"
  using mem.corrupt_bucket_denied [of m k raw c spec now] assms
  by (simp add: memory_backend_def)

theorem corrupt_bucket_is_denied_witness:
  "\<not> allowed (snd (mem_try_acquire [''f'' \<mapsto> [1, 2, 3]] ''f'' 1
      \<lparr>capacity = 9, refill_tokens = 5, refill_interval_ms = 10\<rparr> 777))"
  by (rule corrupt_bucket_is_denied [where raw = "[1, 2, 3]"]) (simp_all add: mem_get_def)

end
