(* ===== verification/Kv_Quota.thy ===== *)
theory Kv_Quota
  imports Kv_Backend Plecto_Strings
begin

text \<open>
  The state quota of \<open>host/src/quota.rs\<close>: per-namespace and host-wide tallies of entries and bytes,
  the admission decision \<open>charge\<close>, the read-decide-write unit \<open>charge_and_apply\<close>, and the
  reconstruction of the tallies from a backend's startup inventory.  A \<open>usize\<close> tally is a natural
  number with its 64-bit bound written out in the checked operations; a signed delta is an integer.
  The accounting lemmas at the end relate a tally to the store it describes.
\<close>

definition MAX_NS_ENTRIES :: nat where
  "MAX_NS_ENTRIES = 100000"

definition MAX_NS_BYTES :: nat where
  "MAX_NS_BYTES = 64 * 2 ^ 20"

definition MAX_TOTAL_ENTRIES :: nat where
  "MAX_TOTAL_ENTRIES = 5000000"

definition MAX_TOTAL_BYTES :: nat where
  "MAX_TOTAL_BYTES = 2 ^ 30"

record quota =
  q_ns :: "string \<rightharpoonup> nat \<times> nat"
  total_entries :: nat
  total_bytes :: nat

definition quota_new :: quota where
  "quota_new = \<lparr>q_ns = Map.empty, total_entries = 0, total_bytes = 0\<rparr>"

definition usage_of :: "quota \<Rightarrow> string \<Rightarrow> nat \<times> nat" where
  "usage_of q ns = (case q_ns q ns of None \<Rightarrow> (0, 0) | Some u \<Rightarrow> u)"

definition checked_add_signed :: "nat \<Rightarrow> int \<Rightarrow> nat option" where
  "checked_add_signed a d = (if 0 \<le> int a + d \<and> int a + d < 2 ^ 64 then Some (nat (int a + d)) else None)"

definition over_cap :: "nat \<Rightarrow> nat \<Rightarrow> nat \<Rightarrow> nat \<Rightarrow> bool" where
  "over_cap ne nb te tb =
     (ne > MAX_NS_ENTRIES \<or> te > MAX_TOTAL_ENTRIES \<or> nb > MAX_NS_BYTES \<or> tb > MAX_TOTAL_BYTES)"

definition charge :: "quota \<Rightarrow> string \<Rightarrow> int \<Rightarrow> int \<Rightarrow> quota option" where
  "charge q ns de db =
     (case checked_add_signed (fst (usage_of q ns)) de of None \<Rightarrow> None | Some ne \<Rightarrow>
      case checked_add_signed (snd (usage_of q ns)) db of None \<Rightarrow> None | Some nb \<Rightarrow>
      case checked_add_signed (total_entries q) de of None \<Rightarrow> None | Some te \<Rightarrow>
      case checked_add_signed (total_bytes q) db of None \<Rightarrow> None | Some tb \<Rightarrow>
        if (de > 0 \<or> db > 0) \<and> over_cap ne nb te tb then None
        else Some (q\<lparr>q_ns := (q_ns q)(ns \<mapsto> (ne, nb)), total_entries := te, total_bytes := tb\<rparr>))"

definition charge_and_apply ::
    "quota \<Rightarrow> string \<Rightarrow> 's \<Rightarrow> ('s \<Rightarrow> int \<times> int) \<Rightarrow> ('s \<Rightarrow> 's \<times> 'r) \<Rightarrow> (quota \<times> 's \<times> 'r) option" where
  "charge_and_apply q ns s read_and_delta app =
     (case read_and_delta s of (de, db) \<Rightarrow>
        (case charge q ns de db of
           None \<Rightarrow> None
         | Some q' \<Rightarrow> (case app s of (s', r) \<Rightarrow> Some (q', s', r))))"

definition over_cap_summary :: "string list \<Rightarrow> quota \<Rightarrow> (nat \<times> nat \<times> nat) option" where
  "over_cap_summary names q =
     (let n = length (filter (\<lambda>ns. fst (usage_of q ns) > MAX_NS_ENTRIES
                                  \<or> snd (usage_of q ns) > MAX_NS_BYTES) names)
      in if n > 0 \<or> total_entries q > MAX_TOTAL_ENTRIES \<or> total_bytes q > MAX_TOTAL_BYTES
         then Some (n, total_entries q, total_bytes q) else None)"

subsection \<open>Restoring the tallies at startup\<close>

datatype restore_error = InvalidKey | Overflow

definition KV_NS_DELIM :: char where
  "KV_NS_DELIM = CHR 0x1F"

definition isize_max :: nat where
  "isize_max = 2 ^ 63 - 1"

definition checked_add_isize :: "nat \<Rightarrow> nat \<Rightarrow> nat option" where
  "checked_add_isize a b = (if a + b \<le> isize_max then Some (a + b) else None)"

definition parse_stored_key :: "kv_key \<Rightarrow> (string \<times> nat) option" where
  "parse_stored_key k =
     (case split_once KV_NS_DELIM k of
        None \<Rightarrow> None
      | Some (filter_id, tail) \<Rightarrow>
          if filter_id = [] \<or> from_utf8 filter_id = None then None
          else (case tail of
                  tag # d # guest_key \<Rightarrow>
                    if d = KV_NS_DELIM \<and> tag \<in> {CHR ''k'', CHR ''c'', CHR ''r''}
                    then Some (filter_id @ [KV_NS_DELIM], length guest_key) else None
                | _ \<Rightarrow> None))"

definition record_restored_entry :: "quota \<Rightarrow> kv_key \<Rightarrow> nat \<Rightarrow> (restore_error, quota) result" where
  "record_restored_entry q k value_len =
     (case parse_stored_key k of
        None \<Rightarrow> Inl InvalidKey
      | Some (ns, guest_key_len) \<Rightarrow>
        case checked_add_isize guest_key_len value_len of None \<Rightarrow> Inl Overflow | Some b \<Rightarrow>
        case checked_add_isize (fst (usage_of q ns)) 1 of None \<Rightarrow> Inl Overflow | Some ne \<Rightarrow>
        case checked_add_isize (snd (usage_of q ns)) b of None \<Rightarrow> Inl Overflow | Some nb \<Rightarrow>
        case checked_add_isize (total_entries q) 1 of None \<Rightarrow> Inl Overflow | Some te \<Rightarrow>
        case checked_add_isize (total_bytes q) b of None \<Rightarrow> Inl Overflow | Some tb \<Rightarrow>
          Inr (q\<lparr>q_ns := (q_ns q)(ns \<mapsto> (ne, nb)), total_entries := te, total_bytes := tb\<rparr>))"

fun restore_from :: "quota \<Rightarrow> (kv_key \<times> nat) list \<Rightarrow> (restore_error, quota) result" where
  "restore_from q [] = Inr q"
| "restore_from q ((k, n) # es) =
     (case record_restored_entry q k n of Inl e \<Rightarrow> Inl e | Inr q' \<Rightarrow> restore_from q' es)"

definition restore :: "(kv_key \<times> nat) list \<Rightarrow> (restore_error, quota) result" where
  "restore entries = restore_from quota_new entries"

subsection \<open>What a tally describes\<close>

text \<open>
  The namespace of a stored key is its part up to and including the first delimiter, the part it is
  charged for is what follows the tag.  A quota accounts for a store when every tally is the number
  and the size of the entries it is about.
\<close>

definition key_ns :: "kv_key \<Rightarrow> string" where
  "key_ns k = takeWhile (\<lambda>c. c \<noteq> KV_NS_DELIM) k @ [KV_NS_DELIM]"

definition guest_len :: "kv_key \<Rightarrow> nat" where
  "guest_len k = length k - (length (key_ns k) + 2)"

definition present :: "bytes option \<Rightarrow> int" where
  "present v = (case v of None \<Rightarrow> 0 | Some _ \<Rightarrow> 1)"

definition weight_of :: "kv_key \<Rightarrow> bytes option \<Rightarrow> int" where
  "weight_of k v = (case v of None \<Rightarrow> 0 | Some b \<Rightarrow> int (guest_len k + length b))"

definition entries_in :: "memory \<Rightarrow> (kv_key \<Rightarrow> bool) \<Rightarrow> int" where
  "entries_in m P = (\<Sum>k\<in>{k \<in> dom m. P k}. present (m k))"

definition bytes_in :: "memory \<Rightarrow> (kv_key \<Rightarrow> bool) \<Rightarrow> int" where
  "bytes_in m P = (\<Sum>k\<in>{k \<in> dom m. P k}. weight_of k (m k))"

definition in_ns :: "string \<Rightarrow> kv_key \<Rightarrow> bool" where
  "in_ns ns k = (key_ns k = ns)"

definition any_key :: "kv_key \<Rightarrow> bool" where
  "any_key k = True"

definition accounts :: "quota \<Rightarrow> memory \<Rightarrow> bool" where
  "accounts q m \<longleftrightarrow> finite (dom m)
     \<and> int (total_entries q) = entries_in m any_key
     \<and> int (total_bytes q) = bytes_in m any_key
     \<and> (\<forall>ns. int (fst (usage_of q ns)) = entries_in m (in_ns ns))
     \<and> (\<forall>ns. int (snd (usage_of q ns)) = bytes_in m (in_ns ns))"

definition within_caps :: "quota \<Rightarrow> bool" where
  "within_caps q \<longleftrightarrow> total_entries q \<le> MAX_TOTAL_ENTRIES \<and> total_bytes q \<le> MAX_TOTAL_BYTES
     \<and> (\<forall>ns. fst (usage_of q ns) \<le> MAX_NS_ENTRIES \<and> snd (usage_of q ns) \<le> MAX_NS_BYTES)"

subsection \<open>Accounting of a single write\<close>

lemma sum_dom_update:
  fixes w :: "'k \<Rightarrow> 'v option \<Rightarrow> int"
  assumes fin: "finite (dom m)" and zero: "\<And>k. w k None = 0"
  shows "(\<Sum>x\<in>{x \<in> dom (m(k := v)). P x}. w x ((m(k := v)) x)) =
           (\<Sum>x\<in>{x \<in> dom m. P x}. w x (m x)) + (if P k then w k v - w k (m k) else 0)"
proof -
  let ?D = "insert k (dom m)"
  have ext: "(\<Sum>x\<in>{x \<in> dom f. P x}. w x (f x)) = (\<Sum>x\<in>{x \<in> ?D. P x}. w x (f x))"
    if "dom f \<subseteq> ?D" for f
  proof (rule sum.mono_neutral_left)
    show "\<forall>x\<in>{x \<in> ?D. P x} - {x \<in> dom f. P x}. w x (f x) = 0"
      using zero by (metis (no_types, lifting) DiffE domIff mem_Collect_eq)
  qed (use fin that in auto)
  have split: "(\<Sum>x\<in>{x \<in> ?D. P x}. w x (f x)) =
      (\<Sum>x\<in>{x \<in> dom m - {k}. P x}. w x (f x)) + (if P k then w k (f k) else 0)" for f
  proof (cases "P k")
    case True
    then have "{x \<in> ?D. P x} = insert k {x \<in> dom m - {k}. P x}" by auto
    with True fin show ?thesis by simp
  next
    case False
    then have "{x \<in> ?D. P x} = {x \<in> dom m - {k}. P x}" by auto
    with False show ?thesis by simp
  qed
  have "(\<Sum>x\<in>{x \<in> dom m - {k}. P x}. w x ((m(k := v)) x)) = (\<Sum>x\<in>{x \<in> dom m - {k}. P x}. w x (m x))"
    by (rule sum.cong) auto
  moreover have "dom m \<subseteq> ?D" and "dom (m(k := v)) \<subseteq> ?D" by auto
  ultimately show ?thesis
    using ext [of m] ext [of "m(k := v)"] split [of m] split [of "m(k := v)"] by simp
qed

lemma entries_in_update:
  "finite (dom m) \<Longrightarrow> entries_in (m(k := v)) P =
     entries_in m P + (if P k then present v - present (m k) else 0)"
  unfolding entries_in_def by (rule sum_dom_update [where w = "\<lambda>_. present"]) (simp_all add: present_def)

lemma bytes_in_update:
  "finite (dom m) \<Longrightarrow> bytes_in (m(k := v)) P =
     bytes_in m P + (if P k then weight_of k v - weight_of k (m k) else 0)"
  unfolding bytes_in_def by (rule sum_dom_update) (simp_all add: weight_of_def)

lemma checked_add_signed_Some:
  "checked_add_signed a d = Some b \<Longrightarrow> int b = int a + d"
  by (auto simp: checked_add_signed_def split: if_splits)

lemma chargeD:
  assumes "charge q ns de db = Some q'"
  shows "int (fst (usage_of q' ns)) = int (fst (usage_of q ns)) + de"
    and "int (snd (usage_of q' ns)) = int (snd (usage_of q ns)) + db"
    and "int (total_entries q') = int (total_entries q) + de"
    and "int (total_bytes q') = int (total_bytes q) + db"
    and "ns' \<noteq> ns \<Longrightarrow> usage_of q' ns' = usage_of q ns'"
    and "de > 0 \<or> db > 0 \<Longrightarrow> fst (usage_of q' ns) \<le> MAX_NS_ENTRIES \<and> snd (usage_of q' ns) \<le> MAX_NS_BYTES
           \<and> total_entries q' \<le> MAX_TOTAL_ENTRIES \<and> total_bytes q' \<le> MAX_TOTAL_BYTES"
  using assms
  by (auto simp: charge_def usage_of_def over_cap_def dest: checked_add_signed_Some
      split: option.splits if_splits)

lemma charge_accounts:
  assumes "charge q (key_ns k) (present v - present (m k)) (weight_of k v - weight_of k (m k)) = Some q'"
    and "accounts q m"
  shows "accounts q' (m(k := v))"
proof -
  note c = chargeD(1-4) [OF assms(1)] chargeD(5) [OF assms(1)]
  have "int (fst (usage_of q' ns)) = entries_in (m(k := v)) (in_ns ns)"
    and "int (snd (usage_of q' ns)) = bytes_in (m(k := v)) (in_ns ns)" for ns
    using c assms(2) by (cases "ns = key_ns k";
        auto simp: accounts_def entries_in_update bytes_in_update in_ns_def)+
  then show ?thesis
    using c assms(2) by (simp add: accounts_def entries_in_update bytes_in_update any_key_def)
qed

lemma charge_within_caps:
  assumes "charge q ns de db = Some q'" and "within_caps q"
  shows "within_caps q'"
proof (cases "de > 0 \<or> db > 0")
  case True
  show ?thesis
    unfolding within_caps_def
    using chargeD(6) [OF assms(1) True] chargeD(5) [OF assms(1)] assms(2)
    by (metis within_caps_def)
next
  case False
  then have le: "fst (usage_of q' ns) \<le> fst (usage_of q ns)" "snd (usage_of q' ns) \<le> snd (usage_of q ns)"
    "total_entries q' \<le> total_entries q" "total_bytes q' \<le> total_bytes q"
    using chargeD(1-4) [OF assms(1)] by linarith+
  show ?thesis
    unfolding within_caps_def
    using le chargeD(5) [OF assms(1)] assms(2)
    by (metis (no_types, lifting) order_trans within_caps_def)
qed

lemma accounts_new: "accounts quota_new Map.empty"
  by (simp add: accounts_def quota_new_def usage_of_def entries_in_def bytes_in_def)

lemma within_caps_new: "within_caps quota_new"
  by (simp add: within_caps_def quota_new_def usage_of_def)

end
