(* ===== verification/Host_State.thy ===== *)
theory Host_State
  imports Kv_Quota
begin

text \<open>
  The host API lent to a filter (\<open>host/src/state.rs\<close>): key-value store, counters, rate-limit
  buckets, configuration and logging.  A filter's own context is the record \<open>filter_ctx\<close>; the store
  and the quota are shared by every filter of the host.  Each host call is a function of both, and
  \<open>host_call\<close> is the sum of the calls that touch the shared state, so that a run of the host is a
  list of calls made by any filters in any order.  The lemmas are proved once for every backend that
  satisfies the \<open>kv_backend\<close> contract.
\<close>

definition MAX_KV_KEY_BYTES :: nat where
  "MAX_KV_KEY_BYTES = 1024"

definition MAX_KV_VALUE_BYTES :: nat where
  "MAX_KV_VALUE_BYTES = 256 * 1024"

definition TAG_KV :: char where
  "TAG_KV = CHR ''k''"

definition TAG_COUNTER :: char where
  "TAG_COUNTER = CHR ''c''"

definition TAG_RATELIMIT :: char where
  "TAG_RATELIMIT = CHR ''r''"

record filter_ctx =
  kv_prefix :: string
  ctx_now_ms :: u64
  ratelimit_bucket :: "bucket option"
  ctx_config :: "string \<rightharpoonup> string"

record 's shared_state =
  sh_store :: 's
  sh_quota :: quota

text \<open>The identity checks of \<open>Host::load\<close> and the prefix it derives from the identity.\<close>

definition filter_id_ok :: "string \<Rightarrow> bool" where
  "filter_id_ok fid \<longleftrightarrow> fid \<noteq> [] \<and> KV_NS_DELIM \<notin> set fid"

definition prefix_of :: "string \<Rightarrow> string" where
  "prefix_of fid = fid @ [KV_NS_DELIM]"

definition ns_key :: "filter_ctx \<Rightarrow> char \<Rightarrow> string \<Rightarrow> kv_key" where
  "ns_key h tag key = kv_prefix h @ [tag, KV_NS_DELIM] @ key"

subsection \<open>The host calls\<close>

definition host_kv_get :: "'s kv_ops \<Rightarrow> filter_ctx \<Rightarrow> 's shared_state \<Rightarrow> string \<Rightarrow> bytes option" where
  "host_kv_get be h sh key =
     (if length key > MAX_KV_KEY_BYTES then None else kv_get be (sh_store sh) (ns_key h TAG_KV key))"

definition commit ::
    "'s shared_state \<Rightarrow> (quota \<times> 's \<times> 'r) option \<Rightarrow> 'r \<Rightarrow> 's shared_state \<times> 'r" where
  "commit sh outcome denied =
     (case outcome of
        None \<Rightarrow> (sh, denied)
      | Some (q, s, r) \<Rightarrow> (sh\<lparr>sh_store := s, sh_quota := q\<rparr>, r))"

definition host_kv_set ::
    "'s kv_ops \<Rightarrow> filter_ctx \<Rightarrow> 's shared_state \<Rightarrow> string \<Rightarrow> bytes \<Rightarrow> 's shared_state" where
  "host_kv_set be h sh key value =
     (if length key > MAX_KV_KEY_BYTES \<or> length value > MAX_KV_VALUE_BYTES then sh
      else let nskey = ns_key h TAG_KV key
           in fst (commit sh
                (charge_and_apply (sh_quota sh) (kv_prefix h) (sh_store sh)
                   (\<lambda>s. case kv_get be s nskey of
                          None \<Rightarrow> (1, int (length key + length value))
                        | Some old \<Rightarrow> (0, int (length value) - int (length old)))
                   (\<lambda>s. (kv_set be s nskey value, ()))) ()))"

definition host_kv_delete ::
    "'s kv_ops \<Rightarrow> filter_ctx \<Rightarrow> 's shared_state \<Rightarrow> string \<Rightarrow> 's shared_state" where
  "host_kv_delete be h sh key =
     (if length key > MAX_KV_KEY_BYTES then sh
      else let nskey = ns_key h TAG_KV key
           in fst (commit sh
                (charge_and_apply (sh_quota sh) (kv_prefix h) (sh_store sh)
                   (\<lambda>s. case kv_get be s nskey of
                          Some old \<Rightarrow> (-1, - int (length key + length old))
                        | None \<Rightarrow> (0, 0))
                   (\<lambda>s. (kv_delete be s nskey, ()))) ()))"

text \<open>The entry and byte deltas of rewriting a row to a fixed-size encoding of \<open>width\<close> bytes.\<close>

definition fixed_delta :: "nat \<Rightarrow> nat \<Rightarrow> bytes option \<Rightarrow> int \<times> int" where
  "fixed_delta width key_len row =
     (case row of
        None \<Rightarrow> (1, int (key_len + width))
      | Some old \<Rightarrow> (0, int width - int (min (length old) isize_max)))"

definition host_counter_increment ::
    "'s kv_ops \<Rightarrow> filter_ctx \<Rightarrow> 's shared_state \<Rightarrow> string \<Rightarrow> u64 \<Rightarrow> 's shared_state \<times> u64" where
  "host_counter_increment be h sh key delta =
     (if length key > MAX_KV_KEY_BYTES then (sh, 0)
      else let nskey = ns_key h TAG_COUNTER key
           in if delta = 0
              then (case kv_increment be (sh_store sh) nskey 0 of
                      (s, v) \<Rightarrow> (sh\<lparr>sh_store := s\<rparr>, v))
              else commit sh
                (charge_and_apply (sh_quota sh) (kv_prefix h) (sh_store sh)
                   (\<lambda>s. fixed_delta 8 (length key) (kv_get be s nskey))
                   (\<lambda>s. kv_increment be s nskey delta)) 0)"

definition host_counter_get ::
    "'s kv_ops \<Rightarrow> filter_ctx \<Rightarrow> 's shared_state \<Rightarrow> string \<Rightarrow> 's shared_state \<times> u64" where
  "host_counter_get be h sh key =
     (if length key > MAX_KV_KEY_BYTES then (sh, 0)
      else case kv_increment be (sh_store sh) (ns_key h TAG_COUNTER key) 0 of
             (s, v) \<Rightarrow> (sh\<lparr>sh_store := s\<rparr>, v))"

definition deny :: acquire where
  "deny = \<lparr>allowed = False, remaining = 0, retry_after_ms = 0\<rparr>"

definition host_ratelimit_try_acquire ::
    "'s kv_ops \<Rightarrow> filter_ctx \<Rightarrow> 's shared_state \<Rightarrow> string \<Rightarrow> u64 \<Rightarrow> 's shared_state \<times> acquire" where
  "host_ratelimit_try_acquire be h sh key cost =
     (case ratelimit_bucket h of
        None \<Rightarrow> (sh, deny)
      | Some spec \<Rightarrow>
          if length key > MAX_KV_KEY_BYTES then (sh, deny)
          else let nskey = ns_key h TAG_RATELIMIT key
               in commit sh
                (charge_and_apply (sh_quota sh) (kv_prefix h) (sh_store sh)
                   (\<lambda>s. fixed_delta 16 (length key) (kv_get be s nskey))
                   (\<lambda>s. kv_try_acquire be s nskey cost spec (ctx_now_ms h))) deny)"

definition host_config_get :: "filter_ctx \<Rightarrow> string \<Rightarrow> string option" where
  "host_config_get h key = ctx_config h key"

definition host_clock_now_ms :: "filter_ctx \<Rightarrow> u64" where
  "host_clock_now_ms h = ctx_now_ms h"

datatype host_call =
    KvSet string bytes
  | KvDelete string
  | CounterIncrement string u64
  | CounterGet string
  | TryAcquire string u64

definition host_step :: "'s kv_ops \<Rightarrow> filter_ctx \<Rightarrow> host_call \<Rightarrow> 's shared_state \<Rightarrow> 's shared_state" where
  "host_step be h call sh =
     (case call of
        KvSet k v \<Rightarrow> host_kv_set be h sh k v
      | KvDelete k \<Rightarrow> host_kv_delete be h sh k
      | CounterIncrement k d \<Rightarrow> fst (host_counter_increment be h sh k d)
      | CounterGet k \<Rightarrow> fst (host_counter_get be h sh k)
      | TryAcquire k c \<Rightarrow> fst (host_ratelimit_try_acquire be h sh k c))"

fun host_run :: "'s kv_ops \<Rightarrow> (filter_ctx \<times> host_call) list \<Rightarrow> 's shared_state \<Rightarrow> 's shared_state" where
  "host_run be [] sh = sh"
| "host_run be ((h, c) # cs) sh = host_run be cs (host_step be h c sh)"

definition loaded_ctx :: "filter_ctx \<Rightarrow> bool" where
  "loaded_ctx h \<longleftrightarrow> (\<exists>fid. filter_id_ok fid \<and> kv_prefix h = prefix_of fid)"

subsection \<open>Keys\<close>

lemma takeWhile_delim: "d \<notin> set xs \<Longrightarrow> takeWhile (\<lambda>c. c \<noteq> d) (xs @ d # ys) = xs"
  by (induction xs) auto

lemma ns_key_facts:
  assumes "loaded_ctx h"
  shows "key_ns (ns_key h tag key) = kv_prefix h"
    and "guest_len (ns_key h tag key) = length key"
  using assms
  by (auto simp: loaded_ctx_def filter_id_ok_def prefix_of_def ns_key_def key_ns_def guest_len_def
      takeWhile_delim)

lemma ns_key_inject:
  assumes "loaded_ctx h" "loaded_ctx h'"
  shows "ns_key h tag key = ns_key h' tag' key' \<longleftrightarrow>
           kv_prefix h = kv_prefix h' \<and> tag = tag' \<and> key = key'"
  using ns_key_facts [OF assms(1), of tag key] ns_key_facts [OF assms(2), of tag' key']
  by (auto simp: ns_key_def)

subsection \<open>Every host call keeps the accounts exact\<close>

text \<open>
  The invariant also bounds the accounted bytes by the signed range, which restoration enforces and
  the caps imply: within it the saturated length the counters use is the real length.
\<close>

definition in_signed_range :: "quota \<Rightarrow> bool" where
  "in_signed_range q \<longleftrightarrow> total_bytes q \<le> isize_max \<and> total_entries q \<le> isize_max"

definition accounts_ok :: "'s kv_ops \<Rightarrow> 's shared_state \<Rightarrow> bool" where
  "accounts_ok be sh \<longleftrightarrow>
     accounts (sh_quota sh) (kv_get be (sh_store sh)) \<and> in_signed_range (sh_quota sh)"

lemma caps_isize: "MAX_TOTAL_BYTES \<le> isize_max" "MAX_TOTAL_ENTRIES \<le> isize_max"
  by (simp_all add: MAX_TOTAL_BYTES_def MAX_TOTAL_ENTRIES_def isize_max_def)

lemma accounts_row_bound:
  assumes "accounts q m" and "m k = Some v"
  shows "length v \<le> total_bytes q"
proof -
  have "weight_of k (m k) \<le> bytes_in m any_key"
    unfolding bytes_in_def
    using assms by (intro member_le_sum) (auto simp: accounts_def any_key_def weight_of_def dom_def split: option.splits)
  then show ?thesis
    using assms by (simp add: accounts_def weight_of_def)
qed

lemma charge_isize:
  assumes "charge q ns de db = Some q'" and "in_signed_range q"
  shows "in_signed_range q'"
  using chargeD(3,4) [OF assms(1)] chargeD(6) [OF assms(1)] assms(2) caps_isize
  by (cases "de > 0 \<or> db > 0") (auto simp: in_signed_range_def)

lemma charge_write:
  assumes "charge q (key_ns k) de db = Some q'" and "accounts q m" and "in_signed_range q"
    and "de = present v - present (m k)" and "db = weight_of k v - weight_of k (m k)"
  shows "accounts q' (m(k := v)) \<and> in_signed_range q'"
  using charge_accounts [of q k v m q'] charge_isize [of q _ de db q'] assms by auto

text \<open>
  What a host call may do to the shared state on behalf of filter \<open>h\<close>: it keeps the accounts exact
  and the caps respected, and changes no row outside the filter's namespace.
\<close>

definition host_write :: "'s kv_ops \<Rightarrow> filter_ctx \<Rightarrow> 's shared_state \<Rightarrow> 's shared_state \<Rightarrow> bool" where
  "host_write be h sh sh' \<longleftrightarrow> accounts_ok be sh'
     \<and> (within_caps (sh_quota sh) \<longrightarrow> within_caps (sh_quota sh'))
     \<and> (\<forall>k. key_ns k \<noteq> kv_prefix h \<longrightarrow> kv_get be (sh_store sh') k = kv_get be (sh_store sh) k)"

context kv_backend
begin

lemma get_set_fun: "kv_get be (kv_set be s k v) = (kv_get be s)(k \<mapsto> v)"
  by (auto simp: laws)

lemma get_delete_fun: "kv_get be (kv_delete be s k) = (kv_get be s)(k := None)"
  by (auto simp: laws)

lemma get_increment_0: "kv_get be (fst (kv_increment be s k 0)) = kv_get be s"
  by (auto simp: laws)

lemma get_increment_fun:
  "d \<noteq> 0 \<Longrightarrow> \<exists>v. length v = 8 \<and> kv_get be (fst (kv_increment be s k d)) = (kv_get be s)(k \<mapsto> v)"
  by (rule exI [of _ "le_bytes 8 (snd (kv_increment be s k d))"]) (auto simp: get_increment)

lemma get_acquire_fun:
  "\<exists>v. length v = 16 \<and> kv_get be (fst (kv_try_acquire be s k c spec now)) = (kv_get be s)(k \<mapsto> v)"
  by (rule exI [of _ "encode_bucket (fst (apply_bucket (bucket_input (kv_get be s k) now) c spec now))"])
    (auto simp: get_acquire encode_bucket_def)

lemma commit_write:
  assumes "loaded_ctx h" and "accounts_ok be sh"
    and "rd (sh_store sh) = (present v - present (kv_get be (sh_store sh) (ns_key h tag key)),
           weight_of (ns_key h tag key) v - weight_of (ns_key h tag key) (kv_get be (sh_store sh) (ns_key h tag key)))"
    and "kv_get be (fst (app (sh_store sh))) = (kv_get be (sh_store sh))(ns_key h tag key := v)"
  shows "host_write be h sh (fst (commit sh (charge_and_apply (sh_quota sh) (kv_prefix h) (sh_store sh) rd app) d))"
  using assms charge_write [OF _ _ _ refl refl, of "sh_quota sh" "ns_key h tag key" v "kv_get be (sh_store sh)"]
  by (auto simp: host_write_def commit_def charge_and_apply_def accounts_ok_def ns_key_facts
      charge_within_caps split: option.splits prod.splits)

lemma host_write_refl: "accounts_ok be sh \<Longrightarrow> host_write be h sh sh"
  by (simp add: host_write_def)

lemma read_only_write:
  "accounts_ok be sh \<Longrightarrow> kv_get be s = kv_get be (sh_store sh) \<Longrightarrow> host_write be h sh (sh\<lparr>sh_store := s\<rparr>)"
  by (simp add: host_write_def accounts_ok_def)

lemma stored_length:
  assumes "accounts_ok be sh" and "kv_get be (sh_store sh) k = Some old"
  shows "length old \<le> isize_max"
  using accounts_row_bound [of "sh_quota sh" "kv_get be (sh_store sh)" k old] assms
  by (simp add: accounts_ok_def in_signed_range_def)

lemma fixed_delta_write:
  assumes "loaded_ctx h" and "accounts_ok be sh" and "length v = n"
  shows "fixed_delta n (length key) (kv_get be (sh_store sh) (ns_key h tag key)) =
     (present (Some v) - present (kv_get be (sh_store sh) (ns_key h tag key)),
      weight_of (ns_key h tag key) (Some v)
        - weight_of (ns_key h tag key) (kv_get be (sh_store sh) (ns_key h tag key)))"
  using assms stored_length [OF assms(2), of "ns_key h tag key"]
  by (auto simp: fixed_delta_def present_def weight_of_def ns_key_facts split: option.splits)

lemma host_kv_set_write:
  assumes "loaded_ctx h" and "accounts_ok be sh"
  shows "host_write be h sh (host_kv_set be h sh key value)"
  unfolding host_kv_set_def Let_def
  using assms
  by (auto intro!: host_write_refl commit_write [where v = "Some value" and key = key and tag = TAG_KV]
      simp: get_set_fun present_def weight_of_def ns_key_facts split: option.splits)

lemma host_kv_delete_write:
  assumes "loaded_ctx h" and "accounts_ok be sh"
  shows "host_write be h sh (host_kv_delete be h sh key)"
  unfolding host_kv_delete_def Let_def
  using assms
  by (auto intro!: host_write_refl commit_write [where v = None and key = key and tag = TAG_KV]
      simp: get_delete_fun present_def weight_of_def ns_key_facts split: option.splits)

lemma host_counter_get_write:
  "accounts_ok be sh \<Longrightarrow> host_write be h sh (fst (host_counter_get be h sh key))"
  using get_increment_0 [of "sh_store sh" "ns_key h TAG_COUNTER key"]
  by (auto simp: host_counter_get_def host_write_refl read_only_write split: prod.splits)

lemma host_counter_increment_write:
  assumes "loaded_ctx h" and "accounts_ok be sh"
  shows "host_write be h sh (fst (host_counter_increment be h sh key delta))"
proof (cases "delta = 0")
  case True
  then show ?thesis
    using assms get_increment_0 [of "sh_store sh" "ns_key h TAG_COUNTER key"]
    by (auto simp: host_counter_increment_def Let_def host_write_refl read_only_write split: prod.splits)
next
  case False
  then obtain v where v: "length v = 8"
      "kv_get be (fst (kv_increment be (sh_store sh) (ns_key h TAG_COUNTER key) delta)) =
         (kv_get be (sh_store sh))(ns_key h TAG_COUNTER key \<mapsto> v)"
    using get_increment_fun by blast
  have "host_write be h sh (fst (commit sh
      (charge_and_apply (sh_quota sh) (kv_prefix h) (sh_store sh)
         (\<lambda>s. fixed_delta 8 (length key) (kv_get be s (ns_key h TAG_COUNTER key)))
         (\<lambda>s. kv_increment be s (ns_key h TAG_COUNTER key) delta)) 0))"
    by (rule commit_write [OF assms, where v = "Some v"]) (use v fixed_delta_write assms in auto)
  with False assms show ?thesis
    by (simp add: host_counter_increment_def Let_def host_write_refl)
qed

lemma host_ratelimit_write:
  assumes "loaded_ctx h" and "accounts_ok be sh"
  shows "host_write be h sh (fst (host_ratelimit_try_acquire be h sh key cost))"
proof (cases "ratelimit_bucket h")
  case None
  then show ?thesis by (simp add: host_ratelimit_try_acquire_def host_write_refl assms)
next
  case (Some spec)
  obtain v where v: "length v = 16"
      "kv_get be (fst (kv_try_acquire be (sh_store sh) (ns_key h TAG_RATELIMIT key) cost spec (ctx_now_ms h))) =
         (kv_get be (sh_store sh))(ns_key h TAG_RATELIMIT key \<mapsto> v)"
    using get_acquire_fun by blast
  have "host_write be h sh (fst (commit sh
      (charge_and_apply (sh_quota sh) (kv_prefix h) (sh_store sh)
         (\<lambda>s. fixed_delta 16 (length key) (kv_get be s (ns_key h TAG_RATELIMIT key)))
         (\<lambda>s. kv_try_acquire be s (ns_key h TAG_RATELIMIT key) cost spec (ctx_now_ms h))) deny))"
    by (rule commit_write [OF assms, where v = "Some v"]) (use v fixed_delta_write assms in auto)
  with Some assms show ?thesis
    by (simp add: host_ratelimit_try_acquire_def Let_def host_write_refl)
qed

lemmas host_writes = host_kv_set_write host_kv_delete_write host_counter_get_write
  host_counter_increment_write host_ratelimit_write

lemma host_step_write:
  "loaded_ctx h \<Longrightarrow> accounts_ok be sh \<Longrightarrow> host_write be h sh (host_step be h c sh)"
  by (cases c) (simp_all add: host_step_def host_writes)

lemma host_run_invariant:
  assumes "\<forall>hc \<in> set cs. loaded_ctx (fst hc)" and "accounts_ok be sh" and "within_caps (sh_quota sh)"
  shows "accounts_ok be (host_run be cs sh) \<and> within_caps (sh_quota (host_run be cs sh))"
  using assms
proof (induction cs arbitrary: sh)
  case (Cons hc cs)
  obtain h c where hc: "hc = (h, c)" by (cases hc)
  with Cons have "host_write be h sh (host_step be h c sh)"
    by (intro host_step_write) auto
  with Cons hc show ?case by (simp add: host_write_def)
qed simp

lemma host_run_isolation:
  assumes "\<forall>hc \<in> set cs. loaded_ctx (fst hc) \<and> kv_prefix (fst hc) \<noteq> key_ns k"
    and "accounts_ok be sh"
  shows "kv_get be (sh_store (host_run be cs sh)) k = kv_get be (sh_store sh) k"
  using assms
proof (induction cs arbitrary: sh)
  case (Cons hc cs)
  obtain h c where hc: "hc = (h, c)" by (cases hc)
  with Cons have "host_write be h sh (host_step be h c sh)"
    by (intro host_step_write) auto
  with Cons hc show ?case by (auto simp: host_write_def)
qed simp

end

subsection \<open>Restoring the quota\<close>

text \<open>
  The inventory a durable backend reports at startup, one row a stored key with the length of its
  value; a restored quota is exact for the store it was read from.
\<close>

definition inventory :: "(kv_key \<times> bytes) list \<Rightarrow> (kv_key \<times> nat) list" where
  "inventory rows = map (\<lambda>(k, v). (k, length v)) rows"

lemma parse_stored_key_Some:
  assumes "parse_stored_key k = Some (ns, n)"
  shows "ns = key_ns k \<and> n = guest_len k"
proof -
  from assms obtain fid tag rest where k: "k = fid @ KV_NS_DELIM # tag # KV_NS_DELIM # rest"
      and "KV_NS_DELIM \<notin> set fid" and "ns = fid @ [KV_NS_DELIM]" and "n = length rest"
    by (auto simp: parse_stored_key_def split_once_Some split: option.splits prod.splits
        list.splits if_splits)
  then show ?thesis
    by (simp_all add: key_ns_def guest_len_def takeWhile_delim)
qed

lemma record_restored_entry_accounts:
  assumes "record_restored_entry q k (length v) = Inr q'" and "accounts q m" and "m k = None"
  shows "accounts q' (m(k \<mapsto> v)) \<and> in_signed_range q'"
proof -
  from assms(1) have upd:
    "usage_of q' (key_ns k) = (Suc (fst (usage_of q (key_ns k))),
       snd (usage_of q (key_ns k)) + (guest_len k + length v))"
    "\<forall>ns. ns \<noteq> key_ns k \<longrightarrow> usage_of q' ns = usage_of q ns"
    "total_entries q' = Suc (total_entries q)"
    "total_bytes q' = total_bytes q + (guest_len k + length v)"
    "in_signed_range q'"
    by (auto simp: in_signed_range_def record_restored_entry_def checked_add_isize_def usage_of_def
        dest!: parse_stored_key_Some split: option.splits prod.splits if_splits)
  show ?thesis
    using upd assms(2,3) by (auto simp: accounts_def entries_in_update bytes_in_update in_ns_def any_key_def
        present_def weight_of_def)
qed

lemma restore_from_accounts:
  assumes "restore_from q (inventory rows) = Inr q'" and "accounts q m" and "in_signed_range q"
    and "distinct (map fst rows)" and "\<forall>k \<in> set (map fst rows). m k = None"
  shows "accounts q' (m ++ map_of rows) \<and> in_signed_range q'"
  using assms
proof (induction rows arbitrary: q m)
  case (Cons row rows)
  obtain k v where row: "row = (k, v)" by (cases row)
  from Cons.prems row obtain q1 where q1: "record_restored_entry q k (length v) = Inr q1"
      "restore_from q1 (inventory rows) = Inr q'"
    by (auto simp: inventory_def split: sum.splits)
  have "m ++ map_of (row # rows) = m(k \<mapsto> v) ++ map_of rows"
    using Cons.prems(4) row by (simp add: map_add_upd_left dom_map_of_conv_image_fst)
  moreover have "accounts q1 (m(k \<mapsto> v)) \<and> in_signed_range q1"
    using record_restored_entry_accounts [OF q1(1) Cons.prems(2)] Cons.prems(5) row by simp
  moreover have "distinct (map fst rows)" and "\<forall>k' \<in> set (map fst rows). (m(k \<mapsto> v)) k' = None"
    using Cons.prems(4,5) row by auto
  ultimately show ?case
    using Cons.IH [OF q1(2), of "m(k \<mapsto> v)"] by metis
qed (simp add: inventory_def)

subsection \<open>A release is always granted\<close>

lemma tally_nonneg [simp]: "0 \<le> present v" "0 \<le> weight_of k v"
  by (auto simp: present_def weight_of_def split: option.splits)

lemma sum_part_le:
  fixes w :: "kv_key \<Rightarrow> bytes option \<Rightarrow> int"
  assumes "finite (dom m)" and "\<And>k v. 0 \<le> w k v" and "\<And>k. P k \<Longrightarrow> Q k"
  shows "(\<Sum>k\<in>{k \<in> dom m. P k}. w k (m k)) \<le> (\<Sum>k\<in>{k \<in> dom m. Q k}. w k (m k))"
  using assms by (intro sum_mono2) auto

lemma usage_le_total:
  assumes "accounts q m"
  shows "fst (usage_of q ns) \<le> total_entries q" and "snd (usage_of q ns) \<le> total_bytes q"
  using assms sum_part_le [of m "\<lambda>_. present" "in_ns ns" any_key] sum_part_le [of m weight_of "in_ns ns" any_key]
  by (simp_all add: accounts_def entries_in_def bytes_in_def any_key_def)
    (metis of_nat_le_iff)+

lemma row_le_usage:
  assumes "accounts q m" and "m k = Some v"
  shows "1 \<le> fst (usage_of q (key_ns k))" and "guest_len k + length v \<le> snd (usage_of q (key_ns k))"
proof -
  have "finite {x \<in> dom m. in_ns (key_ns k) x}" and "k \<in> {x \<in> dom m. in_ns (key_ns k) x}"
    using assms by (auto simp: accounts_def in_ns_def)
  then have "present (m k) \<le> entries_in m (in_ns (key_ns k))" "weight_of k (m k) \<le> bytes_in m (in_ns (key_ns k))"
    unfolding entries_in_def bytes_in_def
    by (simp_all add: member_le_sum [where f = "\<lambda>k. present (m k)"] member_le_sum [where f = "\<lambda>k. weight_of k (m k)"])
  then show "1 \<le> fst (usage_of q (key_ns k))" and "guest_len k + length v \<le> snd (usage_of q (key_ns k))"
    using assms by (simp_all add: accounts_def present_def weight_of_def)
      (metis (no_types) Suc_leI of_nat_add of_nat_le_iff of_nat_1 One_nat_def)+
qed

lemma checked_add_signed_release:
  "int d \<le> int a \<Longrightarrow> a \<le> isize_max \<Longrightarrow> checked_add_signed a (- int d) = Some (a - d)"
  by (simp add: checked_add_signed_def isize_max_def nat_diff_distrib)

lemma charge_release:
  assumes "accounts q m" and "in_signed_range q"
    and "e \<le> fst (usage_of q ns)" and "b \<le> snd (usage_of q ns)"
  shows "\<exists>q'. charge q ns (- int e) (- int b) = Some q'"
  using assms usage_le_total [OF assms(1), of ns]
  by (auto simp: charge_def checked_add_signed_release in_signed_range_def)

subsection \<open>Properties\<close>

text \<open>The shared state of a host that starts on an empty in-memory backend.\<close>

definition fresh_host :: "memory shared_state" where
  "fresh_host = \<lparr>sh_store = Map.empty, sh_quota = quota_new\<rparr>"

lemma get_memory [simp]: "kv_get memory_backend m = m"
  by (auto simp: memory_backend_def mem_get_def)

lemma fresh_host_ok: "accounts_ok memory_backend fresh_host" "within_caps (sh_quota fresh_host)"
  by (simp_all add: fresh_host_def accounts_ok_def accounts_new within_caps_new)
    (simp add: in_signed_range_def quota_new_def)

lemma host_run_caps:
  fixes cs :: "(filter_ctx \<times> host_call) list"
  defines "sh \<equiv> host_run memory_backend cs fresh_host"
  assumes "\<forall>hc \<in> set cs. loaded_ctx (fst hc)"
  shows "accounts (sh_quota sh) (sh_store sh)"
    and "entries_in (sh_store sh) any_key \<le> int MAX_TOTAL_ENTRIES"
    and "bytes_in (sh_store sh) any_key \<le> int MAX_TOTAL_BYTES"
    and "entries_in (sh_store sh) (in_ns ns) \<le> int MAX_NS_ENTRIES"
    and "bytes_in (sh_store sh) (in_ns ns) \<le> int MAX_NS_BYTES"
proof -
  have "accounts_ok memory_backend sh \<and> within_caps (sh_quota sh)"
    unfolding sh_def
    by (rule mem.host_run_invariant [OF assms(2) fresh_host_ok])
  then have acc: "accounts (sh_quota sh) (sh_store sh)" and caps: "within_caps (sh_quota sh)"
    by (simp_all add: accounts_ok_def)
  show "accounts (sh_quota sh) (sh_store sh)" by (rule acc)
  show "entries_in (sh_store sh) any_key \<le> int MAX_TOTAL_ENTRIES"
    and "bytes_in (sh_store sh) any_key \<le> int MAX_TOTAL_BYTES"
    using acc caps unfolding accounts_def within_caps_def by (metis of_nat_le_iff)+
  show "entries_in (sh_store sh) (in_ns ns) \<le> int MAX_NS_ENTRIES"
    and "bytes_in (sh_store sh) (in_ns ns) \<le> int MAX_NS_BYTES"
    using acc caps unfolding accounts_def within_caps_def by (metis of_nat_le_iff)+
qed

text \<open>
  C30: State caps.  Whatever host calls any loaded filters make in any order on a fresh in-memory
  host, the rows actually stored stay within the per-namespace and host-wide caps on entries and
  bytes, and the quota's tallies are exactly the contents of the store.
\<close>

theorem stored_state_within_caps:
  fixes cs :: "(filter_ctx \<times> host_call) list"
  defines "sh \<equiv> host_run memory_backend cs fresh_host"
  assumes "\<forall>hc \<in> set cs. loaded_ctx (fst hc)"
  shows "accounts (sh_quota sh) (sh_store sh)
    \<and> entries_in (sh_store sh) any_key \<le> int MAX_TOTAL_ENTRIES
    \<and> bytes_in (sh_store sh) any_key \<le> int MAX_TOTAL_BYTES
    \<and> entries_in (sh_store sh) (in_ns ns) \<le> int MAX_NS_ENTRIES
    \<and> bytes_in (sh_store sh) (in_ns ns) \<le> int MAX_NS_BYTES"
  unfolding sh_def by (intro conjI host_run_caps assms(2))

definition ctx_of :: "string \<Rightarrow> filter_ctx" where
  "ctx_of fid = \<lparr>kv_prefix = prefix_of fid, ctx_now_ms = 0, ratelimit_bucket = None, ctx_config = Map.empty\<rparr>"

lemma loaded_ctx_of: "fid \<noteq> [] \<Longrightarrow> KV_NS_DELIM \<notin> set fid \<Longrightarrow> loaded_ctx (ctx_of fid)"
  by (auto simp: loaded_ctx_def ctx_of_def filter_id_ok_def)

theorem stored_state_within_caps_witness:
  "entries_in (sh_store (host_run memory_backend
     [(ctx_of ''f'', KvSet ''a'' [1, 2]), (ctx_of ''g'', CounterIncrement ''n'' 5), (ctx_of ''f'', KvDelete ''a'')]
     fresh_host)) any_key \<le> int MAX_TOTAL_ENTRIES"
proof -
  have "\<forall>hc \<in> set [(ctx_of ''f'', KvSet ''a'' [1, 2]), (ctx_of ''g'', CounterIncrement ''n'' 5), (ctx_of ''f'', KvDelete ''a'')].
      loaded_ctx (fst hc)"
    by (auto intro!: loaded_ctx_of simp: KV_NS_DELIM_def)
  from stored_state_within_caps [OF this] show ?thesis by blast
qed

lemma other_filters_invisible:
  assumes "\<forall>hc \<in> set cs. loaded_ctx (fst hc) \<and> kv_prefix (fst hc) \<noteq> kv_prefix h"
    and "loaded_ctx h" and "accounts_ok memory_backend sh"
  shows "host_kv_get memory_backend h (host_run memory_backend cs sh) key = host_kv_get memory_backend h sh key"
    and "snd (host_counter_get memory_backend h (host_run memory_backend cs sh) key)
           = snd (host_counter_get memory_backend h sh key)"
    and "sh_store (host_run memory_backend cs sh) (ns_key h TAG_RATELIMIT key)
           = sh_store sh (ns_key h TAG_RATELIMIT key)"
proof -
  have same: "kv_get memory_backend (sh_store (host_run memory_backend cs sh)) (ns_key h tag key)
      = kv_get memory_backend (sh_store sh) (ns_key h tag key)" for tag
    by (rule mem.host_run_isolation) (use assms ns_key_facts in auto)
  show "host_kv_get memory_backend h (host_run memory_backend cs sh) key = host_kv_get memory_backend h sh key"
    using same [of TAG_KV] by (simp add: host_kv_get_def)
  show "snd (host_counter_get memory_backend h (host_run memory_backend cs sh) key)
           = snd (host_counter_get memory_backend h sh key)"
    using same [of TAG_COUNTER] by (simp add: host_counter_get_def case_prod_beta mem.increment_value)
  show "sh_store (host_run memory_backend cs sh) (ns_key h TAG_RATELIMIT key)
           = sh_store sh (ns_key h TAG_RATELIMIT key)"
    using same [of TAG_RATELIMIT] by (simp add: memory_backend_def mem_get_def)
qed

text \<open>
  C29: Namespace isolation.  No sequence of host calls by other filters, whatever keys they pass,
  changes what a filter reads from its own key-value pairs and counters, nor the stored state of its
  rate-limit buckets.
\<close>

theorem namespace_isolation:
  assumes "\<forall>hc \<in> set cs. loaded_ctx (fst hc) \<and> kv_prefix (fst hc) \<noteq> kv_prefix h"
    and "loaded_ctx h" and "accounts_ok memory_backend sh"
  shows "host_kv_get memory_backend h (host_run memory_backend cs sh) key = host_kv_get memory_backend h sh key
    \<and> snd (host_counter_get memory_backend h (host_run memory_backend cs sh) key)
        = snd (host_counter_get memory_backend h sh key)
    \<and> sh_store (host_run memory_backend cs sh) (ns_key h TAG_RATELIMIT key)
        = sh_store sh (ns_key h TAG_RATELIMIT key)"
  by (intro conjI other_filters_invisible assms)

theorem namespace_isolation_witness:
  "host_kv_get memory_backend (ctx_of ''a'')
     (host_run memory_backend [(ctx_of ''ab'', KvSet ''k'' [1]), (ctx_of ''b'', KvDelete ''k'')]
       fresh_host) ''k''
   = host_kv_get memory_backend (ctx_of ''a'') fresh_host ''k''"
proof -
  have "loaded_ctx (ctx_of ''a'')" by (rule loaded_ctx_of) (simp_all add: KV_NS_DELIM_def)
  moreover have "\<forall>hc \<in> set [(ctx_of ''ab'', KvSet ''k'' [1]), (ctx_of ''b'', KvDelete ''k'')].
      loaded_ctx (fst hc) \<and> kv_prefix (fst hc) \<noteq> kv_prefix (ctx_of ''a'')"
    by (auto simp: KV_NS_DELIM_def loaded_ctx_of) (auto simp: ctx_of_def prefix_of_def KV_NS_DELIM_def)
  ultimately show ?thesis using namespace_isolation [OF _ _ fresh_host_ok(1)] by blast
qed

text \<open>
  A delete is never refused.  On a host whose accounts are exact -- also one restored above its
  caps -- deleting a key of admissible length removes it, so an over-quota filter can always recover.
\<close>

theorem delete_always_removes:
  assumes "loaded_ctx h" and "accounts_ok memory_backend sh" and "length key \<le> MAX_KV_KEY_BYTES"
  shows "host_kv_get memory_backend h (host_kv_delete memory_backend h sh key) key = None"
proof -
  let ?k = "ns_key h TAG_KV key"
  have acc: "accounts (sh_quota sh) (sh_store sh)" and rng: "in_signed_range (sh_quota sh)"
    using assms(2) by (auto simp: accounts_ok_def memory_backend_def mem_get_def [abs_def])
  have "\<exists>q'. charge (sh_quota sh) (kv_prefix h) (- 1) (- int (length key + length old)) = Some q'"
    if "sh_store sh ?k = Some old" for old
    using charge_release [OF acc rng, of 1 "kv_prefix h" "length key + length old"]
      row_le_usage [OF acc that] ns_key_facts [OF assms(1)] by simp
  then show ?thesis
    using assms(3)
    by (auto simp: host_kv_delete_def host_kv_get_def commit_def charge_and_apply_def Let_def
        memory_backend_def mem_get_def mem_delete_def split: option.splits)
qed

theorem delete_always_removes_witness:
  "host_kv_get memory_backend (ctx_of ''a'')
     (host_kv_delete memory_backend (ctx_of ''a'') fresh_host ''k'') ''k'' = None"
  by (rule delete_always_removes [OF loaded_ctx_of fresh_host_ok(1)])
    (simp_all add: KV_NS_DELIM_def MAX_KV_KEY_BYTES_def)

text \<open>
  C31: Restoration is exact.  When the quota accepts the inventory of a durable store, whose keys are
  distinct, the restored tallies are exactly those of the store and lie in the signed range, so
  the host continues under the same accounting invariant as a host that was never restarted.
\<close>

theorem restore_is_exact:
  assumes "restore (inventory rows) = Inr q" and "distinct (map fst rows)"
  shows "accounts_ok memory_backend \<lparr>sh_store = map_of rows, sh_quota = q\<rparr>"
proof -
  have "accounts q (Map.empty ++ map_of rows) \<and> in_signed_range q"
    by (rule restore_from_accounts [OF assms(1) [unfolded restore_def] accounts_new])
      (use assms(2) in \<open>auto simp: in_signed_range_def quota_new_def\<close>)
  then show ?thesis
    by (simp add: accounts_ok_def memory_backend_def mem_get_def [abs_def])
qed

theorem restore_is_exact_witness:
  "case restore (inventory [(''f'' @ [KV_NS_DELIM] @ ''k'' @ [KV_NS_DELIM] @ ''x'', [1, 2, 3])]) of
     Inl _ \<Rightarrow> False
   | Inr q \<Rightarrow> total_bytes q = 4 \<and> accounts_ok memory_backend
       \<lparr>sh_store = map_of [(''f'' @ [KV_NS_DELIM] @ ''k'' @ [KV_NS_DELIM] @ ''x'', [1, 2, 3])], sh_quota = q\<rparr>"
  using restore_is_exact [of "[(''f'' @ [KV_NS_DELIM] @ ''k'' @ [KV_NS_DELIM] @ ''x'', [1, 2, 3])]"]
  by (simp add: restore_def inventory_def record_restored_entry_def parse_stored_key_def KV_NS_DELIM_def
      split_once_def from_utf8_def checked_add_isize_def isize_max_def usage_of_def quota_new_def)

end
