(* ===== verification/Rate_Limit.thy ===== *)
theory Rate_Limit
  imports Token_Bucket Net_Addr
begin

text \<open>
  The native per-route rate limiter of \<open>control/src/ratelimit.rs\<close>: one shared bucket, or a
  fixed-size table of buckets into which the peer is hashed.  The clock reading of a request is an
  argument, as in \<open>check_at\<close>; the seeded hasher is part of the limiter's state.  Every cell is
  behind its own lock, so concurrent requests are a sequence of \<open>check_at\<close> steps.
\<close>

datatype rate_limit_key_kind = RouteKey | ClientIpKey

record route_rate_limit =
  rl_rate :: u64
  rl_burst :: u64
  rl_key :: rate_limit_key_kind

datatype rate_limit_decision = Allow | Limit (limit_retry_after_ms: u64)

datatype limiter_state = RouteCell bucket_state | ClientIpCells "bucket_state list" "bytes \<Rightarrow> u64"

record native_rate_limit =
  nl_spec :: bucket
  nl_state :: limiter_state

definition native_rate_limit_new :: "(bytes \<Rightarrow> u64) \<Rightarrow> route_rate_limit \<Rightarrow> native_rate_limit" where
  "native_rate_limit_new hasher cfg =
     \<lparr>nl_spec = \<lparr>capacity = rl_burst cfg, refill_tokens = rl_rate cfg, refill_interval_ms = 1000\<rparr>,
      nl_state = (case rl_key cfg of
                    RouteKey \<Rightarrow> RouteCell (0, 0)
                  | ClientIpKey \<Rightarrow> ClientIpCells (replicate IP_SLOTS (0, 0)) hasher)\<rparr>"

definition decision_of :: "acquire \<Rightarrow> rate_limit_decision" where
  "decision_of acq = (if allowed acq then Allow else Limit (retry_after_ms acq))"

definition check_at :: "native_rate_limit \<Rightarrow> ip_addr \<Rightarrow> u64 \<Rightarrow> native_rate_limit \<times> rate_limit_decision" where
  "check_at lim peer now_ms =
     (case nl_state lim of
        RouteCell cell \<Rightarrow>
          (case apply_bucket (Some cell) 1 (nl_spec lim) now_ms of
             (cell', acq) \<Rightarrow> (lim\<lparr>nl_state := RouteCell cell'\<rparr>, decision_of acq))
      | ClientIpCells slots hasher \<Rightarrow>
          (let slot = slot_for_ip hasher (length slots) peer
           in case apply_bucket (Some (slots ! slot)) 1 (nl_spec lim) now_ms of
                (cell', acq) \<Rightarrow>
                  (lim\<lparr>nl_state := ClientIpCells (slots[slot := cell']) hasher\<rparr>, decision_of acq)))"

subsection \<open>Runs\<close>

fun limiter_run :: "native_rate_limit \<Rightarrow> (ip_addr \<times> u64) list \<Rightarrow> native_rate_limit \<times> rate_limit_decision list" where
  "limiter_run lim [] = (lim, [])"
| "limiter_run lim ((peer, now) # rs) =
     (case check_at lim peer now of
        (lim', d) \<Rightarrow> (case limiter_run lim' rs of (lim'', ds) \<Rightarrow> (lim'', d # ds)))"

text \<open>The cell a peer is counted in, and the cell's state.\<close>

definition cell_of :: "native_rate_limit \<Rightarrow> ip_addr \<Rightarrow> nat" where
  "cell_of lim peer =
     (case nl_state lim of
        RouteCell _ \<Rightarrow> 0
      | ClientIpCells slots hasher \<Rightarrow> slot_for_ip hasher (length slots) peer)"

definition cell_state :: "native_rate_limit \<Rightarrow> nat \<Rightarrow> bucket_state" where
  "cell_state lim c =
     (case nl_state lim of RouteCell cell \<Rightarrow> cell | ClientIpCells slots _ \<Rightarrow> slots ! c)"

text \<open>The requests admitted among those counted in cell \<open>c\<close>.\<close>

fun admitted :: "(ip_addr \<Rightarrow> nat) \<Rightarrow> nat \<Rightarrow> (ip_addr \<times> u64) list \<Rightarrow> rate_limit_decision list \<Rightarrow> nat" where
  "admitted cell c ((peer, now) # rs) (d # ds) =
     (if cell peer = c \<and> d = Allow then 1 else 0) + admitted cell c rs ds"
| "admitted cell c _ _ = 0"

definition limiter_ok :: "native_rate_limit \<Rightarrow> bool" where
  "limiter_ok lim =
     (case nl_state lim of RouteCell _ \<Rightarrow> True | ClientIpCells slots _ \<Rightarrow> length slots = IP_SLOTS)"

lemma check_at_cells:
  assumes "limiter_ok lim" and "check_at lim peer now = (lim', d)"
  shows "limiter_ok lim'" and "nl_spec lim' = nl_spec lim" and "cell_of lim' = cell_of lim"
    and "cell_state lim' (cell_of lim peer)
           = fst (apply_bucket (Some (cell_state lim (cell_of lim peer))) 1 (nl_spec lim) now)"
    and "d = decision_of (snd (apply_bucket (Some (cell_state lim (cell_of lim peer))) 1 (nl_spec lim) now))"
    and "c \<noteq> cell_of lim peer \<Longrightarrow> (\<exists>p. cell_of lim p = c) \<Longrightarrow> cell_state lim' c = cell_state lim c"
proof -
  have lt: "slot_for_ip h IP_SLOTS peer < IP_SLOTS" for h
    by (rule slot_for_ip_lt) (simp_all add: IP_SLOTS_def)
  have all: "limiter_ok lim' \<and> nl_spec lim' = nl_spec lim \<and> cell_of lim' = cell_of lim
    \<and> cell_state lim' (cell_of lim peer)
        = fst (apply_bucket (Some (cell_state lim (cell_of lim peer))) 1 (nl_spec lim) now)
    \<and> d = decision_of (snd (apply_bucket (Some (cell_state lim (cell_of lim peer))) 1 (nl_spec lim) now))
    \<and> (c \<noteq> cell_of lim peer \<longrightarrow> (\<exists>p. cell_of lim p = c) \<longrightarrow> cell_state lim' c = cell_state lim c)"
  proof (cases "nl_state lim")
    case (RouteCell cell)
    with assms show ?thesis
      by (auto simp: check_at_def limiter_ok_def cell_of_def cell_state_def fun_eq_iff split: prod.splits)
  next
    case (ClientIpCells slots hasher)
    with assms lt [of hasher] show ?thesis
      by (auto simp: check_at_def limiter_ok_def cell_of_def [abs_def] cell_state_def Let_def split: prod.splits)
  qed
  show "limiter_ok lim'" and "nl_spec lim' = nl_spec lim" and "cell_of lim' = cell_of lim"
    and "cell_state lim' (cell_of lim peer)
           = fst (apply_bucket (Some (cell_state lim (cell_of lim peer))) 1 (nl_spec lim) now)"
    and "d = decision_of (snd (apply_bucket (Some (cell_state lim (cell_of lim peer))) 1 (nl_spec lim) now))"
    and "c \<noteq> cell_of lim peer \<Longrightarrow> (\<exists>p. cell_of lim p = c) \<Longrightarrow> cell_state lim' c = cell_state lim c"
    using all by auto
qed

lemma decision_of_Allow [simp]: "decision_of acq = Allow \<longleftrightarrow> allowed acq"
  by (simp add: decision_of_def)

text \<open>
  Refinement to independent buckets: what happens in one cell is a run of the token bucket on the
  requests counted in it, whatever the other clients do.
\<close>

lemma limiter_run_refines:
  assumes "limiter_ok lim" and "\<exists>p. cell_of lim p = c"
  shows "admitted (cell_of lim) c rs (snd (limiter_run lim rs))
    = snd (bucket_run (nl_spec lim) (cell_state lim c)
        (map (\<lambda>r. (1, snd r)) (filter (\<lambda>r. cell_of lim (fst r) = c) rs)))"
  using assms
proof (induction rs arbitrary: lim)
  case (Cons r rs)
  obtain peer now where r: "r = (peer, now)" by (cases r)
  obtain lim' d where step: "check_at lim peer now = (lim', d)" by (metis prod.exhaust)
  note facts = check_at_cells [OF Cons.prems(1) step]
  have "\<exists>p. cell_of lim' p = c" using Cons.prems(2) facts(3) by simp
  note IH = Cons.IH [OF facts(1) this]
  show ?case
  proof (cases "cell_of lim peer = c")
    case True
    with IH facts(2-5) show ?thesis by (auto simp: r step split: prod.splits)
  next
    case False
    with IH facts(2,3) facts(6) [of c] Cons.prems(2) show ?thesis by (auto simp: r step split: prod.splits)
  qed
qed simp

text \<open>
  A cell that starts at the epoch holds at most the burst after its first acquire, which anchors its
  refill clock at the last whole second.
\<close>

lemma first_acquire:
  assumes spec: "refill_interval_ms spec = 1000" "refill_tokens spec \<noteq> 0"
    and step: "apply_bucket (Some (0, 0)) cost spec now = ((t, l), acq)"
  shows "unat t + (if allowed acq then unat cost else 0) \<le> unat (capacity spec)"
    and "unat l = unat now div 1000 * 1000"
proof -
  have refills: "\<not> no_refill spec" using spec by (simp add: no_refill_def)
  obtain t0 l0 where tl: "refill (Some (0, 0)) spec now = (t0, l0)"
    by (cases "refill (Some (0, 0)) spec now")
  have "t0 \<le> capacity spec" using refill_le_capacity [of "Some (0, 0)" spec now] tl by simp
  moreover have "l = l0" "unat t + (if allowed acq then unat cost else 0) = unat t0"
    using step tl by (auto simp: apply_bucket_def Let_def unat_sub_le word_le_nat_alt split: if_splits)
  ultimately show "unat t + (if allowed acq then unat cost else 0) \<le> unat (capacity spec)"
    by (simp add: word_le_nat_alt)
  show "unat l = unat now div 1000 * 1000"
    using refill_Some(1) [OF refills, where last_ms = 0 and now = now and tokens = 0] tl \<open>l = l0\<close> spec(1) by simp
qed

lemma fresh_cell_bound:
  assumes spec: "refill_interval_ms spec = 1000" "refill_tokens spec \<noteq> 0"
    and times: "\<And>cost now. (cost, now) \<in> set rs \<Longrightarrow> t0 \<le> unat now \<and> unat now \<le> T"
  shows "snd (bucket_run spec (0, 0) rs)
    \<le> unat (capacity spec) + (T div 1000 - t0 div 1000) * unat (refill_tokens spec)"
proof (cases rs)
  case (Cons r rest)
  have refills: "\<not> no_refill spec" using spec by (simp add: no_refill_def)
  obtain cost now where r: "r = (cost, now)" by (cases r)
  obtain t l acq where step: "apply_bucket (Some (0, 0)) cost spec now = ((t, l), acq)" by (metis prod.exhaust)
  obtain t' l' g where run: "bucket_run spec (t, l) rest = ((t', l'), g)" by (metis prod.exhaust)
  have now: "t0 \<le> unat now" "unat now \<le> T" using times [of cost now] Cons r by auto
  note first = first_acquire [OF spec step]
  have "unat l \<le> T" using first(2) now(2) by simp
  then obtain k where k: "unat l' = unat l + k * 1000" "unat l' \<le> T"
      "unat t' + g \<le> unat t + k * unat (refill_tokens spec)"
    using bucket_run_granted [OF refills run, of T] times Cons spec(1) by fastforce
  have "t0 div 1000 \<le> unat now div 1000" using now(1) by (rule div_le_mono)
  moreover have "(unat now div 1000 + k) * 1000 \<le> T" using k(1,2) first(2) by simp
  then have "unat now div 1000 + k \<le> T div 1000" by (simp add: less_eq_div_iff_mult_less_eq)
  ultimately have "k \<le> T div 1000 - t0 div 1000" by linarith
  then have "k * unat (refill_tokens spec) \<le> (T div 1000 - t0 div 1000) * unat (refill_tokens spec)"
    by (rule mult_right_mono) simp
  with k(3) first(1)
  have "(if allowed acq then unat cost else 0) + g
      \<le> unat (capacity spec) + (T div 1000 - t0 div 1000) * unat (refill_tokens spec)" by linarith
  then show ?thesis unfolding Cons r by (simp add: step run)
qed simp

text \<open>
  The native limiter enforces its rate.  For every interleaving of requests from any clients with
  clock readings between \<open>t0\<close> and \<open>T\<close>, the requests admitted in a client's cell -- the whole route,
  or the slot its address hashes to -- number at most the burst plus the rate times the second
  boundaries crossed, whatever clients of other cells send and however the clock jumps.
\<close>

theorem native_limit_rate_bound:
  fixes hasher :: "bytes \<Rightarrow> u64" and cfg :: route_rate_limit
  assumes "rl_rate cfg \<noteq> 0"
    and "\<forall>(p, now) \<in> set rs. t0 \<le> unat now \<and> unat now \<le> T"
  defines "lim \<equiv> native_rate_limit_new hasher cfg"
  shows "admitted (cell_of lim) (cell_of lim peer) rs (snd (limiter_run lim rs))
    \<le> unat (rl_burst cfg) + (T div 1000 - t0 div 1000) * unat (rl_rate cfg)"
proof -
  have "limiter_ok lim"
    by (simp add: lim_def native_rate_limit_new_def limiter_ok_def split: rate_limit_key_kind.split)
  have "slot_for_ip hasher IP_SLOTS peer < IP_SLOTS"
    by (rule slot_for_ip_lt) (simp_all add: IP_SLOTS_def)
  then have start: "cell_state lim (cell_of lim peer) = (0, 0)"
    by (simp add: lim_def native_rate_limit_new_def cell_state_def cell_of_def split: rate_limit_key_kind.split)
  have "snd (bucket_run (nl_spec lim) (0, 0)
        (map (\<lambda>r. (1, snd r)) (filter (\<lambda>r. cell_of lim (fst r) = cell_of lim peer) rs)))
      \<le> unat (capacity (nl_spec lim)) + (T div 1000 - t0 div 1000) * unat (refill_tokens (nl_spec lim))"
    by (rule fresh_cell_bound) (use assms(1,2) in \<open>auto simp: lim_def native_rate_limit_new_def\<close>)
  moreover have "capacity (nl_spec lim) = rl_burst cfg" "refill_tokens (nl_spec lim) = rl_rate cfg"
    by (simp_all add: lim_def native_rate_limit_new_def)
  moreover note limiter_run_refines [OF \<open>limiter_ok lim\<close>, OF exI [where P = "\<lambda>p. cell_of lim p = cell_of lim peer", OF refl], of rs]
  ultimately show ?thesis unfolding start by simp
qed

theorem native_limit_rate_bound_witness:
  "admitted (cell_of (native_rate_limit_new (\<lambda>_. 0) \<lparr>rl_rate = 2, rl_burst = 3, rl_key = RouteKey\<rparr>)) 0
     (replicate 9 (V4 [10, 0, 0, 1], 5000))
     (snd (limiter_run (native_rate_limit_new (\<lambda>_. 0) \<lparr>rl_rate = 2, rl_burst = 3, rl_key = RouteKey\<rparr>)
        (replicate 9 (V4 [10, 0, 0, 1], 5000)))) \<le> 3"
  using native_limit_rate_bound [of "\<lparr>rl_rate = 2, rl_burst = 3, rl_key = RouteKey\<rparr>"
      "replicate 9 (V4 [10, 0, 0, 1], 5000)" 5000 5000 "\<lambda>_. 0" "V4 []"]
  by (simp add: cell_of_def native_rate_limit_new_def)

end
