(* ===== verification/Route_Path.thy ===== *)
theory Route_Path
  imports Plecto_Strings
begin

text \<open>
  The request target on its way through the proxy (\<open>control/src/route.rs\<close>): the authority's host,
  the normalisation of the path at ingress, the prefix test of route selection and the prefix strip
  of the forwarded path.  The lemmas characterise the targets that are rejected and show that what
  is routed on and what is forwarded is canonical: an origin that removes dot segments itself, or
  decodes encoded separators, derives the same path.
\<close>

subsection \<open>The operations\<close>

definition normalize_host :: "string \<Rightarrow> string" where
  "normalize_host authority =
     (let host =
        (case strip_prefix ''['' authority of
           Some rest \<Rightarrow>
             (case split_once (CHR '']'') rest of
                Some (inner, _) \<Rightarrow> take (length inner + 2) authority
              | None \<Rightarrow> authority)
         | None \<Rightarrow> hd (split_on (CHR '':'') authority))
      in case strip_suffix ''.'' host of
           Some stripped \<Rightarrow> if prefix ''['' host then host else stripped
         | None \<Rightarrow> host)"

definition encoded_at :: "string \<Rightarrow> bool" where
  "encoded_at s \<longleftrightarrow> take 3 s \<in> set [''%2e'', ''%2E'', ''%2f'', ''%2F'', ''%5c'', ''%5C'']"

fun contains_encoded_separator :: "string \<Rightarrow> bool" where
  "contains_encoded_separator [] = False"
| "contains_encoded_separator (x # xs) = (encoded_at (x # xs) \<or> contains_encoded_separator xs)"

definition forbidden_byte :: "char \<Rightarrow> bool" where
  "forbidden_byte c \<longleftrightarrow> (of_char c :: nat) < 0x20 \<or> (of_char c :: nat) = 0x7f \<or> c = CHR 0x5C"

definition dot_segment :: "string \<Rightarrow> bool" where
  "dot_segment s \<longleftrightarrow> s = ''.'' \<or> s = ''..''"

fun resolve_segments :: "string list \<Rightarrow> string list \<Rightarrow> string list option" where
  "resolve_segments out [] = Some out"
| "resolve_segments out (seg # segs) =
     (if seg = ''.'' then resolve_segments out segs
      else if seg = ''..'' then (if length out \<le> 1 then None else resolve_segments (butlast out) segs)
      else resolve_segments (out @ [seg]) segs)"

definition with_query :: "string \<Rightarrow> string option \<Rightarrow> string" where
  "with_query raw query = (case query of None \<Rightarrow> raw | Some q \<Rightarrow> raw @ ''?'' @ q)"

definition normalize_path :: "string \<Rightarrow> string option" where
  "normalize_path target =
     (let (raw, query) = (case split_once (CHR ''?'') target of Some (p, q) \<Rightarrow> (p, Some q) | None \<Rightarrow> (target, None))
      in if \<not> prefix ''/'' raw then Some target
         else if list_ex forbidden_byte raw then None
         else if contains_encoded_separator raw then None
         else if \<not> list_ex dot_segment (split_on (CHR ''/'') raw) then Some target
         else map_option
                (\<lambda>out. let norm = join ''/'' out in with_query (if norm = [] then ''/'' else norm) query)
                (resolve_segments [] (split_on (CHR ''/'') raw)))"

definition path_under_prefix :: "string \<Rightarrow> string \<Rightarrow> bool" where
  "path_under_prefix pre path =
     (if \<not> prefix pre path then False
      else if length path = length pre \<or> suffix ''/'' pre then True
      else length pre < length path \<and> path ! length pre = CHR ''/'')"

definition rewrite_path :: "string \<Rightarrow> string option \<Rightarrow> string" where
  "rewrite_path path strip =
     (case strip of
        None \<Rightarrow> path
      | Some strip \<Rightarrow>
          (case strip_prefix strip path of
             None \<Rightarrow> path
           | Some rest \<Rightarrow>
               if rest = [] then ''/''
               else if prefix ''/'' rest then rest
               else if suffix ''/'' strip then ''/'' @ rest
               else path))"

subsection \<open>Hosts\<close>

text \<open>
  The port and one trailing dot of a DNS name do not take part in host matching.
\<close>

lemma normalize_host_dns:
  assumes "CHR '':'' \<notin> set h" and "\<not> prefix ''['' h" and "\<not> suffix ''.'' h" and "h \<noteq> []"
  shows "normalize_host h = h" and "normalize_host (h @ ''.'') = h"
    and "normalize_host (h @ '':'' @ port) = h" and "normalize_host (h @ ''.:'' @ port) = h"
proof -
  obtain c cs where h: "h = c # cs" using assms(4) by (cases h) auto
  then have c: "c \<noteq> CHR ''[''" using assms(2) by (auto simp: prefix_def)
  have tw: "takeWhile (\<lambda>x. x \<noteq> CHR '':'') (h @ s) = h @ takeWhile (\<lambda>x. x \<noteq> CHR '':'') s" for s
    using assms(1) by (auto simp: takeWhile_append)
  have drop: "strip_suffix ''.'' (h @ ''.'') = Some h" "strip_suffix ''.'' h = None"
    using assms(3) by (auto simp: strip_suffix_def)
  have host: "normalize_host (h @ s) =
      (case strip_suffix ''.'' (h @ takeWhile (\<lambda>x. x \<noteq> CHR '':'') s) of
         Some t \<Rightarrow> t | None \<Rightarrow> h @ takeWhile (\<lambda>x. x \<noteq> CHR '':'') s)" for s
    unfolding normalize_host_def hd_split_on tw
    using c by (auto simp: strip_prefix_def h Let_def split: option.splits)
  show "normalize_host h = h" "normalize_host (h @ ''.'') = h"
    and "normalize_host (h @ '':'' @ port) = h" and "normalize_host (h @ ''.:'' @ port) = h"
    using host [of "[]"] host [of "''.''"] host [of "'':'' @ port"] host [of "''.:'' @ port"] by (simp_all add: drop)
qed

subsection \<open>Segments\<close>

lemma split_on_append:
  "split_on c (a @ c # b) = split_on c a @ split_on c b"
proof (induction a)
  case (Cons x a)
  then show ?case by (cases "split_on c a") auto
qed simp

lemma encoded_at_segment: "encoded_at (takeWhile (\<lambda>x. x \<noteq> CHR ''/'') s) = encoded_at s"
proof -
  consider "s = []" | x where "s = [x]" | x y where "s = [x, y]" | x y z r where "s = x # y # z # r"
    by (metis list.exhaust)
  then show ?thesis by cases (auto simp: encoded_at_def)
qed

lemma contains_encoded_segments:
  "contains_encoded_separator s \<longleftrightarrow> list_ex contains_encoded_separator (split_on (CHR ''/'') s)"
proof (induction s)
  case (Cons x s)
  obtain y ys where ys: "split_on (CHR ''/'') s = y # ys" using split_on_Cons_form by blast
  have y: "y = takeWhile (\<lambda>c. c \<noteq> CHR ''/'') s" using hd_split_on [of "CHR ''/''" s] ys by simp
  show ?case
  proof (cases "x = CHR ''/''")
    case True
    then show ?thesis using Cons by (simp add: encoded_at_def)
  next
    case False
    then have "encoded_at (x # y) = encoded_at (x # s)"
      using encoded_at_segment [of "x # s"] y by simp
    with False Cons ys show ?thesis by simp
  qed
qed simp

lemma contains_encoded_append: "contains_encoded_separator b \<Longrightarrow> contains_encoded_separator (a @ b)"
  by (induction a) auto

lemma resolve_segments_result:
  assumes "resolve_segments out segs = Some r" and "out \<noteq> []"
  shows "r \<noteq> []" and "hd r = hd out" and "set r \<subseteq> set out \<union> {s \<in> set segs. \<not> dot_segment s}"
proof -
  have "r \<noteq> [] \<and> hd r = hd out \<and> set r \<subseteq> set out \<union> {s \<in> set segs. \<not> dot_segment s}"
    using assms
  proof (induction out segs rule: resolve_segments.induct)
    case (2 out seg segs)
    show ?case
    proof (cases "seg = ''..''")
      case True
      with 2 have len: "1 < length out" and res: "resolve_segments (butlast out) segs = Some r"
        by (auto split: if_splits)
      then obtain a b l where "out = a # b # l" by (cases out; cases "tl out") auto
      then have b: "butlast out \<noteq> []" "hd (butlast out) = hd out" by auto
      have "r \<noteq> [] \<and> hd r = hd (butlast out) \<and> set r \<subseteq> set (butlast out) \<union> {s \<in> set segs. \<not> dot_segment s}"
        using 2(2) True len res b by simp
      then show ?thesis using b(2) by (auto dest: in_set_butlastD)
    next
      case False
      then show ?thesis using 2 by (auto simp: dot_segment_def split: if_splits)
    qed
  qed auto
  then show "r \<noteq> []" and "hd r = hd out" and "set r \<subseteq> set out \<union> {s \<in> set segs. \<not> dot_segment s}" by auto
qed

text \<open>How many levels a list of segments descends.\<close>

definition depth :: "string list \<Rightarrow> int" where
  "depth segs = sum_list (map (\<lambda>s. if s = ''.'' then 0 else if s = ''..'' then - 1 else 1) segs)"

lemma depth_simps [simp]:
  "depth [] = 0" "depth (s # ss) = (if s = ''.'' then 0 else if s = ''..'' then - 1 else 1) + depth ss"
  by (simp_all add: depth_def)

lemma all_take_Suc:
  "(\<exists>k \<le> length (x # xs). P (take k (x # xs))) \<longleftrightarrow> P [] \<or> (\<exists>k \<le> length xs. P (x # take k xs))"
proof
  assume "\<exists>k \<le> length (x # xs). P (take k (x # xs))"
  then obtain k where k: "k \<le> Suc (length xs)" "P (take k (x # xs))" by auto
  then show "P [] \<or> (\<exists>k \<le> length xs. P (x # take k xs))" by (cases k) auto
next
  assume "P [] \<or> (\<exists>k \<le> length xs. P (x # take k xs))"
  then show "\<exists>k \<le> length (x # xs). P (take k (x # xs))"
    by (metis Suc_le_mono le0 length_Cons take0 take_Suc_Cons)
qed

lemma resolve_segments_None:
  assumes "out \<noteq> []"
  shows "resolve_segments out segs = None \<longleftrightarrow> (\<exists>k \<le> length segs. int (length out) + depth (take k segs) < 1)"
  using assms
proof (induction out segs rule: resolve_segments.induct)
  case (1 out)
  then show ?case by (cases out) auto
next
  case (2 out seg segs)
  have len: "int (length out) \<ge> 1" using 2(4) by (cases out) auto
  show ?case
  proof (cases "seg = ''..''")
    case True
    show ?thesis
    proof (cases "length out \<le> 1")
      case True
      have "int (length out) + depth (take 1 (seg # segs)) < 1" using True \<open>seg = ''..''\<close> by simp
      then have "\<exists>k \<le> length (seg # segs). int (length out) + depth (take k (seg # segs)) < 1" by fastforce
      then show ?thesis using True \<open>seg = ''..''\<close> by simp
    next
      case False
      then have "butlast out \<noteq> []" "int (length (butlast out)) = int (length out) - 1"
        by (cases out; auto)+
      with 2(2) False \<open>seg = ''..''\<close> len show ?thesis
        unfolding all_take_Suc [where P = "\<lambda>l. int (length out) + depth l < 1"] by auto
    qed
  next
    case False
    then show ?thesis using 2(1,3,4) len
      unfolding all_take_Suc [where P = "\<lambda>l. int (length out) + depth l < 1"]
      by (auto simp: algebra_simps)
  qed
qed


subsection \<open>Canonical paths\<close>

definition canonical :: "string \<Rightarrow> bool" where
  "canonical raw \<longleftrightarrow>
     prefix ''/'' raw \<and> CHR ''?'' \<notin> set raw \<and> \<not> list_ex forbidden_byte raw \<and> \<not> contains_encoded_separator raw
     \<and> \<not> list_ex dot_segment (split_on (CHR ''/'') raw)"

lemma split_once_with_query:
  assumes "CHR ''?'' \<notin> set raw"
  shows "(case split_once (CHR ''?'') (with_query raw query) of Some (p, q) \<Rightarrow> (p, Some q) | None \<Rightarrow> (with_query raw query, None))
    = (raw, query)"
proof (cases query)
  case (Some q)
  have "split_once (CHR ''?'') (raw @ CHR ''?'' # q) = Some (raw, q)" using assms by (simp add: split_once_Some)
  with Some show ?thesis by (simp add: with_query_def)
next
  case None
  with assms have e: "split_once (CHR ''?'') (with_query raw query) = None" by (simp add: with_query_def)
  show ?thesis by (simp only: e option.case) (simp add: None with_query_def)
qed

lemma target_cases:
  obtains raw query where "target = with_query raw query" and "CHR ''?'' \<notin> set raw"
proof (cases "split_once (CHR ''?'') target")
  case None
  then show ?thesis using that [of target None] by (simp add: with_query_def)
next
  case (Some pq)
  then obtain p q where "split_once (CHR ''?'') target = Some (p, q)" by (cases pq) auto
  then show ?thesis using that [of p "Some q"] by (simp add: split_once_Some with_query_def)
qed

lemma prefix_with_query: "CHR ''?'' \<notin> set s \<Longrightarrow> prefix s (with_query raw query) = prefix s raw"
  by (auto simp: with_query_def prefix_append prefix_Cons split: option.split)

text \<open>What normalisation does to a target, by its path part.\<close>

lemma normalize_path_with_query:
  assumes "CHR ''?'' \<notin> set raw"
  shows "normalize_path (with_query raw query) =
    (if \<not> prefix ''/'' raw then Some (with_query raw query)
     else if list_ex forbidden_byte raw \<or> contains_encoded_separator raw then None
     else if \<not> list_ex dot_segment (split_on (CHR ''/'') raw) then Some (with_query raw query)
     else map_option (\<lambda>out. with_query (if join ''/'' out = [] then ''/'' else join ''/'' out) query)
            (resolve_segments [] (split_on (CHR ''/'') raw)))"
  unfolding normalize_path_def split_once_with_query [OF assms] by (simp add: Let_def)

lemma normalize_path_canonical: "canonical raw \<Longrightarrow> normalize_path (with_query raw query) = Some (with_query raw query)"
  by (auto simp: canonical_def normalize_path_with_query)

lemma canonical_root: "canonical ''/''"
  by (simp add: canonical_def forbidden_byte_def encoded_at_def dot_segment_def)

lemma split_on_set: "x \<in> set (split_on c s) \<Longrightarrow> set x \<subseteq> set s"
proof (induction s arbitrary: x)
  case (Cons a s)
  obtain y ys where "split_on c s = y # ys" using split_on_Cons_form by blast
  with Cons show ?case by (fastforce split: if_splits)
qed simp

lemma slash_allowed: "\<not> forbidden_byte (CHR ''/'')"
  by (simp add: forbidden_byte_def)

lemma canonical_join:
  assumes raw: "CHR ''?'' \<notin> set raw" "\<not> list_ex forbidden_byte raw" "\<not> contains_encoded_separator raw"
    and out: "set out \<subseteq> {s \<in> set (split_on (CHR ''/'') raw). \<not> dot_segment s}" "out \<noteq> []" "hd out = []"
    and join: "join ''/'' out \<noteq> []"
  shows "canonical (join ''/'' out)"
proof -
  obtain y ys where "out = [] # y # ys" using out(2,3) join by (cases out; cases "tl out") auto
  then have pre: "prefix ''/'' (join ''/'' out)" by simp
  have nosep: "CHR ''/'' \<notin> set x" if "x \<in> set out" for x using out(1) that by (auto dest: split_on_no_sep)
  have split: "split_on (CHR ''/'') (join ''/'' out) = out" by (rule split_on_join [OF out(2) nosep])
  have "set x \<subseteq> set raw" if "x \<in> set out" for x using out(1) that split_on_set by blast
  then have chars: "set (join ''/'' out) \<subseteq> insert (CHR ''/'') (set raw)"
    using set_join_subset [of "''/''" out] by auto
  have "\<not> list_ex contains_encoded_separator out"
    using iffD2 [OF contains_encoded_segments [of raw]] raw(3) out(1) by (auto simp: list_ex_iff)
  then have "\<not> contains_encoded_separator (join ''/'' out)" by (subst contains_encoded_segments) (simp add: split)
  moreover have "\<not> list_ex forbidden_byte (join ''/'' out)"
    using raw(2) chars slash_allowed by (force simp: list_ex_iff)
  moreover have "CHR ''?'' \<notin> set (join ''/'' out)" using raw(1) chars by auto
  moreover have "\<not> list_ex dot_segment out" using out(1) by (auto simp: list_ex_iff)
  ultimately show ?thesis using pre by (simp add: canonical_def split)
qed

lemma split_on_slash: "prefix ''/'' raw \<Longrightarrow> split_on (CHR ''/'') raw = [] # split_on (CHR ''/'') (tl raw)"
  by (auto simp: prefix_def)

lemma resolve_from_root:
  "prefix ''/'' raw \<Longrightarrow> resolve_segments [] (split_on (CHR ''/'') raw) = resolve_segments [[]] (split_on (CHR ''/'') (tl raw))"
  by (simp add: split_on_slash)

text \<open>An accepted origin-form target becomes a canonical path with the same query.\<close>

lemma normalize_path_Some:
  assumes q: "CHR ''?'' \<notin> set raw" and slash: "prefix ''/'' raw"
    and norm: "normalize_path (with_query raw query) = Some p"
  obtains raw' where "canonical raw'" and "p = with_query raw' query"
proof (cases "list_ex dot_segment (split_on (CHR ''/'') raw)")
  case False
  then show ?thesis using that [of raw] assms
    by (auto simp: normalize_path_with_query canonical_def split: if_splits)
next
  case True
  then obtain out where ok: "\<not> list_ex forbidden_byte raw" "\<not> contains_encoded_separator raw"
    and res: "resolve_segments [[]] (split_on (CHR ''/'') (tl raw)) = Some out"
    and p: "p = with_query (if join ''/'' out = [] then ''/'' else join ''/'' out) query"
    using norm slash by (auto simp: normalize_path_with_query [OF q] resolve_from_root [OF slash] split: if_splits)
  have "[] \<in> set (split_on (CHR ''/'') raw)" using split_on_slash [OF slash] by simp
  then have "set out \<subseteq> {s \<in> set (split_on (CHR ''/'') raw). \<not> dot_segment s}"
    using resolve_segments_result(3) [OF res] split_on_slash [OF slash] by (auto simp: dot_segment_def)
  then show ?thesis
    using that [OF _ p] canonical_root canonical_join [OF q ok] resolve_segments_result(1,2) [OF res] by simp
qed

lemma normalize_path_None:
  assumes q: "CHR ''?'' \<notin> set raw" and slash: "prefix ''/'' raw"
  shows "normalize_path (with_query raw query) = None \<longleftrightarrow>
    list_ex forbidden_byte raw \<or> contains_encoded_separator raw
    \<or> (\<exists>k. depth (take k (split_on (CHR ''/'') (tl raw))) < 0)"
proof -
  let ?segs = "split_on (CHR ''/'') (tl raw)"
  have esc: "resolve_segments [[]] ?segs = None \<longleftrightarrow> (\<exists>k. depth (take k ?segs) < 0)"
    unfolding resolve_segments_None [OF not_Cons_self2 [of "[]" "[]"]]
    by (auto, metis nat_le_linear take_all)
  have "depth l \<ge> 0" if "\<not> list_ex dot_segment l" for l
    using that by (induction l) (auto simp: dot_segment_def)
  then have none: "\<not> (\<exists>k. depth (take k ?segs) < 0)" if "\<not> list_ex dot_segment (split_on (CHR ''/'') raw)"
    using that split_on_slash [OF slash] by (auto simp: list_ex_iff not_less dest: in_set_takeD)
  show ?thesis
    using slash esc none by (auto simp: normalize_path_with_query [OF q] resolve_from_root [OF slash])
qed


subsection \<open>The forwarded path\<close>

lemma canonical_tail:
  assumes "canonical (a @ ''/'' @ b)"
  shows "canonical (''/'' @ b)"
proof -
  have "split_on (CHR ''/'') (a @ ''/'' @ b) = split_on (CHR ''/'') a @ split_on (CHR ''/'') b"
    using split_on_append [of "CHR ''/''" a b] by simp
  then show ?thesis
    using assms contains_encoded_append [of "''/'' @ b" a]
    by (auto simp: canonical_def dot_segment_def)
qed

lemma rewrite_canonical:
  assumes can: "canonical raw" and strip: "CHR ''?'' \<notin> set strip"
  shows "\<exists>raw'. canonical raw' \<and> rewrite_path (with_query raw query) (Some strip) = with_query raw' query
    \<or> rewrite_path (with_query raw query) (Some strip) = ''/''"
proof (cases "prefix strip raw")
  case False
  then have "rewrite_path (with_query raw query) (Some strip) = with_query raw query"
    using prefix_with_query [OF strip] by (simp add: rewrite_path_def strip_prefix_def)
  then show ?thesis using can by blast
next
  case True
  then obtain rest where raw: "raw = strip @ rest" by (auto simp: prefix_def)
  have drop: "strip_prefix strip (with_query raw query) = Some (with_query rest query)"
    using True prefix_with_query [OF strip] by (simp add: strip_prefix_def raw with_query_def split: option.split)
  have out: "rewrite_path (with_query raw query) (Some strip) =
      (if with_query rest query = [] then ''/''
       else if prefix ''/'' rest then with_query rest query
       else if suffix ''/'' strip then ''/'' @ with_query rest query
       else with_query raw query)"
    using prefix_with_query [of "''/''" rest query] by (simp add: rewrite_path_def drop)
  have slash: "\<exists>raw'. canonical raw' \<and> with_query rest query = with_query raw' query" if "prefix ''/'' rest"
    using that canonical_tail [of strip "tl rest"] can raw by (intro exI [of _ rest]) (auto simp: prefix_def)
  have cut: "\<exists>raw'. canonical raw' \<and> ''/'' @ with_query rest query = with_query raw' query" if suf: "suffix ''/'' strip"
  proof -
    from suf obtain a where "strip = a @ ''/''" by (auto simp: suffix_def)
    then have "canonical (''/'' @ rest)" using canonical_tail [of a rest] can raw by simp
    then show ?thesis by (intro exI [of _ "''/'' @ rest"]) (simp add: with_query_def split: option.split)
  qed
  show ?thesis using out slash cut can by (auto split: if_splits)
qed

subsection \<open>Properties\<close>

text \<open>
  Normalisation rejects exactly the ambiguous targets.  An origin-form target is refused if and
  only if its path holds a control byte, a backslash or a percent-encoded separator or dot, or some
  prefix of its segments has more \<open>..\<close> than names, that is, leaves the root; a target that is not
  origin-form is passed through.
\<close>

theorem normalize_path_rejects:
  assumes "CHR ''?'' \<notin> set raw"
  shows "normalize_path (with_query raw query) = None \<longleftrightarrow>
    prefix ''/'' raw \<and> (list_ex forbidden_byte raw \<or> contains_encoded_separator raw
      \<or> (\<exists>k. depth (take k (split_on (CHR ''/'') (tl raw))) < 0))"
  using normalize_path_None [OF assms, of query]
  by (cases "prefix ''/'' raw") (auto simp: normalize_path_with_query [OF assms])

theorem normalize_path_rejects_witness:
  "normalize_path ''/a/../../b?x'' = None \<and> depth (take 3 (split_on (CHR ''/'') (tl ''/a/../../b''))) < 0"
proof -
  have d: "depth (take 3 (split_on (CHR ''/'') (tl ''/a/../../b''))) < 0" by (simp add: eval_nat_numeral)
  then have "normalize_path (with_query ''/a/../../b'' (Some ''x'')) = None"
    by (intro iffD2 [OF normalize_path_rejects] conjI disjI2 exI [of _ 3]) simp_all
  with d show ?thesis by (simp add: with_query_def)
qed

text \<open>
  C25: What is routed on is canonical.  An accepted origin-form target becomes a path that starts
  with a slash, holds no \<open>.\<close> or \<open>..\<close> segment and none of the rejected bytes or encodings, with the
  query unchanged; normalising it again changes nothing, so an origin that resolves dot segments
  itself sees the path the proxy routed on.
\<close>

theorem normalize_path_canonical_result:
  assumes "CHR ''?'' \<notin> set raw" and "prefix ''/'' raw"
    and "normalize_path (with_query raw query) = Some p"
  shows "(\<exists>raw'. canonical raw' \<and> p = with_query raw' query) \<and> normalize_path p = Some p"
  using normalize_path_Some [OF assms] normalize_path_canonical by metis

theorem normalize_path_canonical_result_witness:
  "normalize_path ''/a/./b/../c?k=../v'' = Some ''/a/c?k=../v'' \<and> normalize_path ''/a/c?k=../v'' = Some ''/a/c?k=../v''"
proof -
  have n: "normalize_path (with_query ''/a/./b/../c'' (Some ''k=../v'')) = Some ''/a/c?k=../v''"
    by (simp add: normalize_path_with_query encoded_at_def forbidden_byte_def dot_segment_def)
      (simp add: with_query_def)
  then have "normalize_path ''/a/c?k=../v'' = Some ''/a/c?k=../v''"
    using normalize_path_canonical_result [of "''/a/./b/../c''" "Some ''k=../v''"] by simp
  with n show ?thesis by (simp add: with_query_def)
qed

text \<open>
  C26: What is forwarded is canonical too.  Stripping a prefix without a question mark from a
  normalised path leaves a path that starts with a slash and is still its own normalisation: the
  strip cuts only at segment boundaries and cannot bring back a dot segment.
\<close>

theorem forwarded_path_canonical:
  assumes "normalize_path target = Some p" and "prefix ''/'' target" and "CHR ''?'' \<notin> set strip"
  defines "fwd \<equiv> rewrite_path p (Some strip)"
  shows "prefix ''/'' fwd \<and> normalize_path fwd = Some fwd"
proof -
  obtain raw query where t: "target = with_query raw query" "CHR ''?'' \<notin> set raw" by (rule target_cases)
  have "prefix ''/'' raw" using assms(2) prefix_with_query [of "''/''" raw query] t(1) by simp
  then obtain raw' where p: "canonical raw'" "p = with_query raw' query"
    using normalize_path_Some [OF t(2)] assms(1) t(1) by metis
  obtain raw'' where "canonical raw'' \<and> fwd = with_query raw'' query \<or> fwd = ''/''"
    using rewrite_canonical [OF p(1) assms(3), of query] p(2) unfolding fwd_def by metis
  then obtain r q where "canonical r" "fwd = with_query r q"
    using canonical_root by (metis with_query_def option.case(1))
  then show ?thesis
    using normalize_path_canonical [of r q] prefix_with_query [of "''/''" r q] by (simp add: canonical_def)
qed

theorem forwarded_path_canonical_witness:
  "rewrite_path ''/api/x?q'' (Some ''/api'') = ''/x?q'' \<and> normalize_path ''/x?q'' = Some ''/x?q''"
proof -
  have "normalize_path (with_query ''/api/x'' (Some ''q'')) = Some (with_query ''/api/x'' (Some ''q''))"
    by (rule normalize_path_canonical)
      (simp add: canonical_def encoded_at_def forbidden_byte_def dot_segment_def)
  then have n: "normalize_path ''/api/x?q'' = Some ''/api/x?q''" by (simp add: with_query_def)
  show ?thesis
    using forwarded_path_canonical [OF n, of "''/api''"] by (simp add: rewrite_path_def strip_prefix_def)
qed

text \<open>
  The strip does not see a bare prefix with a query.  A request for exactly the stripped prefix
  is matched by a route of that prefix and forwarded as the root; the same request with a query is
  matched too, but its path is forwarded unstripped.
\<close>

theorem strip_misses_query:
  assumes "CHR ''?'' \<notin> set strip" and "CHR ''#'' \<notin> set strip" and "\<not> suffix ''/'' strip"
  shows "path_under_prefix strip (takeWhile (\<lambda>c. c \<noteq> CHR ''?'' \<and> c \<noteq> CHR ''#'') (strip @ ''?'' @ q))
    \<and> rewrite_path strip (Some strip) = ''/''
    \<and> rewrite_path (strip @ ''?'' @ q) (Some strip) = strip @ ''?'' @ q"
proof -
  have "takeWhile (\<lambda>c. c \<noteq> CHR ''?'' \<and> c \<noteq> CHR ''#'') (strip @ ''?'' @ q) = strip"
    using assms(1,2) by (auto simp: takeWhile_append takeWhile_eq_all_conv)
  then show ?thesis
    using assms(3) by (simp add: path_under_prefix_def rewrite_path_def strip_prefix_def)
qed

theorem strip_misses_query_witness:
  "rewrite_path ''/api'' (Some ''/api'') = ''/'' \<and> rewrite_path ''/api?x=1'' (Some ''/api'') = ''/api?x=1''"
  using strip_misses_query [of "''/api''" "''x=1''"] by (simp add: suffix_def)

end
