(* ===== verification/Route_Manifest.thy ===== *)
theory Route_Manifest
  imports Plecto_Strings Weighted Rate_Limit
begin

text \<open>
  The routing rules of the manifest (\<open>control/src/manifest/route.rs\<close>), their defaults, and their
  validation (\<open>validate_routes\<close> of \<open>control/src/route.rs\<close>).  A \<open>BTreeMap\<close> is the list of its entries in
  key order.  Parsing a header name and testing a header value belong to the \<open>http\<close> crate and are the
  arguments \<open>parse_name\<close> and \<open>value_ok\<close>; the parsed form of a name is its canonical spelling.
\<close>

subsection \<open>The manifest types\<close>

datatype over_cap_mode = OverCapReject | OverCapProcessPartial | OverCapPassthrough

datatype uninspectable_mode = UninspectableReject | UninspectablePassthrough

record route_response_body =
  rb_max_bytes :: u64
  rb_over_cap :: over_cap_mode
  rb_uninspectable :: uninspectable_mode
  rb_content_types :: "string list"

definition default_response_body_max_bytes :: u64 where
  "default_response_body_max_bytes = 2 ^ 20"

definition MAX_RESPONSE_BODY_CAP :: u64 where
  "MAX_RESPONSE_BODY_CAP = 16 * 2 ^ 20"

definition default_response_body_content_types :: "string list" where
  "default_response_body_content_types = [''text/plain'', ''text/html'', ''text/xml'', ''application/json'']"

definition response_body_default :: route_response_body where
  "response_body_default =
     \<lparr>rb_max_bytes = default_response_body_max_bytes, rb_over_cap = OverCapReject,
      rb_uninspectable = UninspectableReject, rb_content_types = default_response_body_content_types\<rparr>"

record route_timeouts =
  rt_request_timeout_ms :: "u64 option"
  rt_overall_timeout_ms :: "u64 option"

record route_headers =
  rh_set :: "(string \<times> string) list"
  rh_remove :: "string list"

record route_upgrade =
  ru_protocols :: "string list"
  ru_idle_timeout_ms :: u64

definition default_upgrade_idle_timeout_ms :: u64 where
  "default_upgrade_idle_timeout_ms = 300000"

datatype compression_algorithm = Zstd | Br | Gzip

definition coding_token :: "compression_algorithm \<Rightarrow> string" where
  "coding_token a = (case a of Zstd \<Rightarrow> ''zstd'' | Br \<Rightarrow> ''br'' | Gzip \<Rightarrow> ''gzip'')"

record route_compression =
  rc_algorithms :: "compression_algorithm list"
  rc_min_length :: u64
  rc_content_types :: "string list"

definition default_compression_algorithms :: "compression_algorithm list" where
  "default_compression_algorithms = [Zstd, Br, Gzip]"

definition default_compression_min_length :: u64 where
  "default_compression_min_length = 1024"

definition default_compression_content_types :: "string list" where
  "default_compression_content_types =
     [''text/html'', ''text/css'', ''text/plain'', ''text/xml'', ''text/javascript'', ''application/javascript'',
      ''application/x-javascript'', ''application/json'', ''application/xml'', ''application/xhtml+xml'',
      ''application/rss+xml'', ''application/atom+xml'', ''image/svg+xml'', ''application/wasm'']"

record route_match =
  rm_host :: "string option"
  rm_path_prefix :: string
  rm_method :: "string option"
  rm_headers :: "(string \<times> string) list"
  rm_query :: "(string \<times> string) list"

record split_backend =
  bk_upstream :: string
  bk_weight :: u32

definition default_weight :: u32 where
  "default_weight = 1"

record route =
  ro_name :: "string option"
  ro_matcher :: route_match
  ro_filters :: "string list"
  ro_upstream :: "string option"
  ro_backends :: "split_backend list"
  ro_strip_prefix :: "string option"
  ro_rate_limit :: "route_rate_limit option"
  ro_upgrade :: "route_upgrade option"
  ro_compression :: "route_compression option"
  ro_headers :: "route_headers option"
  ro_timeouts :: "route_timeouts option"
  ro_response_body :: "route_response_body option"

definition resolved_name :: "route \<Rightarrow> string" where
  "resolved_name r =
     (case ro_name r of
        Some name \<Rightarrow> name
      | None \<Rightarrow>
          (case rm_host (ro_matcher r) of
             Some h \<Rightarrow> to_ascii_lowercase h @ rm_path_prefix (ro_matcher r)
           | None \<Rightarrow> rm_path_prefix (ro_matcher r)))"

datatype target_error = BothTargets | NoTarget

definition route_targets :: "route \<Rightarrow> (target_error, (string \<times> u32) list) result" where
  "route_targets r =
     (case (ro_upstream r, ro_backends r) of
        (Some _, _ # _) \<Rightarrow> Inl BothTargets
      | (None, []) \<Rightarrow> Inl NoTarget
      | (Some name, []) \<Rightarrow> Inr [(name, 1)]
      | (None, backends) \<Rightarrow> Inr (map (\<lambda>b. (bk_upstream b, bk_weight b)) backends))"

subsection \<open>Validation\<close>

definition UNMATCHED_ROUTE :: string where
  "UNMATCHED_ROUTE = ''unmatched''"

definition HOP_BY_HOP_GUEST_HEADERS :: "string list" where
  "HOP_BY_HOP_GUEST_HEADERS =
     [''connection'', ''keep-alive'', ''proxy-connection'', ''transfer-encoding'', ''te'', ''trailer'', ''upgrade'',
      ''proxy-authorization'', ''proxy-authenticate'']"

datatype header_error = BadHeaderName string | ReservedHeader string | EmptyHeaders | DuplicateHeader string | BadHeaderValue string

definition declared_header_name :: "(string \<Rightarrow> string option) \<Rightarrow> string \<Rightarrow> (header_error, string) result" where
  "declared_header_name parse_name name =
     (case parse_name name of
        None \<Rightarrow> Inl (BadHeaderName name)
      | Some parsed \<Rightarrow>
          if parsed = ''content-length'' \<or> list_ex (\<lambda>h. parsed = h) HOP_BY_HOP_GUEST_HEADERS
          then Inl (ReservedHeader name) else Inr parsed)"

fun validate_set_headers ::
    "(string \<Rightarrow> string option) \<Rightarrow> (string \<Rightarrow> bool) \<Rightarrow> string list \<Rightarrow> (string \<times> string) list \<Rightarrow> (header_error, unit) result" where
  "validate_set_headers parse_name value_ok seen [] = Inr ()"
| "validate_set_headers parse_name value_ok seen ((name, value) # hs) =
     (case declared_header_name parse_name name of
        Inl e \<Rightarrow> Inl e
      | Inr parsed \<Rightarrow>
          if parsed \<in> set seen then Inl (DuplicateHeader name)
          else if \<not> value_ok value then Inl (BadHeaderValue name)
          else validate_set_headers parse_name value_ok (parsed # seen) hs)"

fun validate_remove_headers :: "(string \<Rightarrow> string option) \<Rightarrow> string list \<Rightarrow> (header_error, unit) result" where
  "validate_remove_headers parse_name [] = Inr ()"
| "validate_remove_headers parse_name (name # names) =
     (case declared_header_name parse_name name of
        Inl e \<Rightarrow> Inl e
      | Inr _ \<Rightarrow> validate_remove_headers parse_name names)"

definition validate_response_headers ::
    "(string \<Rightarrow> string option) \<Rightarrow> (string \<Rightarrow> bool) \<Rightarrow> route_headers \<Rightarrow> (header_error, unit) result" where
  "validate_response_headers parse_name value_ok h =
     (if rh_set h = [] \<and> rh_remove h = [] then Inl EmptyHeaders
      else case validate_set_headers parse_name value_ok [] (rh_set h) of
             Inl e \<Rightarrow> Inl e
           | Inr _ \<Rightarrow> validate_remove_headers parse_name (rh_remove h))"

definition essence_well_formed :: "string \<Rightarrow> bool" where
  "essence_well_formed ct =
     (let essence = trim ct
      in (case split_once (CHR ''/'') essence of None \<Rightarrow> False | Some (t, s) \<Rightarrow> t \<noteq> [] \<and> s \<noteq> [])
         \<and> \<not> list_ex (\<lambda>c. c \<in> {CHR '';'', CHR '','', CHR '' ''}) essence)"

datatype body_error = ZeroBodyCap | BodyCapTooLarge u64 | NoBodyTypes | BadBodyType string

definition validate_response_body :: "route_response_body \<Rightarrow> (body_error, unit) result" where
  "validate_response_body rb =
     (if rb_max_bytes rb = 0 then Inl ZeroBodyCap
      else if rb_max_bytes rb > MAX_RESPONSE_BODY_CAP then Inl (BodyCapTooLarge (rb_max_bytes rb))
      else if rb_content_types rb = [] then Inl NoBodyTypes
      else case List.find (\<lambda>ct. \<not> essence_well_formed ct) (rb_content_types rb) of
             Some ct \<Rightarrow> Inl (BadBodyType (trim ct))
           | None \<Rightarrow> Inr ())"

datatype route_reason =
    EmptyName | ReservedName | DuplicateName string | BadTargets target_error | BadSplit split_error
  | EmptyUpgrade | EmptyUpgradeToken | H2cUpgrade
  | NoCodings | DuplicateCoding compression_algorithm | NoCompressedTypes | BadCompressedType string
  | BadHeaders header_error | BadBody body_error

datatype route_error =
    InvalidRoute string route_reason
  | UnknownRouteUpstream string string
  | UnknownRouteFilter string string
  | ZeroRate string
  | ZeroBurst string

fun validate_upgrade_tokens :: "string list \<Rightarrow> (route_reason, unit) result" where
  "validate_upgrade_tokens [] = Inr ()"
| "validate_upgrade_tokens (p # ps) =
     (if trim p = [] then Inl EmptyUpgradeToken
      else if eq_ignore_ascii_case (trim p) ''h2c'' then Inl H2cUpgrade
      else validate_upgrade_tokens ps)"

definition validate_upgrade :: "route_upgrade \<Rightarrow> (route_reason, unit) result" where
  "validate_upgrade up =
     (if ru_protocols up = [] then Inl EmptyUpgrade else validate_upgrade_tokens (ru_protocols up))"

fun duplicate_coding :: "compression_algorithm list \<Rightarrow> compression_algorithm list \<Rightarrow> compression_algorithm option" where
  "duplicate_coding seen [] = None"
| "duplicate_coding seen (a # as) = (if a \<in> set seen then Some a else duplicate_coding (a # seen) as)"

definition validate_compression :: "route_compression \<Rightarrow> (route_reason, unit) result" where
  "validate_compression c =
     (if rc_algorithms c = [] then Inl NoCodings
      else case duplicate_coding [] (rc_algorithms c) of
             Some a \<Rightarrow> Inl (DuplicateCoding a)
           | None \<Rightarrow>
               if rc_content_types c = [] then Inl NoCompressedTypes
               else case List.find (\<lambda>ct. \<not> essence_well_formed ct) (rc_content_types c) of
                      Some ct \<Rightarrow> Inl (BadCompressedType (trim ct))
                    | None \<Rightarrow> Inr ())"

text \<open>An optional section is checked if it is present.\<close>

definition check_section :: "('a \<Rightarrow> ('e, unit) result) \<Rightarrow> 'a option \<Rightarrow> ('e, unit) result" where
  "check_section check section = (case section of None \<Rightarrow> Inr () | Some s \<Rightarrow> check s)"

definition map_error :: "('e \<Rightarrow> 'f) \<Rightarrow> ('e, 'a) result \<Rightarrow> ('f, 'a) result" where
  "map_error f r = (case r of Inl e \<Rightarrow> Inl (f e) | Inr a \<Rightarrow> Inr a)"

definition and_then :: "('e, unit) result \<Rightarrow> ('e, 'a) result \<Rightarrow> ('e, 'a) result" where
  "and_then a b = (case a of Inl e \<Rightarrow> Inl e | Inr _ \<Rightarrow> b)"

definition require :: "bool \<Rightarrow> 'e \<Rightarrow> ('e, unit) result" where
  "require ok e = (if ok then Inr () else Inl e)"

record validated_route =
  vr_route :: route
  vr_targets :: "(string \<times> u32) list"

text \<open>The checks of one route, in the order of the source.\<close>

definition validate_route ::
    "(string \<Rightarrow> string option) \<Rightarrow> (string \<Rightarrow> bool) \<Rightarrow> string list \<Rightarrow> string list \<Rightarrow> string list \<Rightarrow> route
       \<Rightarrow> (route_error, validated_route) result" where
  "validate_route parse_name value_ok filter_ids upstream_names seen_names r =
     (let pp = rm_path_prefix (ro_matcher r)
      in and_then (require (case ro_name r of None \<Rightarrow> True | Some name \<Rightarrow> trim name \<noteq> []) (InvalidRoute pp EmptyName))
        (and_then (require (resolved_name r \<noteq> UNMATCHED_ROUTE) (InvalidRoute pp ReservedName))
        (and_then (require (resolved_name r \<notin> set seen_names) (InvalidRoute pp (DuplicateName (resolved_name r))))
        (case route_targets r of
           Inl e \<Rightarrow> Inl (InvalidRoute pp (BadTargets e))
         | Inr targets \<Rightarrow>
             (case List.find (\<lambda>(name, _). name \<notin> set upstream_names) targets of
                Some (name, _) \<Rightarrow> Inl (UnknownRouteUpstream pp name)
              | None \<Rightarrow>
                  (case validate_split (map snd targets) of
                     Inl e \<Rightarrow> Inl (InvalidRoute pp (BadSplit e))
                   | Inr _ \<Rightarrow>
                       (case List.find (\<lambda>f. f \<notin> set filter_ids) (ro_filters r) of
                          Some f \<Rightarrow> Inl (UnknownRouteFilter pp f)
                        | None \<Rightarrow>
                            and_then (check_section (\<lambda>rl. and_then (require (rl_rate rl \<noteq> 0) (ZeroRate pp))
                                                              (require (rl_burst rl \<noteq> 0) (ZeroBurst pp)))
                                        (ro_rate_limit r))
                            (and_then (map_error (InvalidRoute pp) (check_section validate_upgrade (ro_upgrade r)))
                            (and_then (map_error (InvalidRoute pp) (check_section validate_compression (ro_compression r)))
                            (and_then (map_error (InvalidRoute pp \<circ> BadHeaders)
                                        (check_section (validate_response_headers parse_name value_ok) (ro_headers r)))
                            (and_then (map_error (InvalidRoute pp \<circ> BadBody)
                                        (check_section validate_response_body (ro_response_body r)))
                            (Inr \<lparr>vr_route = r, vr_targets = targets\<rparr>))))))))))))"

fun validate_routes_from ::
    "(string \<Rightarrow> string option) \<Rightarrow> (string \<Rightarrow> bool) \<Rightarrow> string list \<Rightarrow> string list \<Rightarrow> string list \<Rightarrow> route list
       \<Rightarrow> (route_error, validated_route list) result" where
  "validate_routes_from parse_name value_ok filter_ids upstream_names seen_names [] = Inr []"
| "validate_routes_from parse_name value_ok filter_ids upstream_names seen_names (r # rs) =
     (case validate_route parse_name value_ok filter_ids upstream_names seen_names r of
        Inl e \<Rightarrow> Inl e
      | Inr v \<Rightarrow>
          (case validate_routes_from parse_name value_ok filter_ids upstream_names (resolved_name r # seen_names) rs of
             Inl e \<Rightarrow> Inl e
           | Inr vs \<Rightarrow> Inr (v # vs)))"

definition validate_routes ::
    "(string \<Rightarrow> string option) \<Rightarrow> (string \<Rightarrow> bool) \<Rightarrow> route list \<Rightarrow> string list \<Rightarrow> string list
       \<Rightarrow> (route_error, validated_route list) result" where
  "validate_routes parse_name value_ok routes filter_ids upstream_names =
     validate_routes_from parse_name value_ok filter_ids upstream_names [] routes"


subsection \<open>What validation accepts\<close>

definition header_name_ok :: "(string \<Rightarrow> string option) \<Rightarrow> string \<Rightarrow> bool" where
  "header_name_ok parse_name n \<longleftrightarrow>
     (\<exists>p. parse_name n = Some p \<and> p \<noteq> ''content-length'' \<and> p \<notin> set HOP_BY_HOP_GUEST_HEADERS)"

definition headers_spec :: "(string \<Rightarrow> string option) \<Rightarrow> (string \<Rightarrow> bool) \<Rightarrow> route_headers \<Rightarrow> bool" where
  "headers_spec parse_name value_ok h \<longleftrightarrow>
     (rh_set h \<noteq> [] \<or> rh_remove h \<noteq> [])
     \<and> list_all (\<lambda>(n, v). header_name_ok parse_name n \<and> value_ok v) (rh_set h)
     \<and> distinct (map (parse_name \<circ> fst) (rh_set h))
     \<and> list_all (header_name_ok parse_name) (rh_remove h)"

definition upgrade_spec :: "route_upgrade \<Rightarrow> bool" where
  "upgrade_spec up \<longleftrightarrow>
     ru_protocols up \<noteq> [] \<and> list_all (\<lambda>p. trim p \<noteq> [] \<and> \<not> eq_ignore_ascii_case (trim p) ''h2c'') (ru_protocols up)"

definition compression_spec :: "route_compression \<Rightarrow> bool" where
  "compression_spec c \<longleftrightarrow>
     rc_algorithms c \<noteq> [] \<and> distinct (rc_algorithms c) \<and> rc_content_types c \<noteq> []
     \<and> list_all essence_well_formed (rc_content_types c)"

definition body_spec :: "route_response_body \<Rightarrow> bool" where
  "body_spec rb \<longleftrightarrow>
     0 < rb_max_bytes rb \<and> rb_max_bytes rb \<le> MAX_RESPONSE_BODY_CAP \<and> rb_content_types rb \<noteq> []
     \<and> list_all essence_well_formed (rb_content_types rb)"

definition targets_spec :: "string list \<Rightarrow> route \<Rightarrow> bool" where
  "targets_spec upstream_names r \<longleftrightarrow>
     (\<exists>targets n. route_targets r = Inr targets \<and> list_all (\<lambda>t. fst t \<in> set upstream_names) targets
        \<and> validate_split (map snd targets) = Inr n)"

definition route_spec ::
    "(string \<Rightarrow> string option) \<Rightarrow> (string \<Rightarrow> bool) \<Rightarrow> string list \<Rightarrow> string list \<Rightarrow> route \<Rightarrow> bool" where
  "route_spec parse_name value_ok filter_ids upstream_names r \<longleftrightarrow>
     (case ro_name r of None \<Rightarrow> True | Some name \<Rightarrow> trim name \<noteq> []) \<and> resolved_name r \<noteq> UNMATCHED_ROUTE
     \<and> targets_spec upstream_names r \<and> set (ro_filters r) \<subseteq> set filter_ids
     \<and> pred_option (\<lambda>rl. rl_rate rl \<noteq> 0 \<and> rl_burst rl \<noteq> 0) (ro_rate_limit r)
     \<and> pred_option upgrade_spec (ro_upgrade r) \<and> pred_option compression_spec (ro_compression r)
     \<and> pred_option (headers_spec parse_name value_ok) (ro_headers r) \<and> pred_option body_spec (ro_response_body r)"

lemma declared_header_name_ok:
  "declared_header_name parse_name n = Inr p \<longleftrightarrow> header_name_ok parse_name n \<and> parse_name n = Some p"
  by (auto simp: declared_header_name_def header_name_ok_def list_ex_iff split: option.splits)

lemma validate_set_headers_ok:
  "validate_set_headers parse_name value_ok seen hs = Inr u \<longleftrightarrow>
     list_all (\<lambda>(n, v). header_name_ok parse_name n \<and> value_ok v) hs
     \<and> distinct (map (parse_name \<circ> fst) hs) \<and> set (map (parse_name \<circ> fst) hs) \<inter> Some ` set seen = {}"
proof (induction parse_name value_ok seen hs rule: validate_set_headers.induct)
  case (2 parse_name value_ok seen name val hs)
  show ?case
  proof (cases "declared_header_name parse_name name")
    case (Inl e)
    then have "\<not> header_name_ok parse_name name"
      using declared_header_name_ok [of parse_name name] by (metis header_name_ok_def sum.distinct(1))
    with Inl show ?thesis by simp
  next
    case (Inr p)
    then have "header_name_ok parse_name name" "parse_name name = Some p"
      using declared_header_name_ok [of parse_name name p] by simp_all
    with Inr 2 show ?thesis by auto
  qed
qed simp

lemma validate_remove_headers_ok:
  "validate_remove_headers parse_name ns = Inr u \<longleftrightarrow> list_all (header_name_ok parse_name) ns"
proof (induction ns)
  case (Cons n ns)
  show ?case
  proof (cases "declared_header_name parse_name n")
    case (Inl e)
    then have "\<not> header_name_ok parse_name n"
      using declared_header_name_ok [of parse_name n] by (metis header_name_ok_def sum.distinct(1))
    with Inl show ?thesis by simp
  next
    case (Inr p)
    with Cons show ?thesis using declared_header_name_ok [of parse_name n p] by simp
  qed
qed simp

lemma validate_response_headers_ok: "validate_response_headers parse_name value_ok h = Inr u \<longleftrightarrow> headers_spec parse_name value_ok h"
  using validate_set_headers_ok [of parse_name value_ok "[]" "rh_set h"] validate_remove_headers_ok [of parse_name "rh_remove h"]
  by (auto simp: validate_response_headers_def headers_spec_def split: sum.splits)

lemma validate_upgrade_ok: "validate_upgrade up = Inr u \<longleftrightarrow> upgrade_spec up"
proof -
  have "validate_upgrade_tokens ps = Inr u \<longleftrightarrow>
      list_all (\<lambda>p. trim p \<noteq> [] \<and> \<not> eq_ignore_ascii_case (trim p) ''h2c'') ps" for ps
    by (induction ps) auto
  then show ?thesis by (auto simp: validate_upgrade_def upgrade_spec_def)
qed

lemma find_none_list_all: "List.find (\<lambda>x. \<not> P x) xs = None \<longleftrightarrow> list_all P xs"
  by (induction xs) auto

lemma duplicate_coding_None: "duplicate_coding seen as = None \<longleftrightarrow> distinct as \<and> set as \<inter> set seen = {}"
  by (induction seen as rule: duplicate_coding.induct) auto

lemma validate_compression_ok: "validate_compression c = Inr u \<longleftrightarrow> compression_spec c"
  using duplicate_coding_None [of "[]" "rc_algorithms c"] find_none_list_all [of essence_well_formed "rc_content_types c"]
  by (auto simp: validate_compression_def compression_spec_def split: option.splits)

lemma validate_response_body_ok: "validate_response_body rb = Inr u \<longleftrightarrow> body_spec rb"
  using find_none_list_all [of essence_well_formed "rb_content_types rb"]
  by (auto simp: validate_response_body_def body_spec_def not_less word_neq_0_conv split: option.splits)

lemma and_then_Inr [simp]: "and_then a b = Inr x \<longleftrightarrow> a = Inr () \<and> b = Inr x"
  by (auto simp: and_then_def split: sum.splits)

lemma require_Inr [simp]: "require ok e = Inr u \<longleftrightarrow> ok"
  by (simp add: require_def)

lemma map_error_Inr [simp]: "map_error f r = Inr x \<longleftrightarrow> r = Inr x"
  by (auto simp: map_error_def split: sum.splits)

lemma check_section_Inr: "check_section check sec = Inr u \<longleftrightarrow> pred_option (\<lambda>x. check x = Inr ()) sec"
  by (auto simp: check_section_def split: option.splits)

lemmas section_checks = check_section_Inr validate_upgrade_ok validate_compression_ok validate_response_headers_ok
  validate_response_body_ok

lemma validate_route_ok:
  "validate_route parse_name value_ok filter_ids upstream_names seen r = Inr v \<longleftrightarrow>
     route_spec parse_name value_ok filter_ids upstream_names r \<and> resolved_name r \<notin> set seen
     \<and> vr_route v = r \<and> route_targets r = Inr (vr_targets v)"
proof (cases "route_targets r")
  case (Inl e)
  then show ?thesis by (auto simp: validate_route_def Let_def route_spec_def targets_spec_def)
next
  case (Inr targets)
  have ups: "List.find (\<lambda>(name, _). name \<notin> set upstream_names) targets = None \<longleftrightarrow>
      list_all (\<lambda>t. fst t \<in> set upstream_names) targets"
    using find_none_list_all [of "\<lambda>t. fst t \<in> set upstream_names" targets] by (simp add: case_prod_unfold)
  have fil: "List.find (\<lambda>f. f \<notin> set filter_ids) (ro_filters r) = None \<longleftrightarrow> set (ro_filters r) \<subseteq> set filter_ids"
    using find_none_list_all [of "\<lambda>f. f \<in> set filter_ids" "ro_filters r"] by (auto simp: list_all_iff)
  have v: "v = \<lparr>vr_route = r, vr_targets = targets\<rparr> \<longleftrightarrow> vr_route v = r \<and> vr_targets v = targets"
    by (cases v) auto
  show ?thesis
    using ups fil v
    by (auto simp: validate_route_def Let_def route_spec_def targets_spec_def Inr section_checks
        split: option.splits sum.splits)
qed

lemma validate_routes_from_ok:
  "validate_routes_from parse_name value_ok filter_ids upstream_names seen rs = Inr vs \<longleftrightarrow>
     list_all (route_spec parse_name value_ok filter_ids upstream_names) rs \<and> distinct (map resolved_name rs)
     \<and> set (map resolved_name rs) \<inter> set seen = {}
     \<and> list_all2 (\<lambda>v r. vr_route v = r \<and> route_targets r = Inr (vr_targets v)) vs rs"
proof (induction parse_name value_ok filter_ids upstream_names seen rs arbitrary: vs rule: validate_routes_from.induct)
  case (2 parse_name value_ok filter_ids upstream_names seen r rs)
  let ?all = "list_all2 (\<lambda>v r. vr_route v = r \<and> route_targets r = Inr (vr_targets v))"
  have split: "validate_routes_from parse_name value_ok filter_ids upstream_names seen (r # rs) = Inr vs \<longleftrightarrow>
      (\<exists>v vs'. vs = v # vs' \<and> validate_route parse_name value_ok filter_ids upstream_names seen r = Inr v
        \<and> validate_routes_from parse_name value_ok filter_ids upstream_names (resolved_name r # seen) rs = Inr vs')"
    by (auto split: sum.splits)
  have IH: "validate_routes_from parse_name value_ok filter_ids upstream_names (resolved_name r # seen) rs = Inr vs' \<longleftrightarrow>
     list_all (route_spec parse_name value_ok filter_ids upstream_names) rs \<and> distinct (map resolved_name rs)
     \<and> set (map resolved_name rs) \<inter> set (resolved_name r # seen) = {} \<and> ?all vs' rs"
    if "validate_route parse_name value_ok filter_ids upstream_names seen r = Inr v" for v vs'
    using 2 [OF that] by blast
  have "validate_routes_from parse_name value_ok filter_ids upstream_names seen (r # rs) = Inr vs \<longleftrightarrow>
      (\<exists>v vs'. vs = v # vs' \<and> validate_route parse_name value_ok filter_ids upstream_names seen r = Inr v
        \<and> list_all (route_spec parse_name value_ok filter_ids upstream_names) rs \<and> distinct (map resolved_name rs)
        \<and> set (map resolved_name rs) \<inter> set (resolved_name r # seen) = {} \<and> ?all vs' rs)"
    unfolding split using IH by blast
  then show ?case unfolding validate_route_ok by (auto simp: list_all2_Cons2)
qed auto

text \<open>
  C27: Route validation is exact.  A list of routes is accepted if and only if every route has a
  usable name, exactly one kind of target whose upstreams are declared and whose weights form a
  valid split, only declared filters, a rate limit that can serve, an upgrade list without \<open>h2c\<close>,
  and well-formed compression, header and body sections, and no two routes share a resolved name;
  the result pairs each route with its targets, in order.
\<close>

theorem validate_routes_exact:
  "validate_routes parse_name value_ok routes filter_ids upstream_names = Inr vs \<longleftrightarrow>
     list_all (route_spec parse_name value_ok filter_ids upstream_names) routes \<and> distinct (map resolved_name routes)
     \<and> list_all2 (\<lambda>v r. vr_route v = r \<and> route_targets r = Inr (vr_targets v)) vs routes"
  by (simp add: validate_routes_def validate_routes_from_ok)

end
