(* ===== verification/Route_Config.thy ===== *)
theory Route_Config
  imports Route_Manifest Route_Path
begin

text \<open>
  The compiled per-route sections of \<open>control/src/route.rs\<close>: the Upgrade allowlist, the compression
  and response-body settings, the timeouts, and the declared response headers.  The header map of a
  response belongs to the \<open>http\<close> crate: its removal and insertion are arguments, and the locale
  \<open>header_map\<close> states the documented laws the declaration relies on.
\<close>

record upgrade_config =
  uc_protocols :: "string list"
  uc_idle_timeout :: "u64 option"

definition upgrade_config_new :: "string list \<Rightarrow> u64 \<Rightarrow> upgrade_config" where
  "upgrade_config_new protocols idle_timeout_ms =
     \<lparr>uc_protocols = map (\<lambda>p. to_ascii_lowercase (trim p)) protocols,
      uc_idle_timeout = (if idle_timeout_ms > 0 then Some idle_timeout_ms else None)\<rparr>"

fun find_map :: "('a \<Rightarrow> 'b option) \<Rightarrow> 'a list \<Rightarrow> 'b option" where
  "find_map f [] = None"
| "find_map f (x # xs) = (case f x of Some y \<Rightarrow> Some y | None \<Rightarrow> find_map f xs)"

definition allowed_token :: "upgrade_config \<Rightarrow> string \<Rightarrow> string option" where
  "allowed_token uc upgrade_header =
     find_map (\<lambda>tok. List.find (\<lambda>p. eq_ignore_ascii_case p tok) (uc_protocols uc))
       (map trim (split_on (CHR '','') upgrade_header))"

record compression_config =
  cc_algorithms :: "compression_algorithm list"
  cc_min_length :: u64
  cc_content_types :: "string list"

definition compression_config_new :: "route_compression \<Rightarrow> compression_config" where
  "compression_config_new rc =
     \<lparr>cc_algorithms = rc_algorithms rc, cc_min_length = rc_min_length rc,
      cc_content_types = map (\<lambda>ct. to_ascii_lowercase (trim ct)) (rc_content_types rc)\<rparr>"

definition content_type_eligible :: "string list \<Rightarrow> string \<Rightarrow> bool" where
  "content_type_eligible content_types essence =
     list_ex (\<lambda>ct. eq_ignore_ascii_case ct (trim essence)) content_types"

record response_body_config =
  bc_max_bytes :: usize
  bc_over_cap :: over_cap_mode
  bc_uninspectable :: uninspectable_mode
  bc_content_types :: "string list"

definition response_body_config_new :: "route_response_body \<Rightarrow> response_body_config" where
  "response_body_config_new rb =
     \<lparr>bc_max_bytes = rb_max_bytes rb, bc_over_cap = rb_over_cap rb, bc_uninspectable = rb_uninspectable rb,
      bc_content_types = map (\<lambda>ct. to_ascii_lowercase (trim ct)) (rb_content_types rb)\<rparr>"

definition response_body_config_default :: response_body_config where
  "response_body_config_default = response_body_config_new response_body_default"

record timeout_config =
  tc_request :: "u64 option"
  tc_overall :: "u64 option"

definition timeout_config_new :: "route_timeouts \<Rightarrow> timeout_config" where
  "timeout_config_new t = \<lparr>tc_request = rt_request_timeout_ms t, tc_overall = rt_overall_timeout_ms t\<rparr>"

definition timeout_config_default :: timeout_config where
  "timeout_config_default = \<lparr>tc_request = None, tc_overall = None\<rparr>"

definition effective_request_timeout :: "timeout_config \<Rightarrow> u64 \<Rightarrow> u64" where
  "effective_request_timeout tc upstream_default = (case tc_request tc of Some t \<Rightarrow> t | None \<Rightarrow> upstream_default)"

definition effective_overall_timeout :: "timeout_config \<Rightarrow> u64 \<Rightarrow> u64" where
  "effective_overall_timeout tc upstream_default = (case tc_overall tc of Some t \<Rightarrow> t | None \<Rightarrow> upstream_default)"

subsection \<open>Declared response headers\<close>

record response_headers =
  rs_set :: "(string \<times> string) list"
  rs_remove :: "string list"

definition response_headers_new :: "(string \<Rightarrow> string option) \<Rightarrow> (string \<Rightarrow> bool) \<Rightarrow> route_headers \<Rightarrow> response_headers" where
  "response_headers_new parse_name value_ok rh =
     \<lparr>rs_set = List.map_filter
        (\<lambda>(name, value). case parse_name name of
            None \<Rightarrow> None
          | Some n \<Rightarrow> if value_ok value then Some (n, value) else None) (rh_set rh),
      rs_remove = List.map_filter parse_name (rh_remove rh)\<rparr>"

definition apply_response_headers ::
    "('m \<Rightarrow> string \<Rightarrow> 'm) \<Rightarrow> ('m \<Rightarrow> string \<Rightarrow> string \<Rightarrow> 'm) \<Rightarrow> response_headers \<Rightarrow> 'm \<Rightarrow> 'm" where
  "apply_response_headers hm_remove hm_insert rs headers =
     foldl (\<lambda>hs (name, value). hm_insert hs name value)
       (foldl hm_remove headers (rs_remove rs)) (rs_set rs)"

locale header_map =
  fixes get_all :: "'m \<Rightarrow> string \<Rightarrow> string list"
    and hm_remove :: "'m \<Rightarrow> string \<Rightarrow> 'm"
    and hm_insert :: "'m \<Rightarrow> string \<Rightarrow> string \<Rightarrow> 'm"
  assumes get_remove: "get_all (hm_remove m n) k = (if k = n then [] else get_all m k)"
    and get_insert: "get_all (hm_insert m n v) k = (if k = n then [v] else get_all m k)"
begin

lemma get_removes: "get_all (foldl hm_remove m ns) k = (if k \<in> set ns then [] else get_all m k)"
  by (induction ns arbitrary: m) (auto simp: get_remove)

lemma get_inserts:
  "distinct (map fst nvs) \<Longrightarrow>
     get_all (foldl (\<lambda>hs (n, v). hm_insert hs n v) m nvs) k
       = (case map_of nvs k of Some v \<Rightarrow> [v] | None \<Rightarrow> get_all m k)"
proof (induction nvs arbitrary: m)
  case (Cons nv nvs)
  obtain n v where nv: "nv = (n, v)" by (cases nv)
  have "map_of nvs n = None" using Cons.prems nv by (simp add: map_of_eq_None_iff)
  then show ?case using Cons nv by (auto simp: get_insert split: option.splits)
qed simp

lemma get_apply:
  assumes "distinct (map fst (rs_set rs))"
  shows "get_all (apply_response_headers hm_remove hm_insert rs m) k =
    (case map_of (rs_set rs) k of
       Some v \<Rightarrow> [v]
     | None \<Rightarrow> if k \<in> set (rs_remove rs) then [] else get_all m k)"
  by (simp add: apply_response_headers_def get_inserts [OF assms] get_removes split: option.split)

end

text \<open>The multimap as the list of its fields, in arrival order.\<close>

definition fields_get :: "(string \<times> string) list \<Rightarrow> string \<Rightarrow> string list" where
  "fields_get m k = map snd (filter (\<lambda>f. fst f = k) m)"

definition fields_remove :: "(string \<times> string) list \<Rightarrow> string \<Rightarrow> (string \<times> string) list" where
  "fields_remove m n = filter (\<lambda>f. fst f \<noteq> n) m"

definition fields_insert :: "(string \<times> string) list \<Rightarrow> string \<Rightarrow> string \<Rightarrow> (string \<times> string) list" where
  "fields_insert m n v = fields_remove m n @ [(n, v)]"

lemma fields_get_remove: "fields_get (fields_remove m n) k = (if k = n then [] else fields_get m k)"
  by (induction m) (auto simp: fields_get_def fields_remove_def)

interpretation fields: header_map fields_get fields_remove fields_insert
proof unfold_locales
  show "fields_get (fields_remove m n) k = (if k = n then [] else fields_get m k)" for m n k
    by (rule fields_get_remove)
  show "fields_get (fields_insert m n v) k = (if k = n then [v] else fields_get m k)" for m n v k
    using fields_get_remove [of m n k] by (simp add: fields_insert_def fields_get_def)
qed

lemma validated_set:
  assumes "headers_spec parse_name value_ok rh"
  shows "rs_set (response_headers_new parse_name value_ok rh) = map (\<lambda>(n, v). (the (parse_name n), v)) (rh_set rh)"
    and "rs_remove (response_headers_new parse_name value_ok rh) = map (the \<circ> parse_name) (rh_remove rh)"
proof -
  have "List.map_filter (\<lambda>(name, value). case parse_name name of None \<Rightarrow> None
        | Some n \<Rightarrow> if value_ok value then Some (n, value) else None) nvs
      = map (\<lambda>(n, v). (the (parse_name n), v)) nvs"
    if "list_all (\<lambda>(n, v). header_name_ok parse_name n \<and> value_ok v) nvs" for nvs
    using that by (induction nvs) (auto simp: header_name_ok_def map_filter_simps)
  then show "rs_set (response_headers_new parse_name value_ok rh) = map (\<lambda>(n, v). (the (parse_name n), v)) (rh_set rh)"
    using assms by (simp add: response_headers_new_def headers_spec_def)
  have "List.map_filter parse_name ns = map (the \<circ> parse_name) ns" if "list_all (header_name_ok parse_name) ns" for ns
    using that by (induction ns) (auto simp: header_name_ok_def map_filter_simps)
  then show "rs_remove (response_headers_new parse_name value_ok rh) = map (the \<circ> parse_name) (rh_remove rh)"
    using assms by (simp add: response_headers_new_def headers_spec_def)
qed

lemma validated_set_distinct:
  assumes "headers_spec parse_name value_ok rh"
  shows "distinct (map fst (rs_set (response_headers_new parse_name value_ok rh)))"
proof -
  have "inj_on the (set (map (parse_name \<circ> fst) (rh_set rh)))"
  proof (rule inj_onI)
    fix x y assume xy: "x \<in> set (map (parse_name \<circ> fst) (rh_set rh))" "y \<in> set (map (parse_name \<circ> fst) (rh_set rh))"
    have "\<exists>p. z = Some p" if "z \<in> set (map (parse_name \<circ> fst) (rh_set rh))" for z
      using that assms by (fastforce simp: headers_spec_def header_name_ok_def list_all_iff)
    from this [OF xy(1)] this [OF xy(2)] show "the x = the y \<Longrightarrow> x = y" by auto
  qed
  then have "distinct (map the (map (parse_name \<circ> fst) (rh_set rh)))"
    using assms by (simp only: distinct_map headers_spec_def)
  then show ?thesis by (simp add: validated_set [OF assms] case_prod_unfold comp_def)
qed

text \<open>
  The declared response headers are a floor.  For a validated declaration, after stamping every
  \<open>set\<close> name has exactly its declared value, every \<open>remove\<close> name that is not also set is absent, and every
  other name -- in particular \<open>content-length\<close> and the hop-by-hop names -- has the values it had before,
  for any header map whose removal and insertion behave as documented.
\<close>

theorem response_headers_floor:
  assumes "header_map get_all hm_remove hm_insert"
    and "validate_response_headers parse_name value_ok rh = Inr u"
  defines "stamp \<equiv> apply_response_headers hm_remove hm_insert (response_headers_new parse_name value_ok rh)"
  shows "(\<forall>(n, v) \<in> set (rh_set rh). get_all (stamp m) (the (parse_name n)) = [v])
    \<and> (\<forall>k. k \<notin> the ` parse_name ` fst ` set (rh_set rh) \<longrightarrow>
         get_all (stamp m) k = (if k \<in> the ` parse_name ` set (rh_remove rh) then [] else get_all m k))
    \<and> (\<forall>k \<in> insert ''content-length'' (set HOP_BY_HOP_GUEST_HEADERS). get_all (stamp m) k = get_all m k)"
proof -
  have spec: "headers_spec parse_name value_ok rh" using assms(2) by (simp add: validate_response_headers_ok)
  note sets = validated_set [OF spec]
  note dist = validated_set_distinct [OF spec]
  let ?rs = "response_headers_new parse_name value_ok rh"
  have get: "get_all (stamp m) k = (case map_of (rs_set ?rs) k of Some v \<Rightarrow> [v]
      | None \<Rightarrow> if k \<in> set (rs_remove ?rs) then [] else get_all m k)" for k
    unfolding stamp_def by (rule header_map.get_apply [OF assms(1) dist])
  have names: "fst ` set (rs_set ?rs) = the ` parse_name ` fst ` set (rh_set rh)"
    unfolding sets by (force simp: image_iff)
  have set_ok: "get_all (stamp m) (the (parse_name n)) = [v]" if "(n, v) \<in> set (rh_set rh)" for n v
  proof -
    have "(the (parse_name n), v) \<in> set (rs_set ?rs)" using that unfolding sets by force
    then show ?thesis using get map_of_is_SomeI [OF dist] by simp
  qed
  have others: "get_all (stamp m) k = (if k \<in> the ` parse_name ` set (rh_remove rh) then [] else get_all m k)"
    if "k \<notin> the ` parse_name ` fst ` set (rh_set rh)" for k
  proof -
    have "map_of (rs_set ?rs) k = None" using that names by (simp add: map_of_eq_None_iff)
    then show ?thesis using get [of k] by (simp add: sets(2) image_comp)
  qed
  have reserved: "k \<notin> the ` parse_name ` fst ` set (rh_set rh)" "k \<notin> the ` parse_name ` set (rh_remove rh)"
    if "k \<in> insert ''content-length'' (set HOP_BY_HOP_GUEST_HEADERS)" for k
    using spec that by (fastforce simp: headers_spec_def header_name_ok_def list_all_iff)+
  have keep: "get_all (stamp m) k = get_all m k" if "k \<in> insert ''content-length'' (set HOP_BY_HOP_GUEST_HEADERS)" for k
    using others [OF reserved(1) [OF that]] reserved(2) [OF that] by simp
  show ?thesis using set_ok others keep by blast
qed

theorem response_headers_floor_witness:
  "fields_get (apply_response_headers fields_remove fields_insert
     (response_headers_new (Some \<circ> to_ascii_lowercase) (\<lambda>_. True) \<lparr>rh_set = [(''X-Frame'', ''DENY'')], rh_remove = [''server'']\<rparr>)
     [(''x-frame'', ''a''), (''x-frame'', ''b''), (''server'', ''s'')]) ''x-frame'' = [''DENY'']"
proof -
  have low: "to_ascii_lowercase ''X-Frame'' = ''x-frame''" "to_ascii_lowercase ''server'' = ''server''" by code_simp+
  have v: "validate_response_headers (Some \<circ> to_ascii_lowercase) (\<lambda>_. True)
      \<lparr>rh_set = [(''X-Frame'', ''DENY'')], rh_remove = [''server'']\<rparr> = Inr ()"
    by (simp add: validate_response_headers_def declared_header_name_def HOP_BY_HOP_GUEST_HEADERS_def low)
  show ?thesis
    using response_headers_floor [OF fields.header_map_axioms v, of "[(''x-frame'', ''a''), (''x-frame'', ''b''), (''server'', ''s'')]"]
    by (simp add: low)
qed

subsection \<open>Upgrade tokens\<close>

lemma find_map_Some: "find_map f xs = Some y \<Longrightarrow> \<exists>x \<in> set xs. f x = Some y"
  by (induction xs) (auto split: option.splits)

lemma find_map_None: "find_map f xs = None \<longleftrightarrow> (\<forall>x \<in> set xs. f x = None)"
  by (induction xs) (auto split: option.splits)

text \<open>
  No \<open>h2c\<close> upgrade.  On a validated route the token an Upgrade header selects is one of the
  declared protocols and one of the header's alternatives, up to case, and is never \<open>h2c\<close>, whatever
  the client sends; a header none of whose alternatives is declared selects nothing.
\<close>

theorem upgrade_token_declared:
  fixes header :: string and idle :: u64
  assumes "validate_upgrade up = Inr u"
  defines "tok \<equiv> allowed_token (upgrade_config_new (ru_protocols up) idle) header"
  shows "(\<forall>t. tok = Some t \<longrightarrow>
      t \<in> (to_ascii_lowercase \<circ> trim) ` set (ru_protocols up)
      \<and> (\<exists>alt \<in> set (split_on (CHR '','') header). eq_ignore_ascii_case t (trim alt))
      \<and> \<not> eq_ignore_ascii_case t ''h2c'')
    \<and> (tok = None \<longleftrightarrow> (\<forall>alt \<in> set (split_on (CHR '','') header). \<forall>p \<in> set (ru_protocols up).
         \<not> eq_ignore_ascii_case (trim p) (trim alt)))"
proof (intro conjI allI impI)
  have spec: "upgrade_spec up" using assms(1) by (simp add: validate_upgrade_ok)
  fix t assume "tok = Some t"
  then obtain alt where alt: "alt \<in> set (split_on (CHR '','') header)"
    and t: "List.find (\<lambda>p. eq_ignore_ascii_case p (trim alt))
      (uc_protocols (upgrade_config_new (ru_protocols up) idle)) = Some t"
    unfolding tok_def allowed_token_def by (auto dest!: find_map_Some)
  from t have m: "t \<in> set (uc_protocols (upgrade_config_new (ru_protocols up) idle))" "eq_ignore_ascii_case t (trim alt)"
    by (auto simp: find_Some_iff)
  show "t \<in> (to_ascii_lowercase \<circ> trim) ` set (ru_protocols up)" using m(1) by (auto simp: upgrade_config_new_def)
  then show "\<not> eq_ignore_ascii_case t ''h2c''"
    using spec by (auto simp: upgrade_spec_def list_all_iff)
  show "\<exists>alt \<in> set (split_on (CHR '','') header). eq_ignore_ascii_case t (trim alt)" using alt m(2) by blast
next
  show "tok = None \<longleftrightarrow> (\<forall>alt \<in> set (split_on (CHR '','') header). \<forall>p \<in> set (ru_protocols up).
      \<not> eq_ignore_ascii_case (trim p) (trim alt))"
    by (auto simp: tok_def allowed_token_def find_map_None find_None_iff upgrade_config_new_def)
qed

theorem upgrade_token_declared_witness:
  "allowed_token (upgrade_config_new [''WebSocket''] 0) ''h2c, websocket'' \<noteq> Some ''h2c''"
proof -
  have t: "trim ''WebSocket'' = ''WebSocket''" "\<not> eq_ignore_ascii_case ''WebSocket'' ''h2c''" by code_simp+
  have v: "validate_upgrade \<lparr>ru_protocols = [''WebSocket''], ru_idle_timeout_ms = 0\<rparr> = Inr ()"
    by (simp add: validate_upgrade_def t)
  show ?thesis using upgrade_token_declared [OF v, of 0 "''h2c, websocket''"] by auto
qed

end
