(* ===== verification/Chain.thy ===== *)
theory Chain
  imports Plecto_Strings
begin

text \<open>
  The filter chain dispatcher of \<open>control/src/chain.rs\<close>.  The guest hooks run in the WebAssembly
  runtime and are functions in the record of a loaded filter: each takes the world it may change (the
  host-held state) and returns a decision or a \<open>run_error\<close>.  Whether a pooled instance is idle, which
  decides between running inline and \<open>WouldBlock\<close>, is a function of the world too.  Header values and
  bodies are byte strings.
\<close>

subsection \<open>Requests, responses, decisions\<close>

record header =
  h_name :: string
  h_value :: string

record http_request =
  rq_method :: string
  rq_path_with_query :: string
  rq_authority :: string
  rq_scheme :: string
  rq_headers :: "header list"

record http_response =
  rp_status :: u16
  rp_headers :: "header list"
  rp_body :: string

record request_edit =
  qe_set_headers :: "header list"
  qe_remove_headers :: "string list"

record response_edit =
  se_set_status :: "u16 option"
  se_set_headers :: "header list"
  se_remove_headers :: "string list"

record body_edit =
  be_body :: string
  be_set_headers :: "header list"
  be_remove_headers :: "string list"

datatype request_decision = RqContinue | RqModified request_edit | RqShortCircuit http_response

datatype request_body_decision = QbContinue | QbModified body_edit | QbShortCircuit http_response

datatype response_decision = RpContinue | RpModified response_edit | RpReplace http_response

datatype response_body_decision = PbContinue | PbModified body_edit | PbReplace http_response

datatype run_error = Deadline | Trap string | Instantiate string | Unavailable | InvalidOutput

definition fault_response :: "u16 \<Rightarrow> string \<Rightarrow> string \<Rightarrow> http_response" where
  "fault_response status fault msg =
     \<lparr>rp_status = status, rp_headers = [\<lparr>h_name = ''x-plecto-fault'', h_value = fault\<rparr>], rp_body = msg\<rparr>"

definition fail_closed_response :: "run_error \<Rightarrow> http_response" where
  "fail_closed_response err =
     (case err of
        Deadline \<Rightarrow> fault_response 504 ''deadline'' ''filter deadline exceeded''
      | Trap _ \<Rightarrow> fault_response 502 ''trap'' ''filter trapped''
      | Instantiate _ \<Rightarrow> fault_response 502 ''instantiate'' ''filter instantiation failed''
      | Unavailable \<Rightarrow> fault_response 503 ''unavailable'' ''filter temporarily unavailable''
      | InvalidOutput \<Rightarrow> fault_response 502 ''invalid-output'' ''filter returned invalid output'')"

record body_hooks =
  bh_request :: bool
  bh_response :: bool

definition body_hooks_none :: body_hooks where
  "body_hooks_none = \<lparr>bh_request = False, bh_response = False\<rparr>"

definition body_hooks_union :: "body_hooks \<Rightarrow> body_hooks \<Rightarrow> body_hooks" where
  "body_hooks_union a b = \<lparr>bh_request = bh_request a \<or> bh_request b, bh_response = bh_response a \<or> bh_response b\<rparr>"

record 'w loaded_filter =
  lf_runs_inline :: bool
  lf_idle :: "'w \<Rightarrow> bool"
  lf_body_hooks :: body_hooks
  lf_on_request :: "'w \<Rightarrow> http_request \<Rightarrow> 'w \<times> (run_error, request_decision) result"
  lf_call_request_body :: "'w \<Rightarrow> string \<Rightarrow> 'w \<times> (run_error, request_body_decision) result"
  lf_on_response :: "'w \<Rightarrow> http_request \<Rightarrow> http_response \<Rightarrow> 'w \<times> (run_error, response_decision) result"
  lf_call_response_body ::
    "'w \<Rightarrow> http_request \<Rightarrow> http_response \<Rightarrow> string \<Rightarrow> 'w \<times> (run_error, response_body_decision) result"

datatype 'a try_hook_outcome = Executed 'a | WouldBlock

definition try_on_request ::
    "'w loaded_filter \<Rightarrow> 'w \<Rightarrow> http_request \<Rightarrow> 'w \<times> (run_error, request_decision) result try_hook_outcome" where
  "try_on_request f w req =
     (if \<not> lf_runs_inline f \<or> \<not> lf_idle f w then (w, WouldBlock)
      else case lf_on_request f w req of (w', res) \<Rightarrow> (w', Executed res))"

definition try_on_response ::
    "'w loaded_filter \<Rightarrow> 'w \<Rightarrow> http_request \<Rightarrow> http_response
       \<Rightarrow> 'w \<times> (run_error, response_decision) result try_hook_outcome" where
  "try_on_response f w req resp =
     (if \<not> lf_runs_inline f \<or> \<not> lf_idle f w then (w, WouldBlock)
      else case lf_on_response f w req resp of (w', res) \<Rightarrow> (w', Executed res))"

text \<open>A filter without the export passes the body through without being run.\<close>

definition on_request_body ::
    "'w loaded_filter \<Rightarrow> 'w \<Rightarrow> string \<Rightarrow> 'w \<times> (run_error, request_body_decision) result" where
  "on_request_body f w body =
     (if \<not> bh_request (lf_body_hooks f) then (w, Inr QbContinue) else lf_call_request_body f w body)"

definition on_response_body ::
    "'w loaded_filter \<Rightarrow> 'w \<Rightarrow> http_request \<Rightarrow> http_response \<Rightarrow> string
       \<Rightarrow> 'w \<times> (run_error, response_body_decision) result" where
  "on_response_body f w req resp body =
     (if \<not> bh_response (lf_body_hooks f) then (w, Inr PbContinue) else lf_call_response_body f w req resp body)"

subsection \<open>Edits\<close>

definition remove_headers :: "header list \<Rightarrow> string list \<Rightarrow> header list" where
  "remove_headers headers names =
     foldl (\<lambda>hs name. filter (\<lambda>h. \<not> eq_ignore_ascii_case (h_name h) name) hs) headers names"

definition is_repeatable :: "string \<Rightarrow> bool" where
  "is_repeatable name = eq_ignore_ascii_case name ''set-cookie''"

definition set_header :: "header list \<Rightarrow> header \<Rightarrow> header list" where
  "set_header headers h =
     (if \<not> is_repeatable (h_name h)
      then filter (\<lambda>existing. \<not> eq_ignore_ascii_case (h_name existing) (h_name h)) headers
      else headers) @ [h]"

definition set_headers :: "header list \<Rightarrow> header list \<Rightarrow> header list" where
  "set_headers headers set_list = foldl set_header headers set_list"

definition apply_request_edit :: "http_request \<Rightarrow> request_edit \<Rightarrow> http_request" where
  "apply_request_edit req edit =
     req\<lparr>rq_headers := set_headers (remove_headers (rq_headers req) (qe_remove_headers edit)) (qe_set_headers edit)\<rparr>"

definition apply_response_edit :: "http_response \<Rightarrow> response_edit \<Rightarrow> http_response" where
  "apply_response_edit resp edit =
     resp\<lparr>rp_status := (case se_set_status edit of Some s \<Rightarrow> s | None \<Rightarrow> rp_status resp),
          rp_headers := set_headers (remove_headers (rp_headers resp) (se_remove_headers edit)) (se_set_headers edit)\<rparr>"

definition apply_body_edit :: "header list \<Rightarrow> body_edit \<Rightarrow> header list \<times> string" where
  "apply_body_edit headers edit =
     (set_headers (remove_headers headers (be_remove_headers edit)) (be_set_headers edit), be_body edit)"

subsection \<open>The request side\<close>

datatype chain_outcome = ChRespond http_response | ChForward http_request

datatype inline_request_outcome = RqComplete chain_outcome | RqPending nat http_request

datatype ('s, 't) step_outcome = StContinue 's | StTerminal 't

definition handle_request_step ::
    "http_request \<Rightarrow> (run_error, request_decision) result \<Rightarrow> (http_request, chain_outcome) step_outcome" where
  "handle_request_step request res =
     (case res of
        Inr RqContinue \<Rightarrow> StContinue request
      | Inr (RqModified edit) \<Rightarrow> StContinue (apply_request_edit request edit)
      | Inr (RqShortCircuit response) \<Rightarrow> StTerminal (ChRespond response)
      | Inl err \<Rightarrow> StTerminal (ChRespond (fail_closed_response err)))"

fun request_inline_loop ::
    "nat \<Rightarrow> 'w loaded_filter list \<Rightarrow> 'w \<Rightarrow> http_request \<Rightarrow> 'w \<times> inline_request_outcome" where
  "request_inline_loop k [] w request = (w, RqComplete (ChForward request))"
| "request_inline_loop k (f # fs) w request =
     (case try_on_request f w request of
        (w', WouldBlock) \<Rightarrow> (w', RqPending k request)
      | (w', Executed res) \<Rightarrow>
          (case handle_request_step request res of
             StContinue request' \<Rightarrow> request_inline_loop (k + 1) fs w' request'
           | StTerminal out \<Rightarrow> (w', RqComplete out)))"

definition dispatch_request_inline ::
    "'w loaded_filter list \<Rightarrow> 'w \<Rightarrow> http_request \<Rightarrow> 'w \<times> inline_request_outcome" where
  "dispatch_request_inline chain w request = request_inline_loop 0 chain w request"

fun request_loop :: "'w loaded_filter list \<Rightarrow> 'w \<Rightarrow> http_request \<Rightarrow> 'w \<times> chain_outcome" where
  "request_loop [] w request = (w, ChForward request)"
| "request_loop (f # fs) w request =
     (case lf_on_request f w request of
        (w', res) \<Rightarrow>
          (case handle_request_step request res of
             StContinue request' \<Rightarrow> request_loop fs w' request'
           | StTerminal out \<Rightarrow> (w', out)))"

definition dispatch_request_from ::
    "'w loaded_filter list \<Rightarrow> nat \<Rightarrow> 'w \<Rightarrow> http_request \<Rightarrow> 'w \<times> chain_outcome" where
  "dispatch_request_from chain start w request = request_loop (drop start chain) w request"

definition dispatch_request :: "'w loaded_filter list \<Rightarrow> 'w \<Rightarrow> http_request \<Rightarrow> 'w \<times> chain_outcome" where
  "dispatch_request chain w request = dispatch_request_from chain 0 w request"

definition MAX_REQUEST_BODY_BUFFER :: nat where
  "MAX_REQUEST_BODY_BUFFER = 16 * 2 ^ 20"

definition oversize_guest_request_body_response :: http_response where
  "oversize_guest_request_body_response =
     fault_response 502 ''request-body-guest-oversize'' ''filter returned an oversized request body''"

datatype request_body_outcome = QbRespond http_response | QbForward string "header list"

fun dispatch_request_body ::
    "'w loaded_filter list \<Rightarrow> 'w \<Rightarrow> string \<Rightarrow> header list \<Rightarrow> 'w \<times> request_body_outcome" where
  "dispatch_request_body [] w body headers = (w, QbForward body headers)"
| "dispatch_request_body (f # fs) w body headers =
     (case on_request_body f w body of
        (w', Inr QbContinue) \<Rightarrow> dispatch_request_body fs w' body headers
      | (w', Inr (QbModified edit)) \<Rightarrow>
          if length (be_body edit) > MAX_REQUEST_BODY_BUFFER
          then (w', QbRespond oversize_guest_request_body_response)
          else (case apply_body_edit headers edit of (headers', body') \<Rightarrow> dispatch_request_body fs w' body' headers')
      | (w', Inr (QbShortCircuit response)) \<Rightarrow> (w', QbRespond response)
      | (w', Inl err) \<Rightarrow> (w', QbRespond (fail_closed_response err)))"

subsection \<open>The response side\<close>

datatype response_outcome = RsForward http_response | RsRespond http_response

datatype inline_response_outcome = RsComplete response_outcome | RsPending nat http_response

definition handle_response_step ::
    "http_response \<Rightarrow> (run_error, response_decision) result \<Rightarrow> (http_response, response_outcome) step_outcome" where
  "handle_response_step response res =
     (case res of
        Inr RpContinue \<Rightarrow> StContinue response
      | Inr (RpModified edit) \<Rightarrow> StContinue (apply_response_edit response edit)
      | Inr (RpReplace replacement) \<Rightarrow> StTerminal (RsRespond replacement)
      | Inl err \<Rightarrow> StTerminal (RsRespond (fail_closed_response err)))"

fun response_inline_loop ::
    "(nat \<times> 'w loaded_filter) list \<Rightarrow> 'w \<Rightarrow> http_request \<Rightarrow> http_response \<Rightarrow> 'w \<times> inline_response_outcome" where
  "response_inline_loop [] w request response = (w, RsComplete (RsForward response))"
| "response_inline_loop ((k, f) # fs) w request response =
     (case try_on_response f w request response of
        (w', WouldBlock) \<Rightarrow> (w', RsPending k response)
      | (w', Executed res) \<Rightarrow>
          (case handle_response_step response res of
             StContinue response' \<Rightarrow> response_inline_loop fs w' request response'
           | StTerminal out \<Rightarrow> (w', RsComplete out)))"

definition dispatch_response_inline ::
    "'w loaded_filter list \<Rightarrow> 'w \<Rightarrow> http_request \<Rightarrow> http_response \<Rightarrow> 'w \<times> inline_response_outcome" where
  "dispatch_response_inline chain w request response =
     response_inline_loop (rev (zip [0..<length chain] chain)) w request response"

fun response_loop ::
    "'w loaded_filter list \<Rightarrow> 'w \<Rightarrow> http_request \<Rightarrow> http_response \<Rightarrow> 'w \<times> response_outcome" where
  "response_loop [] w request response = (w, RsForward response)"
| "response_loop (f # fs) w request response =
     (case lf_on_response f w request response of
        (w', res) \<Rightarrow>
          (case handle_response_step response res of
             StContinue response' \<Rightarrow> response_loop fs w' request response'
           | StTerminal out \<Rightarrow> (w', out)))"

definition dispatch_response_from ::
    "'w loaded_filter list \<Rightarrow> nat \<Rightarrow> 'w \<Rightarrow> http_request \<Rightarrow> http_response \<Rightarrow> 'w \<times> response_outcome" where
  "dispatch_response_from chain start w request response =
     (if chain = [] then (w, RsForward response)
      else response_loop (rev (take (min start (length chain - 1) + 1) chain)) w request response)"

definition dispatch_response ::
    "'w loaded_filter list \<Rightarrow> 'w \<Rightarrow> http_request \<Rightarrow> http_response \<Rightarrow> 'w \<times> response_outcome" where
  "dispatch_response chain w request response = dispatch_response_from chain (length chain - 1) w request response"

definition oversize_guest_body_response :: http_response where
  "oversize_guest_body_response =
     fault_response 502 ''response-body-guest-oversize'' ''filter returned an oversized response body''"

datatype response_body_outcome =
    PbForward (pf_body: string) (pf_headers: "header list") (pf_transformed: bool)
  | PbRespond http_response

fun response_body_loop ::
    "'w loaded_filter list \<Rightarrow> 'w \<Rightarrow> http_request \<Rightarrow> http_response \<Rightarrow> string \<Rightarrow> nat \<Rightarrow> bool \<Rightarrow> 'w \<times> response_body_outcome" where
  "response_body_loop [] w request response body max_bytes transformed =
     (w, PbForward body (rp_headers response) transformed)"
| "response_body_loop (f # fs) w request response body max_bytes transformed =
     (case on_response_body f w request response body of
        (w', Inr PbContinue) \<Rightarrow> response_body_loop fs w' request response body max_bytes transformed
      | (w', Inr (PbModified edit)) \<Rightarrow>
          if length (be_body edit) > max_bytes then (w', PbRespond oversize_guest_body_response)
          else (case apply_body_edit (rp_headers response) edit of
                  (headers', body') \<Rightarrow>
                    response_body_loop fs w' request (response\<lparr>rp_headers := headers'\<rparr>) body' max_bytes True)
      | (w', Inr (PbReplace replacement)) \<Rightarrow>
          if length (rp_body replacement) > max_bytes then (w', PbRespond oversize_guest_body_response)
          else (w', PbRespond replacement)
      | (w', Inl err) \<Rightarrow> (w', PbRespond (fail_closed_response err)))"

definition dispatch_response_body ::
    "'w loaded_filter list \<Rightarrow> 'w \<Rightarrow> http_request \<Rightarrow> http_response \<Rightarrow> string \<Rightarrow> nat \<Rightarrow> 'w \<times> response_body_outcome" where
  "dispatch_response_body chain w request response body max_bytes =
     response_body_loop (rev chain) w request response body max_bytes False"


subsection \<open>The sequential meaning of a chain\<close>

text \<open>
  \<open>request_passes fs w r w' r'\<close>: every filter of \<open>fs\<close> is run in turn and lets the request through,
  turning the world \<open>w\<close> into \<open>w'\<close> and the request \<open>r\<close> into \<open>r'\<close>.
\<close>

fun let_through :: "http_request \<Rightarrow> request_decision \<Rightarrow> http_request option" where
  "let_through r RqContinue = Some r"
| "let_through r (RqModified edit) = Some (apply_request_edit r edit)"
| "let_through r (RqShortCircuit resp) = None"

inductive request_passes :: "'w loaded_filter list \<Rightarrow> 'w \<Rightarrow> http_request \<Rightarrow> 'w \<Rightarrow> http_request \<Rightarrow> bool" where
  pass_end: "request_passes [] w r w r"
| pass_step: "lf_on_request f w r = (w1, Inr d) \<Longrightarrow> let_through r d = Some r1 \<Longrightarrow>
    request_passes fs w1 r1 w' r' \<Longrightarrow> request_passes (f # fs) w r w' r'"

inductive_simps request_passes_Nil [simp]: "request_passes [] w r w' r'"

inductive_cases request_passes_ConsE: "request_passes (f # fs) w r w' r'"

text \<open>\<open>request_stops f w r w' resp\<close>: the filter short-circuits, or fails and is answered for.\<close>

definition request_stops :: "'w loaded_filter \<Rightarrow> 'w \<Rightarrow> http_request \<Rightarrow> 'w \<Rightarrow> http_response \<Rightarrow> bool" where
  "request_stops f w r w' resp \<longleftrightarrow>
     lf_on_request f w r = (w', Inr (RqShortCircuit resp))
     \<or> (\<exists>err. lf_on_request f w r = (w', Inl err) \<and> resp = fail_closed_response err)"

lemma request_step_cases:
  obtains (pass) w1 d r1 where "lf_on_request f w r = (w1, Inr d)" and "let_through r d = Some r1"
      and "handle_request_step r (Inr d) = StContinue r1"
  | (stop) w1 res resp where "lf_on_request f w r = (w1, res)" and "request_stops f w r w1 resp"
      and "handle_request_step r res = StTerminal (ChRespond resp)"
proof (cases "lf_on_request f w r")
  case (Pair w1 res)
  show ?thesis
  proof (cases res)
    case (Inl err)
    then show ?thesis using Pair stop [of w1 res] by (simp add: request_stops_def handle_request_step_def)
  next
    case (Inr d)
    then show ?thesis
      using Pair pass [of w1 d] stop [of w1 res]
      by (cases d) (simp_all add: request_stops_def handle_request_step_def)
  qed
qed

lemma request_passes_Cons:
  "request_passes (f # fs) w r w' r' \<longleftrightarrow>
     (\<exists>w1 d r1. lf_on_request f w r = (w1, Inr d) \<and> let_through r d = Some r1 \<and> request_passes fs w1 r1 w' r')"
  by (auto elim: request_passes_ConsE intro: pass_step)

lemma request_loop_Forward: "request_loop fs w r = (w', ChForward r') \<longleftrightarrow> request_passes fs w r w' r'"
proof (induction fs arbitrary: w r)
  case (Cons f fs)
  show ?case
  proof (cases rule: request_step_cases [of f w r])
    case (pass w1 d r1)
    then show ?thesis using Cons by (simp add: request_passes_Cons)
  next
    case (stop w1 res resp)
    then show ?thesis by (auto simp: request_passes_Cons request_stops_def)
  qed
qed auto

lemma request_loop_Respond:
  "request_loop fs w r = (w', ChRespond resp) \<longleftrightarrow>
     (\<exists>pre f post w1 r1. fs = pre @ f # post \<and> request_passes pre w r w1 r1 \<and> request_stops f w1 r1 w' resp)"
proof (induction fs arbitrary: w r)
  case (Cons g fs)
  have split: "(\<exists>pre f post w1 r1. g # fs = pre @ f # post \<and> request_passes pre w r w1 r1 \<and> request_stops f w1 r1 w' resp)
      \<longleftrightarrow> request_stops g w r w' resp
        \<or> (\<exists>pre f post w1 r1. fs = pre @ f # post \<and> request_passes (g # pre) w r w1 r1 \<and> request_stops f w1 r1 w' resp)"
    (is "?lhs \<longleftrightarrow> ?rhs")
  proof
    assume ?lhs
    then obtain pre f post w1 r1 where "g # fs = pre @ f # post" "request_passes pre w r w1 r1" "request_stops f w1 r1 w' resp"
      by blast
    then show ?rhs by (cases pre) auto
  next
    assume ?rhs
    then show ?lhs
    proof
      assume "request_stops g w r w' resp"
      then show ?lhs by (intro exI [of _ "[]"] exI [of _ g] exI [of _ fs] exI [of _ w] exI [of _ r]) simp
    next
      assume "\<exists>pre f post w1 r1. fs = pre @ f # post \<and> request_passes (g # pre) w r w1 r1 \<and> request_stops f w1 r1 w' resp"
      then show ?lhs by (metis append_Cons)
    qed
  qed
  show ?case
  proof (cases rule: request_step_cases [of g w r])
    case (pass w1 d r1)
    then have "\<not> request_stops g w r w' resp" by (auto simp: request_stops_def)
    with pass Cons.IH [of w1 r1] show ?thesis unfolding split by (auto simp: request_passes_Cons)
  next
    case (stop w1 res resp1)
    have "request_stops g w r w' resp \<longleftrightarrow> w' = w1 \<and> resp = resp1"
      using stop(1,2) by (auto simp: request_stops_def)
    with stop show ?thesis unfolding split by (auto simp: request_passes_Cons request_stops_def)
  qed
qed simp

subsection \<open>Running inline and resuming\<close>

text \<open>Resuming a pending chain on the blocking path.\<close>

definition request_resume :: "'w loaded_filter list \<Rightarrow> 'w \<times> inline_request_outcome \<Rightarrow> 'w \<times> chain_outcome" where
  "request_resume chain x =
     (case x of (w', RqComplete out) \<Rightarrow> (w', out) | (w', RqPending k r') \<Rightarrow> dispatch_request_from chain k w' r')"

definition response_resume ::
    "'w loaded_filter list \<Rightarrow> http_request \<Rightarrow> 'w \<times> inline_response_outcome \<Rightarrow> 'w \<times> response_outcome" where
  "response_resume chain q x =
     (case x of (w', RsComplete out) \<Rightarrow> (w', out) | (w', RsPending k p') \<Rightarrow> dispatch_response_from chain k w' q p')"

lemma resume_simps [simp]:
  "request_resume chain (w, RqComplete out) = (w, out)"
  "request_resume chain (w, RqPending k r) = dispatch_request_from chain k w r"
  "response_resume chain q (w, RsComplete out') = (w, out')"
  "response_resume chain q (w, RsPending k p) = dispatch_response_from chain k w q p"
  by (simp_all add: request_resume_def response_resume_def)

lemma request_inline_resume:
  "chain = pre @ fs \<Longrightarrow> request_resume chain (request_inline_loop (length pre) fs w r) = request_loop fs w r"
proof (induction fs arbitrary: pre w r)
  case (Cons f fs)
  have "dispatch_request_from chain (length pre) w r = request_loop (f # fs) w r"
    using Cons.prems by (simp add: dispatch_request_from_def)
  then show ?case
    using Cons.IH [of "pre @ [f]"] Cons.prems
    by (auto simp: try_on_request_def split: prod.splits step_outcome.splits)
qed simp

lemma response_inline_resume:
  "m \<le> length chain \<Longrightarrow>
   response_resume chain q (response_inline_loop (rev (zip [0..<m] (take m chain))) w q r)
     = response_loop (rev (take m chain)) w q r"
proof (induction m arbitrary: w r)
  case (Suc m)
  have "take (Suc m) chain = take m chain @ [chain ! m]" using Suc.prems by (simp add: take_Suc_conv_app_nth)
  moreover have "dispatch_response_from chain m w' q r' = response_loop (rev (take (Suc m) chain)) w' q r'" for w' r'
    using Suc.prems by (auto simp: dispatch_response_from_def min_def)
  ultimately show ?case
    using Suc.IH Suc.prems
    by (auto simp: try_on_response_def split: prod.splits step_outcome.splits)
qed simp

subsection \<open>Header edits\<close>

definition field_values :: "header list \<Rightarrow> string \<Rightarrow> string list" where
  "field_values hs n = map h_value (filter (\<lambda>h. eq_ignore_ascii_case (h_name h) n) hs)"

lemma field_values_simps [simp]:
  "field_values [] n = []" "field_values (a @ b) n = field_values a n @ field_values b n"
  "field_values (h # hs) n = (if eq_ignore_ascii_case (h_name h) n then h_value h # field_values hs n else field_values hs n)"
  by (simp_all add: field_values_def)

lemma field_values_filter:
  "field_values (filter (\<lambda>h. \<not> eq_ignore_ascii_case (h_name h) m) hs) n
    = (if eq_ignore_ascii_case m n then [] else field_values hs n)"
  by (induction hs) (auto simp: eq_ignore_ascii_case_def)

lemma field_values_remove:
  "field_values (remove_headers hs names) n
    = (if list_ex (\<lambda>m. eq_ignore_ascii_case m n) names then [] else field_values hs n)"
  unfolding remove_headers_def by (induction names arbitrary: hs) (auto simp: field_values_filter)

lemma repeatable_eq: "eq_ignore_ascii_case m n \<Longrightarrow> is_repeatable m = is_repeatable n"
  by (auto simp: is_repeatable_def eq_ignore_ascii_case_def)

lemma field_values_set:
  "field_values (set_headers hs st) n =
     (if is_repeatable n then field_values hs n @ field_values st n
      else if field_values st n = [] then field_values hs n else [last (field_values st n)])"
  unfolding set_headers_def
proof (induction st arbitrary: hs)
  case (Cons h st)
  have one: "field_values (set_header hs h) n =
      (if eq_ignore_ascii_case (h_name h) n
       then (if is_repeatable n then field_values hs n else []) @ [h_value h] else field_values hs n)"
    using repeatable_eq [of "h_name h" n] by (auto simp: set_header_def field_values_filter)
  show ?case unfolding foldl_Cons Cons.IH one by auto
qed simp

subsection \<open>Properties\<close>

text \<open>
  C3: The chain fails closed.  A request is forwarded exactly when every filter of the route ran and
  let it through; it is answered without reaching the upstream exactly when some filter, after all
  earlier ones let it through, short-circuits or fails, with its response or the synthetic fault
  response -- and the filters behind it are not run at all.
\<close>

theorem chain_fails_closed:
  "(dispatch_request chain w r = (w', ChForward r') \<longleftrightarrow> request_passes chain w r w' r')
   \<and> (dispatch_request chain w r = (w'', ChRespond resp) \<longleftrightarrow>
        (\<exists>pre f post w1 r1. chain = pre @ f # post \<and> request_passes pre w r w1 r1 \<and> request_stops f w1 r1 w'' resp))"
  by (simp add: dispatch_request_def dispatch_request_from_def request_loop_Forward request_loop_Respond)

text \<open>
  C28: Running inline changes nothing but the thread.  Whichever filters find an idle instance and
  whichever would block, running the chain inline and resuming from the reported filter in the
  reported state gives the outcome and the final world of the plain sequential dispatch, on the
  request side and, in reverse order, on the response side.
\<close>

theorem inline_dispatch_refines:
  "(case dispatch_request_inline chain w r of
      (w', RqComplete out) \<Rightarrow> (w', out)
    | (w', RqPending k r') \<Rightarrow> dispatch_request_from chain k w' r') = dispatch_request chain w r
   \<and> (case dispatch_response_inline chain w q p of
      (w', RsComplete out) \<Rightarrow> (w', out)
    | (w', RsPending k p') \<Rightarrow> dispatch_response_from chain k w' q p') = dispatch_response chain w q p"
proof -
  have "dispatch_response chain w q p = response_loop (rev chain) w q p"
    by (cases chain) (simp_all add: dispatch_response_def dispatch_response_from_def)
  then have "request_resume chain (dispatch_request_inline chain w r) = dispatch_request chain w r
      \<and> response_resume chain q (dispatch_response_inline chain w q p) = dispatch_response chain w q p"
    using request_inline_resume [of chain "[]" chain w r] response_inline_resume [of "length chain" chain q w p]
    by (simp add: dispatch_request_inline_def dispatch_request_def dispatch_request_from_def dispatch_response_inline_def)
  then show ?thesis unfolding request_resume_def response_resume_def .
qed

text \<open>
  A filter's header edit is authoritative.  After an edit, the values of a field are the last
  value the edit sets, if it sets the field; otherwise nothing if the edit removes it, and what was
  there if not.  Names compare without case; only \<open>Set-Cookie\<close> keeps every line, the old ones (unless
  removed) before the new.
\<close>

theorem header_edit_exact:
  "field_values (rq_headers (apply_request_edit req edit)) n =
     (let old = (if list_ex (\<lambda>m. eq_ignore_ascii_case m n) (qe_remove_headers edit) then [] else field_values (rq_headers req) n);
          new = field_values (qe_set_headers edit) n
      in if is_repeatable n then old @ new else if new = [] then old else [last new])"
  by (simp add: apply_request_edit_def field_values_set field_values_remove Let_def)

lemma request_body_bound:
  assumes "length body \<le> MAX_REQUEST_BODY_BUFFER" and "dispatch_request_body fs w body hs = (w', QbForward body' hs')"
  shows "length body' \<le> MAX_REQUEST_BODY_BUFFER"
  using assms
proof (induction fs w body hs rule: dispatch_request_body.induct)
  case (2 f fs w body hs)
  then show ?case
    by (auto simp: apply_body_edit_def split: prod.splits sum.splits request_body_decision.splits if_splits)
qed simp

lemma response_body_bound:
  assumes "length body \<le> max_bytes" and "response_body_loop fs w q p body max_bytes tr = (w', out)"
  shows "case out of PbForward body' hs tr' \<Rightarrow> length body' \<le> max_bytes
    | PbRespond resp \<Rightarrow> length (rp_body resp) \<le> max_bytes \<or> resp = oversize_guest_body_response
        \<or> (\<exists>err. resp = fail_closed_response err)"
  using assms
proof (induction fs w q p body max_bytes tr rule: response_body_loop.induct)
  case (2 f fs w q p body max_bytes tr)
  obtain w1 res where call: "on_response_body f w q p body = (w1, res)" by (metis prod.exhaust)
  show ?case
  proof (cases res)
    case (Inl err)
    then show ?thesis using 2(4) call by auto
  next
    case (Inr d)
    show ?thesis
    proof (cases d)
      case PbContinue
      then show ?thesis using 2(1) [OF call [symmetric] Inr] 2(3,4) call Inr by simp
    next
      case (PbModified edit)
      then show ?thesis
        using 2(2) [OF call [symmetric] Inr PbModified] 2(4) call Inr
        by (auto simp: apply_body_edit_def split: if_splits)
    next
      case (PbReplace rep)
      then show ?thesis using 2(4) call Inr by (auto split: if_splits)
    qed
  qed
qed auto

text \<open>
  The body caps hold through the chain.  A request body within the host's buffer is forwarded
  within it, whatever the filters return; a response body within the route's cap is forwarded within
  it, and a response the chain answers with instead is within the cap too unless the host itself
  synthesised it for a fault.
\<close>

theorem body_caps_hold:
  assumes "length qbody \<le> MAX_REQUEST_BODY_BUFFER" and "length pbody \<le> max_bytes"
  shows "(case dispatch_request_body chain w qbody hs of
      (w', QbForward body' hs') \<Rightarrow> length body' \<le> MAX_REQUEST_BODY_BUFFER | _ \<Rightarrow> True)
   \<and> (case snd (dispatch_response_body chain v q p pbody max_bytes) of
      PbForward body' hs' tr \<Rightarrow> length body' \<le> max_bytes
    | PbRespond resp \<Rightarrow> length (rp_body resp) \<le> max_bytes \<or> resp = oversize_guest_body_response
        \<or> (\<exists>err. resp = fail_closed_response err))"
proof
  show "case dispatch_request_body chain w qbody hs of
      (w', QbForward body' hs') \<Rightarrow> length body' \<le> MAX_REQUEST_BODY_BUFFER | _ \<Rightarrow> True"
    using request_body_bound [OF assms(1), of chain w hs]
    by (auto split: prod.splits request_body_outcome.splits)
  show "case snd (dispatch_response_body chain v q p pbody max_bytes) of
      PbForward body' hs' tr \<Rightarrow> length body' \<le> max_bytes
    | PbRespond resp \<Rightarrow> length (rp_body resp) \<le> max_bytes \<or> resp = oversize_guest_body_response
        \<or> (\<exists>err. resp = fail_closed_response err)"
    unfolding dispatch_response_body_def
    by (rule response_body_bound [OF assms(2)]) (rule prod.collapse [symmetric])
qed


definition pass_filter :: "unit loaded_filter" where
  "pass_filter =
     \<lparr>lf_runs_inline = False, lf_idle = (\<lambda>_. False), lf_body_hooks = \<lparr>bh_request = True, bh_response = True\<rparr>,
      lf_on_request = (\<lambda>w r. (w, Inr RqContinue)),
      lf_call_request_body = (\<lambda>w b. (w, Inr (QbModified \<lparr>be_body = b @ ''!'', be_set_headers = [], be_remove_headers = []\<rparr>))),
      lf_on_response = (\<lambda>w q p. (w, Inr RpContinue)),
      lf_call_response_body = (\<lambda>w q p b. (w, Inr (PbModified \<lparr>be_body = b @ ''!'', be_set_headers = [], be_remove_headers = []\<rparr>)))\<rparr>"

definition sample_request :: http_request where
  "sample_request =
     \<lparr>rq_method = ''GET'', rq_path_with_query = ''/'', rq_authority = ''a'', rq_scheme = ''http'', rq_headers = []\<rparr>"

definition sample_response :: http_response where
  "sample_response = \<lparr>rp_status = 200, rp_headers = [], rp_body = []\<rparr>"

theorem body_caps_hold_witness:
  "snd (dispatch_response_body [pass_filter, pass_filter] () sample_request sample_response ''ab'' 3)
     = PbRespond oversize_guest_body_response
   \<and> (case dispatch_request_body [pass_filter] () ''ab'' [] of
        (w', QbForward body' hs') \<Rightarrow> length body' \<le> MAX_REQUEST_BODY_BUFFER | _ \<Rightarrow> True)"
proof -
  have "snd (dispatch_response_body [pass_filter, pass_filter] () sample_request sample_response ''ab'' 3)
      = PbRespond oversize_guest_body_response"
    by (simp add: dispatch_response_body_def on_response_body_def pass_filter_def apply_body_edit_def)
  moreover have "case dispatch_request_body [pass_filter] () ''ab'' [] of
        (w', QbForward body' hs') \<Rightarrow> length body' \<le> MAX_REQUEST_BODY_BUFFER | _ \<Rightarrow> True"
    by (rule conjunct1 [OF body_caps_hold [of _ "''ab''" 3]]) (simp_all add: MAX_REQUEST_BODY_BUFFER_def)
  ultimately show ?thesis by blast
qed

end
