(* ===== verification/Route_Match.thy ===== *)
theory Route_Match
  imports Route_Config Chain "HOL-Library.Product_Lexorder"
begin

text \<open>
  Compilation of a route and route selection (\<open>control/src/route.rs\<close>), and the lookup a pinned
  configuration offers (\<open>control/src/snapshot.rs\<close>).  The backends of a route and its loaded filters are
  shared objects of other components; their types are parameters here.  Indices are \<open>usize\<close> values,
  so the tie-break key is written with the \<open>usize\<close> maximum.
\<close>

record ('g, 'w) compiled_route =
  cr_name :: string
  cr_host :: "string option"
  cr_path_prefix :: string
  cr_method :: "string option"
  cr_headers :: "(string \<times> string) list"
  cr_query :: "(string \<times> string) list"
  cr_filters :: "string list"
  cr_resolved_chain :: "'w loaded_filter list"
  cr_body_hooks :: body_hooks
  cr_backends :: "'g weighted_backends"
  cr_strip_prefix :: "string option"
  cr_rate_limit :: "native_rate_limit option"
  cr_upgrade :: "upgrade_config option"
  cr_compression :: "compression_config option"
  cr_response_headers :: "response_headers option"
  cr_timeouts :: timeout_config
  cr_response_body :: response_body_config

definition chain_body_hooks :: "(string \<rightharpoonup> 'w loaded_filter) \<Rightarrow> string list \<Rightarrow> body_hooks" where
  "chain_body_hooks filters ids =
     foldl (\<lambda>acc fid. case filters fid of Some f \<Rightarrow> body_hooks_union acc (lf_body_hooks f) | None \<Rightarrow> acc)
       body_hooks_none ids"

definition compile_route ::
    "(bytes \<Rightarrow> u64) \<Rightarrow> (string \<Rightarrow> string option) \<Rightarrow> (string \<Rightarrow> bool) \<Rightarrow> route \<Rightarrow> 'g weighted_backends
       \<Rightarrow> (string \<rightharpoonup> 'w loaded_filter) \<Rightarrow> ('g, 'w) compiled_route" where
  "compile_route hasher parse_name value_ok r backends filters =
     \<lparr>cr_name = resolved_name r,
      cr_host = map_option to_ascii_lowercase (rm_host (ro_matcher r)),
      cr_path_prefix = rm_path_prefix (ro_matcher r),
      cr_method = map_option to_ascii_uppercase (rm_method (ro_matcher r)),
      cr_headers = map (\<lambda>(k, v). (to_ascii_lowercase k, v)) (rm_headers (ro_matcher r)),
      cr_query = rm_query (ro_matcher r),
      cr_filters = ro_filters r,
      cr_resolved_chain = List.map_filter filters (ro_filters r),
      cr_body_hooks = chain_body_hooks filters (ro_filters r),
      cr_backends = backends,
      cr_strip_prefix = ro_strip_prefix r,
      cr_rate_limit = map_option (native_rate_limit_new hasher) (ro_rate_limit r),
      cr_upgrade = map_option (\<lambda>u. upgrade_config_new (ru_protocols u) (ru_idle_timeout_ms u)) (ro_upgrade r),
      cr_compression = map_option compression_config_new (ro_compression r),
      cr_response_headers = map_option (response_headers_new parse_name value_ok) (ro_headers r),
      cr_timeouts = (case ro_timeouts r of Some t \<Rightarrow> timeout_config_new t | None \<Rightarrow> timeout_config_default),
      cr_response_body =
        (case ro_response_body r of Some rb \<Rightarrow> response_body_config_new rb | None \<Rightarrow> response_body_config_default)\<rparr>"

subsection \<open>Matching\<close>

record request_parts =
  pt_authority :: string
  pt_path :: string
  pt_method :: string
  pt_headers :: "header list"

fun first_query_value :: "string \<Rightarrow> string list \<Rightarrow> string option" where
  "first_query_value name [] = None"
| "first_query_value name (pair # pairs) =
     (case split_once (CHR ''='') pair of
        Some (k, v) \<Rightarrow> if k = name then Some v else first_query_value name pairs
      | None \<Rightarrow> first_query_value name pairs)"

definition query_param_matches :: "string \<Rightarrow> string \<Rightarrow> string \<Rightarrow> bool" where
  "query_param_matches query name value =
     (case first_query_value name (split_on (CHR ''&'') query) of Some v \<Rightarrow> v = value | None \<Rightarrow> False)"

definition header_matches :: "header list \<Rightarrow> string \<times> string \<Rightarrow> bool" where
  "header_matches headers nv =
     (case List.find (\<lambda>h. eq_ignore_ascii_case (h_name h) (fst nv)) headers of
        Some h \<Rightarrow> h_value h = snd nv
      | None \<Rightarrow> False)"

definition route_matches ::
    "('g, 'w) compiled_route \<Rightarrow> string \<Rightarrow> string \<Rightarrow> string \<Rightarrow> header list \<Rightarrow> string \<Rightarrow> bool" where
  "route_matches r host path request_method headers query =
     (if (case cr_host r of Some h \<Rightarrow> \<not> eq_ignore_ascii_case h host | None \<Rightarrow> False) then False
      else if \<not> path_under_prefix (cr_path_prefix r) path then False
      else if (case cr_method r of Some m \<Rightarrow> request_method \<noteq> m | None \<Rightarrow> False) then False
      else if \<not> list_all (header_matches headers) (cr_headers r) then False
      else list_all (\<lambda>(name, value). query_param_matches query name value) (cr_query r))"

text \<open>\<open>Iterator::max_by_key\<close>: of equal keys the last element wins.\<close>

definition max_by_key :: "('a \<Rightarrow> 'k::linorder) \<Rightarrow> 'a list \<Rightarrow> 'a option" where
  "max_by_key key xs =
     fold (\<lambda>x acc. case acc of None \<Rightarrow> Some x | Some y \<Rightarrow> if key y \<le> key x then Some x else Some y) xs None"

definition specificity :: "('g, 'w) compiled_route \<Rightarrow> bool \<times> nat \<times> bool \<times> nat \<times> nat" where
  "specificity r =
     (cr_host r \<noteq> None, length (cr_path_prefix r), cr_method r \<noteq> None, length (cr_headers r), length (cr_query r))"

definition select_key :: "nat \<times> ('g, 'w) compiled_route \<Rightarrow> (bool \<times> nat \<times> bool \<times> nat \<times> nat) \<times> nat" where
  "select_key ir = (specificity (snd ir), 2 ^ 64 - 1 - fst ir)"

definition select_matches :: "request_parts \<Rightarrow> ('g, 'w) compiled_route \<Rightarrow> bool" where
  "select_matches req r =
     route_matches r (normalize_host (pt_authority req))
       (takeWhile (\<lambda>c. c \<noteq> CHR ''?'' \<and> c \<noteq> CHR ''#'') (pt_path req))
       (pt_method req) (pt_headers req)
       (case split_once (CHR ''?'') (pt_path req) of Some (_, q) \<Rightarrow> q | None \<Rightarrow> [])"

definition select_route :: "('g, 'w) compiled_route list \<Rightarrow> request_parts \<Rightarrow> nat option" where
  "select_route routes req =
     map_option fst
       (max_by_key select_key
          (filter (\<lambda>(i, r). select_matches req r) (zip [0..<length routes] routes)))"

record ('g, 'w) route_info =
  ri_index :: nat
  ri_name :: string
  ri_backends :: "'g weighted_backends"
  ri_strip_prefix :: "string option"
  ri_has_filters :: bool
  ri_body_hooks :: body_hooks
  ri_rate_limit :: "native_rate_limit option"
  ri_upgrade :: "upgrade_config option"
  ri_compression :: "compression_config option"
  ri_response_headers :: "response_headers option"
  ri_timeouts :: timeout_config
  ri_response_body :: response_body_config

definition find_route :: "('g, 'w) compiled_route list \<Rightarrow> http_request \<Rightarrow> ('g, 'w) route_info option" where
  "find_route routes request =
     (case select_route routes
             \<lparr>pt_authority = rq_authority request, pt_path = rq_path_with_query request,
              pt_method = rq_method request, pt_headers = rq_headers request\<rparr> of
        None \<Rightarrow> None
      | Some i \<Rightarrow>
          let r = routes ! i
          in Some \<lparr>ri_index = i, ri_name = cr_name r, ri_backends = cr_backends r, ri_strip_prefix = cr_strip_prefix r,
                  ri_has_filters = (cr_filters r \<noteq> []), ri_body_hooks = cr_body_hooks r,
                  ri_rate_limit = cr_rate_limit r, ri_upgrade = cr_upgrade r, ri_compression = cr_compression r,
                  ri_response_headers = cr_response_headers r, ri_timeouts = cr_timeouts r,
                  ri_response_body = cr_response_body r\<rparr>)"

definition check_rate_limit ::
    "('g, 'w) route_info \<Rightarrow> ip_addr \<Rightarrow> u64 \<Rightarrow> ('g, 'w) route_info \<times> rate_limit_decision" where
  "check_rate_limit info peer now =
     (case ri_rate_limit info of
        Some rl \<Rightarrow> (case check_at rl peer now of (rl', d) \<Rightarrow> (info\<lparr>ri_rate_limit := Some rl'\<rparr>, d))
      | None \<Rightarrow> (info, Allow))"

subsection \<open>Selection\<close>

lemma max_by_key_step:
  fixes key :: "'a \<Rightarrow> 'k::linorder"
  shows "fold (\<lambda>x acc. case acc of None \<Rightarrow> Some x | Some y \<Rightarrow> if key y \<le> key x then Some x else Some y) xs (Some y) = Some z
   \<Longrightarrow> z \<in> set (y # xs) \<and> (\<forall>x \<in> set (y # xs). key x \<le> key z)"
proof (induction xs arbitrary: y)
  case (Cons x xs)
  show ?case
  proof (cases "key y \<le> key x")
    case True
    with Cons.prems Cons.IH [of x] have "z \<in> set (x # xs) \<and> (\<forall>x' \<in> set (x # xs). key x' \<le> key z)" by simp
    then show ?thesis using order_trans [OF True] by auto
  next
    case False
    with Cons.prems Cons.IH [of y] show ?thesis by auto
  qed
qed simp

lemma max_by_key_Some: "max_by_key key xs = Some z \<Longrightarrow> z \<in> set xs \<and> (\<forall>x \<in> set xs. key x \<le> key z)"
proof (cases xs)
  case (Cons x rest)
  assume "max_by_key key xs = Some z"
  then show ?thesis using max_by_key_step [of key rest x z] Cons by (simp add: max_by_key_def)
qed (simp add: max_by_key_def)

lemma fold_max_Some: "\<exists>z. fold (\<lambda>x acc. case acc of None \<Rightarrow> Some x | Some y \<Rightarrow> if key y \<le> key x then Some x else Some y) xs (Some y) = Some z"
  by (induction xs arbitrary: y) auto

lemma max_by_key_None [simp]: "max_by_key key xs = None \<longleftrightarrow> xs = []"
  using fold_max_Some [of key "tl xs" "hd xs"] by (cases xs) (auto simp: max_by_key_def)

lemma indexed_filter:
  "(i, r) \<in> set (filter (\<lambda>(i, r). P r) (zip [0..<length rs] rs)) \<longleftrightarrow> i < length rs \<and> r = rs ! i \<and> P (rs ! i)"
  by (auto simp: set_zip intro!: exI [of _ i])

lemma pair_le_iff:
  fixes a b :: "'a::linorder" and x y :: "'b::linorder"
  shows "(a, x) \<le> (b, y) \<longleftrightarrow> a < b \<or> a = b \<and> x \<le> y"
  by (auto simp: less_eq_prod_def)

text \<open>
  The tie-break in general: keyed by an arbitrary linear measure and then by the distance of the index
  from a bound, the maximum is the first entry of the greatest measure.
\<close>

definition first_best :: "('r \<Rightarrow> 'k::linorder) \<Rightarrow> ('r \<Rightarrow> bool) \<Rightarrow> 'r list \<Rightarrow> nat \<Rightarrow> bool" where
  "first_best sp P rs i \<longleftrightarrow>
     i < length rs \<and> P (rs ! i)
     \<and> (\<forall>j < length rs. P (rs ! j) \<and> j \<noteq> i \<longrightarrow> sp (rs ! j) < sp (rs ! i) \<or> sp (rs ! j) = sp (rs ! i) \<and> i < j)"

lemma first_best_unique:
  assumes i: "first_best sp P rs i" and k: "first_best sp P rs k"
  shows "i = k"
proof (rule ccontr)
  assume "i \<noteq> k"
  with i k have "sp (rs ! k) < sp (rs ! i) \<or> sp (rs ! k) = sp (rs ! i) \<and> i < k"
    and "sp (rs ! i) < sp (rs ! k) \<or> sp (rs ! i) = sp (rs ! k) \<and> k < i"
    unfolding first_best_def by metis+
  then show False by auto
qed

lemma max_first_best:
  fixes sp :: "'r \<Rightarrow> 'k::linorder"
  assumes max: "max_by_key (\<lambda>ir. (sp (snd ir), n - fst ir)) (filter (\<lambda>(i, r). P r) (zip [0..<length rs] rs)) = Some (k, r)"
    and n: "length rs \<le> Suc n"
  shows "first_best sp P rs k"
proof -
  let ?key = "\<lambda>ir. (sp (snd ir), n - fst ir)"
  let ?L = "filter (\<lambda>(i, r). P r) (zip [0..<length rs] rs)"
  from max_by_key_Some [OF max] have mem: "(k, r) \<in> set ?L" and top: "\<forall>x \<in> set ?L. ?key x \<le> ?key (k, r)" by blast+
  from mem have k: "k < length rs" "r = rs ! k" "P (rs ! k)" unfolding indexed_filter by auto
  have "sp (rs ! j) < sp (rs ! k) \<or> sp (rs ! j) = sp (rs ! k) \<and> k < j"
    if j: "j < length rs" "P (rs ! j)" "j \<noteq> k" for j
  proof -
    from j have "(j, rs ! j) \<in> set ?L" unfolding indexed_filter by simp
    with top have "?key (j, rs ! j) \<le> ?key (k, r)" by blast
    then have "sp (rs ! j) < sp (rs ! k) \<or> sp (rs ! j) = sp (rs ! k) \<and> n - j \<le> n - k"
      by (simp only: pair_le_iff fst_conv snd_conv k(2))
    moreover have "k < j" if "n - j \<le> n - k" using that j(1,3) k(1) n by linarith
    ultimately show ?thesis by blast
  qed
  with k(1,3) show ?thesis unfolding first_best_def by blast
qed

lemma select_first_best:
  assumes len: "length routes < 2 ^ 64" and sel: "select_route routes req = Some k"
  shows "first_best specificity (select_matches req) routes k"
proof -
  have key: "select_key = (\<lambda>ir :: nat \<times> ('a, 'b) compiled_route. (specificity (snd ir), (2 ^ 64 - 1) - fst ir))"
    by (rule ext) (simp only: select_key_def)
  from len have n: "length routes \<le> Suc (2 ^ 64 - 1)" by linarith
  from sel obtain r where
    "max_by_key select_key (filter (\<lambda>(i, r). select_matches req r) (zip [0..<length routes] routes)) = Some (k, r)"
    unfolding select_route_def map_option_eq_Some by auto
  from this [unfolded key] n show ?thesis by (rule max_first_best)
qed

lemma pair_set_empty: "(A :: ('a \<times> 'b) set) = {} \<longleftrightarrow> (\<forall>k r. (k, r) \<notin> A)"
  by auto

lemma select_route_None: "select_route routes req = None \<longleftrightarrow> \<not> list_ex (select_matches req) routes"
proof -
  let ?L = "filter (\<lambda>(i, r). select_matches req r) (zip [0..<length routes] routes)"
  have "select_route routes req = None \<longleftrightarrow> (\<forall>k r. (k, r) \<notin> set ?L)"
    unfolding select_route_def map_option_is_None max_by_key_None set_empty [symmetric] by (simp only: pair_set_empty)
  also have "\<dots> \<longleftrightarrow> \<not> (\<exists>k < length routes. select_matches req (routes ! k))" unfolding indexed_filter by blast
  finally show ?thesis by (simp add: list_ex_length)
qed

text \<open>
  C24: The most specific route wins.  The selected route matches the request, and every other
  matching route is less specific -- in the order host constraint, longest prefix, method
  constraint, number of header and of query constraints -- or equally specific and later in the
  manifest; when no route matches, and only then, nothing is selected.
\<close>

theorem select_most_specific:
  fixes routes :: "('g, 'w) compiled_route list"
  assumes "length routes < 2 ^ 64"
  shows "(select_route routes req = Some i \<longleftrightarrow>
      i < length routes \<and> select_matches req (routes ! i)
      \<and> (\<forall>j < length routes. select_matches req (routes ! j) \<and> j \<noteq> i \<longrightarrow>
           specificity (routes ! j) < specificity (routes ! i)
           \<or> specificity (routes ! j) = specificity (routes ! i) \<and> i < j))
    \<and> (select_route routes req = None \<longleftrightarrow> \<not> list_ex (select_matches req) routes)"
proof -
  have "select_route routes req = Some i \<longleftrightarrow> first_best specificity (select_matches req) routes i"
  proof
    assume "select_route routes req = Some i"
    then show "first_best specificity (select_matches req) routes i" by (rule select_first_best [OF assms])
  next
    assume best: "first_best specificity (select_matches req) routes i"
    then have "list_ex (select_matches req) routes" unfolding first_best_def list_ex_length by blast
    then have "select_route routes req \<noteq> None" by (simp add: select_route_None)
    then obtain k where k: "select_route routes req = Some k" by blast
    with first_best_unique [OF best select_first_best [OF assms k]] show "select_route routes req = Some i" by simp
  qed
  then show ?thesis unfolding first_best_def select_route_None by blast
qed

definition plain_route :: "string option \<Rightarrow> string \<Rightarrow> (nat, unit) compiled_route" where
  "plain_route host pre =
     \<lparr>cr_name = pre, cr_host = host, cr_path_prefix = pre, cr_method = None, cr_headers = [], cr_query = [],
      cr_filters = [], cr_resolved_chain = [], cr_body_hooks = body_hooks_none,
      cr_backends = \<lparr>wb_groups = [], wb_table = [], wb_cursor = 0\<rparr>, cr_strip_prefix = None, cr_rate_limit = None,
      cr_upgrade = None, cr_compression = None, cr_response_headers = None, cr_timeouts = timeout_config_default,
      cr_response_body = response_body_config_default\<rparr>"

theorem select_most_specific_witness:
  "select_route [plain_route None ''/'', plain_route None ''/api'', plain_route None ''/api'']
     \<lparr>pt_authority = ''h'', pt_path = ''/api/x?y=1'', pt_method = ''GET'', pt_headers = []\<rparr> = Some 1"
proof -
  let ?rs = "[plain_route None ''/'', plain_route None ''/api'', plain_route None ''/api'']"
  let ?req = "\<lparr>pt_authority = ''h'', pt_path = ''/api/x?y=1'', pt_method = ''GET'', pt_headers = []\<rparr>"
  have "1 < length ?rs \<and> select_matches ?req (?rs ! 1)
      \<and> (\<forall>j < length ?rs. select_matches ?req (?rs ! j) \<and> j \<noteq> 1 \<longrightarrow>
           specificity (?rs ! j) < specificity (?rs ! 1)
           \<or> specificity (?rs ! j) = specificity (?rs ! 1) \<and> 1 < j)"
    by (auto simp: select_matches_def route_matches_def plain_route_def path_under_prefix_def specificity_def
        less_Suc_eq numeral_eq_Suc)
  then show ?thesis using select_most_specific [of ?rs ?req 1] by simp
qed

end
