(* ===== verification/Guest_Contract.thy ===== *)
theory Guest_Contract
  imports Chain Route_Manifest
begin

text \<open>
  The contract between the host and a filter (\<open>host/src/contract.rs\<close>): detection of the contract
  version, the projections a frozen track sees, and the gate that every decision of a guest passes
  before the proxy acts on it.  The versioned calls of \<open>host/src/runtime.rs\<close> follow.  The record types of
  the four tracks are generated from the interface files; the tracks share their shapes, so one record
  stands for each shape.  A Rust \<open>String\<close> is the list of its UTF-8 bytes.
\<close>

subsection \<open>Versions\<close>

datatype contract_version = V01 | V02 | V03 | V04

fun package :: "contract_version \<Rightarrow> string" where
  "package V01 = ''plecto:filter@0.1.0''"
| "package V02 = ''plecto:filter@0.2.0''"
| "package V03 = ''plecto:filter@0.3.0''"
| "package V04 = ''plecto:filter@0.4.0''"

definition SUPPORTED_CONTRACT_VERSIONS :: "contract_version list" where
  "SUPPORTED_CONTRACT_VERSIONS = [V01, V02, V03, V04]"

fun contains_str :: "string \<Rightarrow> string \<Rightarrow> bool" where
  "contains_str pat [] = (pat = [])"
| "contains_str pat (c # s) = (take (length pat) (c # s) = pat \<or> contains_str pat s)"

text \<open>The argument is the list of the component's import names, in order.\<close>

fun detect_contract_version :: "string list \<Rightarrow> contract_version option" where
  "detect_contract_version [] = None"
| "detect_contract_version (name # names) =
     (if take 14 name \<noteq> ''plecto:filter/'' then detect_contract_version names
      else if contains_str ''@0.1.'' name then Some V01
      else if contains_str ''@0.2.'' name then Some V02
      else if contains_str ''@0.3.'' name then Some V03
      else if contains_str ''@0.4.'' name then Some V04
      else None)"

subsection \<open>Projections to the frozen tracks\<close>

text \<open>
  \<open>String::from_utf8_lossy\<close>: a well-formed sequence is kept, and each maximal ill-formed prefix of one
  becomes a replacement character.  A byte past the end reads as zero.
\<close>

definition byte_at :: "nat list \<Rightarrow> nat \<Rightarrow> nat" where
  "byte_at bs i = (if i < length bs then bs ! i else 0)"

definition second_ok :: "nat \<Rightarrow> nat \<Rightarrow> bool" where
  "second_ok a b =
     (if a = 0xE0 then 0xA0 \<le> b \<and> b \<le> 0xBF
      else if a = 0xED then 0x80 \<le> b \<and> b \<le> 0x9F
      else if a = 0xF0 then 0x90 \<le> b \<and> b \<le> 0xBF
      else if a = 0xF4 then 0x80 \<le> b \<and> b \<le> 0x8F
      else cont_byte b)"

definition utf8_step :: "nat list \<Rightarrow> nat \<times> bool" where
  "utf8_step bs =
     (let a = byte_at bs 0
      in if a \<le> 0x7F then (1, True)
         else if a < 0xC2 \<or> 0xF4 < a then (1, False)
         else if \<not> second_ok a (byte_at bs 1) then (1, False)
         else if a \<le> 0xDF then (2, True)
         else if \<not> cont_byte (byte_at bs 2) then (2, False)
         else if a \<le> 0xEF then (3, True)
         else if \<not> cont_byte (byte_at bs 3) then (3, False)
         else (4, True))"

definition replacement_char :: "nat list" where
  "replacement_char = [0xEF, 0xBF, 0xBD]"

lemma utf8_step_pos: "0 < fst (utf8_step bs)"
  by (simp add: utf8_step_def Let_def)

function utf8_lossy :: "nat list \<Rightarrow> nat list" where
  "utf8_lossy bs =
     (if bs = [] then []
      else (if snd (utf8_step bs) then take (fst (utf8_step bs)) bs else replacement_char)
             @ utf8_lossy (drop (fst (utf8_step bs)) bs))"
  by auto
termination
  by (relation "measure length") (simp_all add: utf8_step_pos)

declare utf8_lossy.simps [simp del]

definition from_utf8_lossy :: "string \<Rightarrow> string" where
  "from_utf8_lossy s = map char_of (utf8_lossy (map of_char s))"

text \<open>The request record of the frozen tracks has \<open>path\<close> where 0.4 has \<open>path_with_query\<close>.\<close>

record frozen_request =
  fz_method :: string
  fz_path :: string
  fz_authority :: string
  fz_scheme :: string
  fz_headers :: "header list"

definition lossy_header :: "header \<Rightarrow> header" where
  "lossy_header h = \<lparr>h_name = h_name h, h_value = from_utf8_lossy (h_value h)\<rparr>"

definition request_to_v01 :: "http_request \<Rightarrow> frozen_request" where
  "request_to_v01 req =
     \<lparr>fz_method = rq_method req, fz_path = rq_path_with_query req, fz_authority = rq_authority req,
      fz_scheme = rq_scheme req, fz_headers = map lossy_header (rq_headers req)\<rparr>"

definition response_to_v01 :: "http_response \<Rightarrow> http_response" where
  "response_to_v01 resp =
     \<lparr>rp_status = rp_status resp, rp_headers = map lossy_header (rp_headers resp), rp_body = rp_body resp\<rparr>"

definition copy_header :: "header \<Rightarrow> header" where
  "copy_header h = \<lparr>h_name = h_name h, h_value = h_value h\<rparr>"

definition request_to_v02 :: "http_request \<Rightarrow> frozen_request" where
  "request_to_v02 req =
     \<lparr>fz_method = rq_method req, fz_path = rq_path_with_query req, fz_authority = rq_authority req,
      fz_scheme = rq_scheme req, fz_headers = map copy_header (rq_headers req)\<rparr>"

definition response_to_v02 :: "http_response \<Rightarrow> http_response" where
  "response_to_v02 resp =
     \<lparr>rp_status = rp_status resp, rp_headers = map copy_header (rp_headers resp), rp_body = rp_body resp\<rparr>"

definition request_to_v03 :: "http_request \<Rightarrow> frozen_request" where
  "request_to_v03 req =
     \<lparr>fz_method = rq_method req, fz_path = rq_path_with_query req, fz_authority = rq_authority req,
      fz_scheme = rq_scheme req, fz_headers = map copy_header (rq_headers req)\<rparr>"

definition response_to_v03 :: "http_response \<Rightarrow> http_response" where
  "response_to_v03 resp =
     \<lparr>rp_status = rp_status resp, rp_headers = map copy_header (rp_headers resp), rp_body = rp_body resp\<rparr>"

subsection \<open>The gate\<close>

definition MAX_GUEST_HEADER_NAME_LEN :: nat where
  "MAX_GUEST_HEADER_NAME_LEN = 256"

definition MAX_GUEST_HEADER_VALUE_LEN :: nat where
  "MAX_GUEST_HEADER_VALUE_LEN = 8192"

definition MAX_GUEST_RESPONSE_BODY_LEN :: nat where
  "MAX_GUEST_RESPONSE_BODY_LEN = 2 ^ 20"

definition is_ascii_alphanumeric :: "char \<Rightarrow> bool" where
  "is_ascii_alphanumeric c =
     (let b = of_char c :: nat in 48 \<le> b \<and> b \<le> 57 \<or> 65 \<le> b \<and> b \<le> 90 \<or> 97 \<le> b \<and> b \<le> 122)"

definition is_tchar :: "char \<Rightarrow> bool" where
  "is_tchar c =
     (is_ascii_alphanumeric c \<or> c = CHR ''!'' \<or> 35 \<le> (of_char c :: nat) \<and> (of_char c :: nat) \<le> 39
      \<or> c \<in> set ''*+-.^_`|~'')"

definition is_field_value_byte :: "char \<Rightarrow> bool" where
  "is_field_value_byte c =
     ((of_char c :: nat) = 9 \<or> 0x20 \<le> (of_char c :: nat) \<and> (of_char c :: nat) \<noteq> 0x7F)"

definition is_hop_by_hop_guest_header :: "string \<Rightarrow> bool" where
  "is_hop_by_hop_guest_header name = list_ex (eq_ignore_ascii_case name) HOP_BY_HOP_GUEST_HEADERS"

definition validate_and_header :: "string \<Rightarrow> string \<Rightarrow> header option" where
  "validate_and_header name value =
     (if name = [] \<or> MAX_GUEST_HEADER_NAME_LEN < length name then None
      else if \<not> list_all is_tchar name then None
      else if MAX_GUEST_HEADER_VALUE_LEN < length value then None
      else if \<not> list_all is_field_value_byte value then None
      else Some \<lparr>h_name = name, h_value = value\<rparr>)"

definition header_from_v01 :: "header \<Rightarrow> header option" where
  "header_from_v01 h = validate_and_header (h_name h) (h_value h)"

definition header_from_v02 :: "header \<Rightarrow> header option" where
  "header_from_v02 h = validate_and_header (h_name h) (h_value h)"

definition header_from_v03 :: "header \<Rightarrow> header option" where
  "header_from_v03 h = validate_and_header (h_name h) (h_value h)"

definition header_from_v04 :: "header \<Rightarrow> header option" where
  "header_from_v04 h = validate_and_header (h_name h) (h_value h)"

text \<open>The pipeline each mapper writes out: drop the hop-by-hop names, map, collect.\<close>

definition gate_headers :: "(header \<Rightarrow> header option) \<Rightarrow> header list \<Rightarrow> header list option" where
  "gate_headers from_guest hs = those (map from_guest (filter (\<lambda>h. \<not> is_hop_by_hop_guest_header (h_name h)) hs))"

definition request_edit_via :: "(header \<Rightarrow> header option) \<Rightarrow> request_edit \<Rightarrow> request_edit option" where
  "request_edit_via from_guest edit =
     (case gate_headers from_guest (qe_set_headers edit) of
        None \<Rightarrow> None
      | Some set_list \<Rightarrow> Some \<lparr>qe_set_headers = set_list, qe_remove_headers = qe_remove_headers edit\<rparr>)"

definition request_edit_from_v01 :: "request_edit \<Rightarrow> request_edit option" where
  "request_edit_from_v01 = request_edit_via header_from_v01"

definition request_edit_from_v02 :: "request_edit \<Rightarrow> request_edit option" where
  "request_edit_from_v02 = request_edit_via header_from_v02"

definition request_edit_from_v03 :: "request_edit \<Rightarrow> request_edit option" where
  "request_edit_from_v03 = request_edit_via header_from_v03"

definition request_edit_from_v04 :: "request_edit \<Rightarrow> request_edit option" where
  "request_edit_from_v04 = request_edit_via header_from_v04"

definition validated_guest_status :: "u16 \<Rightarrow> u16 option" where
  "validated_guest_status status = (if 100 \<le> status \<and> status \<le> 599 then Some status else None)"

definition validated_guest_body :: "string \<Rightarrow> string option" where
  "validated_guest_body body = (if MAX_GUEST_RESPONSE_BODY_LEN < length body then None else Some body)"

definition response_edit_via :: "(header \<Rightarrow> header option) \<Rightarrow> response_edit \<Rightarrow> response_edit option" where
  "response_edit_via from_guest edit =
     (case gate_headers from_guest (se_set_headers edit) of
        None \<Rightarrow> None
      | Some set_list \<Rightarrow>
          (case se_set_status edit of
             None \<Rightarrow> Some \<lparr>se_set_status = None, se_set_headers = set_list, se_remove_headers = se_remove_headers edit\<rparr>
           | Some status \<Rightarrow>
               (case validated_guest_status status of
                  None \<Rightarrow> None
                | Some s \<Rightarrow>
                    Some \<lparr>se_set_status = Some s, se_set_headers = set_list,
                          se_remove_headers = se_remove_headers edit\<rparr>)))"

definition response_edit_from_v01 :: "response_edit \<Rightarrow> response_edit option" where
  "response_edit_from_v01 = response_edit_via header_from_v01"

definition response_edit_from_v02 :: "response_edit \<Rightarrow> response_edit option" where
  "response_edit_from_v02 = response_edit_via header_from_v02"

definition response_edit_from_v03 :: "response_edit \<Rightarrow> response_edit option" where
  "response_edit_from_v03 = response_edit_via header_from_v03"

definition response_edit_from_v04 :: "response_edit \<Rightarrow> response_edit option" where
  "response_edit_from_v04 = response_edit_via header_from_v04"

definition request_body_edit_from_v04 :: "body_edit \<Rightarrow> body_edit option" where
  "request_body_edit_from_v04 edit =
     (case gate_headers header_from_v04 (be_set_headers edit) of
        None \<Rightarrow> None
      | Some set_list \<Rightarrow>
          Some \<lparr>be_body = be_body edit, be_set_headers = set_list, be_remove_headers = be_remove_headers edit\<rparr>)"

definition names_content_length :: "header list \<Rightarrow> bool" where
  "names_content_length headers = list_ex (\<lambda>h. eq_ignore_ascii_case (h_name h) ''content-length'') headers"

definition response_body_edit_from_v04 :: "body_edit \<Rightarrow> body_edit option" where
  "response_body_edit_from_v04 edit =
     (if names_content_length (be_set_headers edit) then None
      else case gate_headers header_from_v04 (be_set_headers edit) of
        None \<Rightarrow> None
      | Some set_list \<Rightarrow>
          Some \<lparr>be_body = be_body edit, be_set_headers = set_list, be_remove_headers = be_remove_headers edit\<rparr>)"

definition response_via :: "(header \<Rightarrow> header option) \<Rightarrow> http_response \<Rightarrow> http_response option" where
  "response_via from_guest resp =
     (case gate_headers from_guest (rp_headers resp) of
        None \<Rightarrow> None
      | Some headers \<Rightarrow>
          (case validated_guest_status (rp_status resp) of
             None \<Rightarrow> None
           | Some status \<Rightarrow>
               (case validated_guest_body (rp_body resp) of
                  None \<Rightarrow> None
                | Some body \<Rightarrow> Some \<lparr>rp_status = status, rp_headers = headers, rp_body = body\<rparr>)))"

definition response_from_v01 :: "http_response \<Rightarrow> http_response option" where
  "response_from_v01 = response_via header_from_v01"

definition response_from_v02 :: "http_response \<Rightarrow> http_response option" where
  "response_from_v02 = response_via header_from_v02"

definition response_from_v03 :: "http_response \<Rightarrow> http_response option" where
  "response_from_v03 = response_via header_from_v03"

definition response_from_v04 :: "http_response \<Rightarrow> http_response option" where
  "response_from_v04 = response_via header_from_v04"

subsection \<open>Decisions\<close>

text \<open>
  The tracks 0.1 and 0.2 have no \<open>replace\<close> on the response side, and the frozen body decision carries
  the bytes to forward in its \<open>continue\<close> arm.
\<close>

datatype frozen_response_decision = FrContinue | FrModified response_edit

datatype frozen_body_decision = FbContinue string | FbShortCircuit http_response

definition frozen_body_continue :: "string \<Rightarrow> request_body_decision" where
  "frozen_body_continue body = QbModified \<lparr>be_body = body, be_set_headers = [], be_remove_headers = []\<rparr>"

fun request_decision_from_v01 :: "request_decision \<Rightarrow> request_decision option" where
  "request_decision_from_v01 RqContinue = Some RqContinue"
| "request_decision_from_v01 (RqModified edit) = map_option RqModified (request_edit_from_v01 edit)"
| "request_decision_from_v01 (RqShortCircuit resp) = map_option RqShortCircuit (response_from_v01 resp)"

fun response_decision_from_v01 :: "frozen_response_decision \<Rightarrow> response_decision option" where
  "response_decision_from_v01 FrContinue = Some RpContinue"
| "response_decision_from_v01 (FrModified edit) = map_option RpModified (response_edit_from_v01 edit)"

fun request_body_decision_from_v01 :: "frozen_body_decision \<Rightarrow> request_body_decision option" where
  "request_body_decision_from_v01 (FbContinue body) = Some (frozen_body_continue body)"
| "request_body_decision_from_v01 (FbShortCircuit resp) = map_option QbShortCircuit (response_from_v01 resp)"

fun request_decision_from_v02 :: "request_decision \<Rightarrow> request_decision option" where
  "request_decision_from_v02 RqContinue = Some RqContinue"
| "request_decision_from_v02 (RqModified edit) = map_option RqModified (request_edit_from_v02 edit)"
| "request_decision_from_v02 (RqShortCircuit resp) = map_option RqShortCircuit (response_from_v02 resp)"

fun response_decision_from_v02 :: "frozen_response_decision \<Rightarrow> response_decision option" where
  "response_decision_from_v02 FrContinue = Some RpContinue"
| "response_decision_from_v02 (FrModified edit) = map_option RpModified (response_edit_from_v02 edit)"

fun request_body_decision_from_v02 :: "frozen_body_decision \<Rightarrow> request_body_decision option" where
  "request_body_decision_from_v02 (FbContinue body) = Some (frozen_body_continue body)"
| "request_body_decision_from_v02 (FbShortCircuit resp) = map_option QbShortCircuit (response_from_v02 resp)"

fun request_decision_from_v03 :: "request_decision \<Rightarrow> request_decision option" where
  "request_decision_from_v03 RqContinue = Some RqContinue"
| "request_decision_from_v03 (RqModified edit) = map_option RqModified (request_edit_from_v03 edit)"
| "request_decision_from_v03 (RqShortCircuit resp) = map_option RqShortCircuit (response_from_v03 resp)"

fun response_decision_from_v03 :: "response_decision \<Rightarrow> response_decision option" where
  "response_decision_from_v03 RpContinue = Some RpContinue"
| "response_decision_from_v03 (RpModified edit) = map_option RpModified (response_edit_from_v03 edit)"
| "response_decision_from_v03 (RpReplace resp) = map_option RpReplace (response_from_v03 resp)"

fun request_body_decision_from_v03 :: "frozen_body_decision \<Rightarrow> request_body_decision option" where
  "request_body_decision_from_v03 (FbContinue body) = Some (frozen_body_continue body)"
| "request_body_decision_from_v03 (FbShortCircuit resp) = map_option QbShortCircuit (response_from_v03 resp)"

fun request_decision_from_v04 :: "request_decision \<Rightarrow> request_decision option" where
  "request_decision_from_v04 RqContinue = Some RqContinue"
| "request_decision_from_v04 (RqModified edit) = map_option RqModified (request_edit_from_v04 edit)"
| "request_decision_from_v04 (RqShortCircuit resp) = map_option RqShortCircuit (response_from_v04 resp)"

fun response_decision_from_v04 :: "response_decision \<Rightarrow> response_decision option" where
  "response_decision_from_v04 RpContinue = Some RpContinue"
| "response_decision_from_v04 (RpModified edit) = map_option RpModified (response_edit_from_v04 edit)"
| "response_decision_from_v04 (RpReplace resp) = map_option RpReplace (response_from_v04 resp)"

fun response_body_decision_from_v04 :: "response_body_decision \<Rightarrow> response_body_decision option" where
  "response_body_decision_from_v04 PbContinue = Some PbContinue"
| "response_body_decision_from_v04 (PbModified edit) = map_option PbModified (response_body_edit_from_v04 edit)"
| "response_body_decision_from_v04 (PbReplace resp) =
     (if names_content_length (rp_headers resp) then None else map_option PbReplace (response_from_v04 resp))"

fun request_body_decision_from_v04 :: "request_body_decision \<Rightarrow> request_body_decision option" where
  "request_body_decision_from_v04 QbContinue = Some QbContinue"
| "request_body_decision_from_v04 (QbModified edit) = map_option QbModified (request_body_edit_from_v04 edit)"
| "request_body_decision_from_v04 (QbShortCircuit resp) = map_option QbShortCircuit (response_from_v04 resp)"

subsection \<open>Lossy projection\<close>

lemma cont_byte_0 [simp]: "\<not> cont_byte 0" "\<not> second_ok a 0"
  by (simp_all add: cont_byte_def second_ok_def)

lemma byte_at_simps [simp]:
  "byte_at [] i = 0" "byte_at (b # bs) 0 = b" "byte_at (b # bs) (Suc i) = byte_at bs i"
  "byte_at (b # bs) (numeral k) = byte_at bs (pred_numeral k)" "byte_at (b # bs) 1 = byte_at bs 0"
  by (simp_all add: byte_at_def numeral_eq_Suc)

text \<open>The leading byte decides how many bytes follow.\<close>

lemma utf8_ok_two:
  assumes "0xC2 \<le> a" and "a \<le> 0xDF"
  shows "utf8_ok (a # bs) \<longleftrightarrow> second_ok a (byte_at bs 0) \<and> utf8_ok (drop 1 bs)"
proof -
  from assms have "\<not> a \<le> 0x7F" "a \<noteq> 0xE0" "a \<noteq> 0xED" "a \<noteq> 0xF0" "a \<noteq> 0xF4" by linarith+
  then show ?thesis using assms by (cases bs) (simp_all add: second_ok_def)
qed

lemma utf8_ok_three:
  assumes "0xE0 \<le> a" and "a \<le> 0xEF"
  shows "utf8_ok (a # bs) \<longleftrightarrow> second_ok a (byte_at bs 0) \<and> cont_byte (byte_at bs 1) \<and> utf8_ok (drop 2 bs)"
proof -
  from assms have a: "\<not> a \<le> 0x7F" "\<not> a \<le> 0xDF" "a \<noteq> 0xF0" "a \<noteq> 0xF4" "a \<noteq> 0xE0 \<Longrightarrow> 0xE1 \<le> a" by linarith+
  consider "bs = []" | b where "bs = [b]" | b c ds where "bs = b # c # ds" by (metis list.exhaust)
  then show ?thesis
  proof cases
    case 3
    then show ?thesis using a assms(2) by (simp only: utf8_ok.simps list.case if_False simp_thms second_ok_def) simp
  qed (use a in simp_all)
qed

lemma utf8_ok_four:
  assumes "0xF0 \<le> a" and "a \<le> 0xF4"
  shows "utf8_ok (a # bs) \<longleftrightarrow>
    second_ok a (byte_at bs 0) \<and> cont_byte (byte_at bs 1) \<and> cont_byte (byte_at bs 2) \<and> utf8_ok (drop 3 bs)"
proof -
  from assms have a: "\<not> a \<le> 0x7F" "\<not> a \<le> 0xDF" "\<not> a \<le> 0xEF" "a \<noteq> 0xE0" "a \<noteq> 0xED"
    "a \<noteq> 0xF0 \<Longrightarrow> a \<noteq> 0xF4 \<Longrightarrow> 0xF1 \<le> a \<and> a \<le> 0xF3" by linarith+
  consider "bs = []" | b where "bs = [b]" | b c where "bs = [b, c]" | b c d es where "bs = b # c # d # es"
    by (metis list.exhaust)
  then show ?thesis
  proof cases
    case 4
    have u: "utf8_ok (a # b # c # d # es) \<longleftrightarrow>
      (if a = 0xF0 then 0x90 \<le> b \<and> b \<le> 0xBF \<and> cont_byte c \<and> cont_byte d \<and> utf8_ok es
       else if 0xF1 \<le> a \<and> a \<le> 0xF3 then cont_byte b \<and> cont_byte c \<and> cont_byte d \<and> utf8_ok es
       else if a = 0xF4 then 0x80 \<le> b \<and> b \<le> 0x8F \<and> cont_byte c \<and> cont_byte d \<and> utf8_ok es else False)"
      by (simp only: utf8_ok.simps(2) [of a] list.case a(1-5) if_False simp_thms)
    consider "a = 0xF0" | "a = 0xF4" | "a \<noteq> 0xF0" "a \<noteq> 0xF4" "0xF1 \<le> a \<and> a \<le> 0xF3" using a(6) by blast
    then show ?thesis using u a(4,5) unfolding 4 second_ok_def
      by cases (simp_all del: utf8_ok.simps)
  qed (use a in simp_all)
qed

lemma utf8_ok_bad:
  assumes "\<not> a \<le> 0x7F" and "a < 0xC2 \<or> 0xF4 < a"
  shows "\<not> utf8_ok (a # bs)"
proof -
  from assms have a: "\<not> (0xC2 \<le> a \<and> a \<le> 0xDF)" "a \<noteq> 0xE0" "a \<noteq> 0xED" "\<not> (0xE1 \<le> a \<and> a \<le> 0xEF)" "a \<noteq> 0xF0"
    "\<not> (0xF1 \<le> a \<and> a \<le> 0xF3)" "a \<noteq> 0xF4" by linarith+
  consider "bs = []" | b where "bs = [b]" | b c where "bs = [b, c]" | b c d es where "bs = b # c # d # es"
    by (metis list.exhaust)
  then show ?thesis by cases (simp_all only: utf8_ok.simps(2) [of a] list.case a assms(1) if_False simp_thms)
qed

lemma lead_cases:
  obtains "a \<le> 0x7F" | "\<not> a \<le> 0x7F" "a < 0xC2 \<or> 0xF4 < a" | "0xC2 \<le> a" "a \<le> (0xDF::nat)"
  | "0xE0 \<le> a" "a \<le> 0xEF" | "0xF0 \<le> a" "a \<le> 0xF4"
  by linarith

lemma utf8_step_lead:
  "a \<le> 0x7F \<Longrightarrow> utf8_step (a # bs) = (1, True)"
  "\<not> a \<le> 0x7F \<Longrightarrow> a < 0xC2 \<or> 0xF4 < a \<Longrightarrow> utf8_step (a # bs) = (1, False)"
  "0xC2 \<le> a \<Longrightarrow> a \<le> 0xDF \<Longrightarrow> utf8_step (a # bs) = (if second_ok a (byte_at bs 0) then (2, True) else (1, False))"
  "0xE0 \<le> a \<Longrightarrow> a \<le> 0xEF \<Longrightarrow> utf8_step (a # bs) =
     (if \<not> second_ok a (byte_at bs 0) then (1, False) else if \<not> cont_byte (byte_at bs 1) then (2, False) else (3, True))"
  "0xF0 \<le> a \<Longrightarrow> a \<le> 0xF4 \<Longrightarrow> utf8_step (a # bs) =
     (if \<not> second_ok a (byte_at bs 0) then (1, False) else if \<not> cont_byte (byte_at bs 1) then (2, False)
      else if \<not> cont_byte (byte_at bs 2) then (3, False) else (4, True))"
  by (simp_all add: utf8_step_def Let_def numeral_eq_Suc)

lemma utf8_ok_step: "utf8_ok (a # bs) \<longleftrightarrow> snd (utf8_step (a # bs)) \<and> utf8_ok (drop (fst (utf8_step (a # bs))) (a # bs))"
proof (cases rule: lead_cases [of a])
  case 1
  then show ?thesis by (simp add: utf8_step_lead)
next
  case 2
  then show ?thesis using utf8_ok_bad [OF 2] by (simp add: utf8_step_lead)
next
  case 3
  then show ?thesis by (simp add: utf8_ok_two utf8_step_lead del: utf8_ok.simps)
next
  case 4
  then show ?thesis by (simp add: utf8_ok_three utf8_step_lead del: utf8_ok.simps)
next
  case 5
  then show ?thesis by (simp add: utf8_ok_four utf8_step_lead del: utf8_ok.simps)
qed

text \<open>A complete sequence has its bytes, so what follows it does not change how it is read.\<close>

lemma byte_at_take: "n < m \<Longrightarrow> byte_at (take m bs @ r) n = (if n < length bs then byte_at bs n else byte_at r (n - length bs))"
  by (auto simp: byte_at_def nth_append)

lemma byte_at_present: "byte_at bs n \<noteq> 0 \<Longrightarrow> n < length bs"
  by (auto simp: byte_at_def split: if_splits)

lemma utf8_step_take:
  assumes "bs \<noteq> []" and "snd (utf8_step bs)"
  shows "fst (utf8_step bs) \<le> length bs \<and> utf8_step (take (fst (utf8_step bs)) bs @ r) = utf8_step bs"
proof -
  from assms(1) obtain a cs where bs: "bs = a # cs" by (cases bs) auto
  have here: "n < length cs" if "second_ok a (byte_at cs n) \<or> cont_byte (byte_at cs n)" for n
    by (rule byte_at_present) (use that in \<open>metis cont_byte_0\<close>)
  show ?thesis
  proof (cases rule: lead_cases [of a])
    case 3
    then show ?thesis using assms(2) here [of 0] by (auto simp: bs utf8_step_lead byte_at_take Suc_le_eq split: if_splits)
  next
    case 4
    then show ?thesis using assms(2) here [of 0] here [of 1]
      by (auto simp: bs utf8_step_lead byte_at_take numeral_eq_Suc split: if_splits)
  next
    case 5
    then show ?thesis using assms(2) here [of 0] here [of 1] here [of 2]
      by (auto simp: bs utf8_step_lead byte_at_take numeral_eq_Suc split: if_splits)
  qed (use assms(2) in \<open>simp_all add: bs utf8_step_lead\<close>)
qed

lemma utf8_ok_take:
  assumes "snd (utf8_step bs)" and "bs \<noteq> []"
  shows "utf8_ok (take (fst (utf8_step bs)) bs @ r) \<longleftrightarrow> utf8_ok r"
proof -
  let ?n = "fst (utf8_step bs)" and ?x = "take (fst (utf8_step bs)) bs @ r"
  have st: "?n \<le> length bs" "utf8_step ?x = utf8_step bs" using utf8_step_take [OF assms(2,1)] by auto
  from utf8_step_pos [of bs] assms(2) obtain a cs where x: "?x = a # cs" by (cases bs; cases ?n) auto
  have "utf8_ok ?x \<longleftrightarrow> utf8_ok (drop ?n ?x)" using utf8_ok_step [of a cs] st(2) assms(1) unfolding x by simp
  then show ?thesis using st(1) by simp
qed

lemma utf8_ok_lossy: "utf8_ok (utf8_lossy bs)"
proof (induction bs rule: utf8_lossy.induct)
  case (1 bs)
  show ?case
  proof (cases "bs = []")
    case False
    with 1 have "utf8_ok (utf8_lossy (drop (fst (utf8_step bs)) bs))" by blast
    then show ?thesis using False utf8_ok_take [of bs]
      by (subst utf8_lossy.simps) (simp add: replacement_char_def cont_byte_def)
  qed (simp add: utf8_lossy.simps)
qed

lemma utf8_lossy_id: "utf8_ok bs \<Longrightarrow> utf8_lossy bs = bs"
proof (induction bs rule: utf8_lossy.induct)
  case (1 bs)
  show ?case
  proof (cases bs)
    case (Cons a cs)
    with "1.prems" utf8_ok_step [of a cs] have "snd (utf8_step bs)" "utf8_ok (drop (fst (utf8_step bs)) bs)" by auto
    with 1 Cons show ?thesis by (subst utf8_lossy.simps) simp
  qed (simp add: utf8_lossy.simps)
qed

lemma utf8_lossy_bytes: "\<forall>b \<in> set bs. b < 256 \<Longrightarrow> \<forall>b \<in> set (utf8_lossy bs). b < 256"
proof (induction bs rule: utf8_lossy.induct)
  case (1 bs)
  show ?case
  proof (cases "bs = []")
    case False
    have "\<forall>b \<in> set (utf8_lossy (drop (fst (utf8_step bs)) bs)). b < 256"
      using 1(1) [OF False] "1.prems" by (metis in_set_dropD)
    then show ?thesis using False "1.prems"
      by (subst utf8_lossy.simps) (auto simp: replacement_char_def dest: in_set_takeD)
  qed (simp add: utf8_lossy.simps)
qed

lemma of_char_lossy: "map of_char (from_utf8_lossy s) = utf8_lossy (map of_char s :: nat list)"
proof -
  have "\<forall>b \<in> set (utf8_lossy (map of_char s)). b < (256::nat)" by (rule utf8_lossy_bytes) simp
  then show ?thesis by (simp add: from_utf8_lossy_def map_idI)
qed

subsection \<open>What the gate admits\<close>

definition well_formed_header :: "header \<Rightarrow> bool" where
  "well_formed_header h =
     (h_name h \<noteq> [] \<and> length (h_name h) \<le> 256 \<and> list_all is_tchar (h_name h)
      \<and> length (h_value h) \<le> 8192 \<and> list_all is_field_value_byte (h_value h))"

definition end_to_end :: "header list \<Rightarrow> header list" where
  "end_to_end hs = filter (\<lambda>h. \<not> is_hop_by_hop_guest_header (h_name h)) hs"

lemma header_from_eq:
  "header_from_v04 h = (if well_formed_header h then Some h else None)"
  "header_from_v01 = header_from_v04" "header_from_v02 = header_from_v04" "header_from_v03 = header_from_v04"
  by (auto simp: fun_eq_iff header_from_v01_def header_from_v02_def header_from_v03_def header_from_v04_def
      validate_and_header_def well_formed_header_def MAX_GUEST_HEADER_NAME_LEN_def MAX_GUEST_HEADER_VALUE_LEN_def)

lemma those_guard: "those (map (\<lambda>h. if P h then Some h else None) hs) = (if list_all P hs then Some hs else None)"
  by (induction hs) auto

lemma gate_headers_eq:
  "gate_headers header_from_v04 hs = (if list_all well_formed_header (end_to_end hs) then Some (end_to_end hs) else None)"
  unfolding gate_headers_def header_from_eq(1) those_guard end_to_end_def by simp

lemma end_to_end_idem [simp]: "end_to_end (end_to_end hs) = end_to_end hs"
  by (simp add: end_to_end_def)

lemma via_same:
  "request_edit_via header_from_v01 = request_edit_via header_from_v04" "request_edit_via header_from_v02 = request_edit_via header_from_v04"
  "request_edit_via header_from_v03 = request_edit_via header_from_v04" "response_edit_via header_from_v01 = response_edit_via header_from_v04"
  "response_edit_via header_from_v02 = response_edit_via header_from_v04" "response_edit_via header_from_v03 = response_edit_via header_from_v04"
  "response_via header_from_v01 = response_via header_from_v04" "response_via header_from_v02 = response_via header_from_v04"
  "response_via header_from_v03 = response_via header_from_v04"
  by (simp_all only: header_from_eq)

lemmas track_defs = request_edit_from_v01_def request_edit_from_v02_def request_edit_from_v03_def request_edit_from_v04_def
  response_edit_from_v01_def response_edit_from_v02_def response_edit_from_v03_def response_edit_from_v04_def
  response_from_v01_def response_from_v02_def response_from_v03_def response_from_v04_def

lemma response_from_eq:
  "response_from_v04 resp =
     (if list_all well_formed_header (end_to_end (rp_headers resp)) \<and> 100 \<le> rp_status resp \<and> rp_status resp \<le> 599
         \<and> length (rp_body resp) \<le> 2 ^ 20
      then Some (resp\<lparr>rp_headers := end_to_end (rp_headers resp)\<rparr>) else None)"
  by (simp add: response_from_v04_def response_via_def gate_headers_eq validated_guest_status_def validated_guest_body_def
      MAX_GUEST_RESPONSE_BODY_LEN_def)

lemma request_edit_from_eq:
  "request_edit_from_v04 e =
     (if list_all well_formed_header (end_to_end (qe_set_headers e))
      then Some (e\<lparr>qe_set_headers := end_to_end (qe_set_headers e)\<rparr>) else None)"
  by (simp add: request_edit_from_v04_def request_edit_via_def gate_headers_eq)

lemma response_edit_from_eq:
  "response_edit_from_v04 e =
     (if list_all well_formed_header (end_to_end (se_set_headers e))
         \<and> (case se_set_status e of Some s \<Rightarrow> 100 \<le> s \<and> s \<le> 599 | None \<Rightarrow> True)
      then Some (e\<lparr>se_set_headers := end_to_end (se_set_headers e)\<rparr>) else None)"
  by (auto simp: response_edit_from_v04_def response_edit_via_def gate_headers_eq validated_guest_status_def split: option.split)

lemma request_body_edit_from_eq:
  "request_body_edit_from_v04 e =
     (if list_all well_formed_header (end_to_end (be_set_headers e))
      then Some (e\<lparr>be_set_headers := end_to_end (be_set_headers e)\<rparr>) else None)"
  by (simp add: request_body_edit_from_v04_def gate_headers_eq)

lemma response_body_edit_from_eq:
  "response_body_edit_from_v04 e =
     (if \<not> names_content_length (be_set_headers e) \<and> list_all well_formed_header (end_to_end (be_set_headers e))
      then Some (e\<lparr>be_set_headers := end_to_end (be_set_headers e)\<rparr>) else None)"
  by (simp add: response_body_edit_from_v04_def gate_headers_eq)

lemmas gate_eqs = response_from_eq request_edit_from_eq response_edit_from_eq request_body_edit_from_eq response_body_edit_from_eq

subsection \<open>Properties\<close>

text \<open>
  The 0.4 decision a frozen decision stands for; the frozen body decision \<open>continue\<close> stands for a
  body edit that carries the bytes and touches no header.
\<close>

fun lift_response :: "frozen_response_decision \<Rightarrow> response_decision" where
  "lift_response FrContinue = RpContinue"
| "lift_response (FrModified e) = RpModified e"

fun lift_body :: "frozen_body_decision \<Rightarrow> request_body_decision" where
  "lift_body (FbContinue body) = QbModified \<lparr>be_body = body, be_set_headers = [], be_remove_headers = []\<rparr>"
| "lift_body (FbShortCircuit resp) = QbShortCircuit resp"

lemma request_tracks:
  "request_decision_from_v01 = request_decision_from_v04" "request_decision_from_v02 = request_decision_from_v04"
  "request_decision_from_v03 = request_decision_from_v04"
proof -
  have "request_decision_from_v01 d = request_decision_from_v04 d" "request_decision_from_v02 d = request_decision_from_v04 d"
    "request_decision_from_v03 d = request_decision_from_v04 d" for d
    by (cases d; simp add: track_defs via_same)+
  then show "request_decision_from_v01 = request_decision_from_v04" "request_decision_from_v02 = request_decision_from_v04"
    "request_decision_from_v03 = request_decision_from_v04" by auto
qed

lemma response_tracks:
  "response_decision_from_v01 = response_decision_from_v04 \<circ> lift_response"
  "response_decision_from_v02 = response_decision_from_v04 \<circ> lift_response"
  "response_decision_from_v03 = response_decision_from_v04"
proof -
  have "response_decision_from_v01 d = response_decision_from_v04 (lift_response d)"
    "response_decision_from_v02 d = response_decision_from_v04 (lift_response d)" for d
    by (cases d; simp add: track_defs via_same)+
  moreover have "response_decision_from_v03 d = response_decision_from_v04 d" for d
    by (cases d; simp add: track_defs via_same)
  ultimately show "response_decision_from_v01 = response_decision_from_v04 \<circ> lift_response"
    "response_decision_from_v02 = response_decision_from_v04 \<circ> lift_response"
    "response_decision_from_v03 = response_decision_from_v04" by auto
qed

lemma body_tracks:
  "request_body_decision_from_v01 = request_body_decision_from_v04 \<circ> lift_body"
  "request_body_decision_from_v02 = request_body_decision_from_v04 \<circ> lift_body"
  "request_body_decision_from_v03 = request_body_decision_from_v04 \<circ> lift_body"
proof -
  have "request_body_decision_from_v01 d = request_body_decision_from_v04 (lift_body d)"
    "request_body_decision_from_v02 d = request_body_decision_from_v04 (lift_body d)"
    "request_body_decision_from_v03 d = request_body_decision_from_v04 (lift_body d)" for d
    by (cases d; simp add: track_defs via_same frozen_body_continue_def request_body_edit_from_eq end_to_end_def)+
  then show "request_body_decision_from_v01 = request_body_decision_from_v04 \<circ> lift_body"
    "request_body_decision_from_v02 = request_body_decision_from_v04 \<circ> lift_body"
    "request_body_decision_from_v03 = request_body_decision_from_v04 \<circ> lift_body" by auto
qed

text \<open>
  The contract tracks share one gate: a request, response or body decision of a frozen guest is
  admitted, rejected and rewritten exactly as the 0.4 decision it stands for.
\<close>

theorem tracks_share_one_gate:
  "request_decision_from_v01 = request_decision_from_v04
   \<and> request_decision_from_v02 = request_decision_from_v04
   \<and> request_decision_from_v03 = request_decision_from_v04
   \<and> response_decision_from_v01 = response_decision_from_v04 \<circ> lift_response
   \<and> response_decision_from_v02 = response_decision_from_v04 \<circ> lift_response
   \<and> response_decision_from_v03 = response_decision_from_v04
   \<and> request_body_decision_from_v01 = request_body_decision_from_v04 \<circ> lift_body
   \<and> request_body_decision_from_v02 = request_body_decision_from_v04 \<circ> lift_body
   \<and> request_body_decision_from_v03 = request_body_decision_from_v04 \<circ> lift_body"
  by (intro conjI request_tracks response_tracks body_tracks)


end
