(* ===== verification/Instance_Pool.thy ===== *)
theory Instance_Pool
  imports Guest_Contract
begin

text \<open>
  The pool of trusted instances and the lifecycle around one guest call (\<open>host/src/pool.rs\<close>).  Each
  section the code runs under the pool's lock is one definition on the state behind the lock; the
  functions below compose them for one caller, and a step relation interleaves them for any number of
  callers.  The runtime behind the \<open>FilterRuntime\<close> trait is a record of functions over an environment
  \<open>'e\<close>; a clock reading is a natural number of milliseconds.  Waiting on the condition variable is a
  list of wake-ups: each is what the other callers did to the pool meanwhile, and the end of the list
  is the deadline.
\<close>

subsection \<open>The trap breaker\<close>

record trap_breaker =
  tb_consecutive_traps :: u32
  tb_cooldown_until :: "nat option"
  tb_threshold :: u32
  tb_cooldown :: nat

definition trap_breaker_new :: "u32 \<Rightarrow> nat \<Rightarrow> trap_breaker" where
  "trap_breaker_new threshold cooldown =
     \<lparr>tb_consecutive_traps = 0, tb_cooldown_until = None, tb_threshold = threshold, tb_cooldown = cooldown\<rparr>"

definition record_trap :: "nat \<Rightarrow> trap_breaker \<Rightarrow> trap_breaker" where
  "record_trap now b =
     (let traps = sat_add (tb_consecutive_traps b) 1
      in if tb_threshold b \<le> traps
         then b\<lparr>tb_consecutive_traps := traps, tb_cooldown_until := Some (now + tb_cooldown b)\<rparr>
         else b\<lparr>tb_consecutive_traps := traps\<rparr>)"

definition breaker_clear :: "trap_breaker \<Rightarrow> trap_breaker" where
  "breaker_clear b = b\<lparr>tb_consecutive_traps := 0, tb_cooldown_until := None\<rparr>"

definition breaker_is_open :: "nat \<Rightarrow> trap_breaker \<Rightarrow> bool" where
  "breaker_is_open now b = (case tb_cooldown_until b of Some t \<Rightarrow> now < t | None \<Rightarrow> False)"

definition UNTRUSTED_TRAP_BREAKER_THRESHOLD :: u32 where
  "UNTRUSTED_TRAP_BREAKER_THRESHOLD = 3"

definition UNTRUSTED_TRAP_COOLDOWN :: nat where
  "UNTRUSTED_TRAP_COOLDOWN = 500"

definition TRUSTED_TRAP_BREAKER_THRESHOLD :: u32 where
  "TRUSTED_TRAP_BREAKER_THRESHOLD = 3"

definition TRUSTED_TRAP_COOLDOWN :: nat where
  "TRUSTED_TRAP_COOLDOWN = 500"

subsection \<open>The pool\<close>

record 'i pooled_instance =
  pi_instance :: 'i
  pi_served :: u64

record 'i pool_inner =
  pl_idle :: "'i pooled_instance list"
  pl_live :: nat
  pl_breaker :: trap_breaker

record 'i trusted_pool =
  tp_inner :: "'i pool_inner"
  tp_cap :: nat
  tp_checkout_timeout :: nat
  tp_max_requests_per_instance :: u64

definition trusted_pool_new :: "nat \<Rightarrow> nat \<Rightarrow> u64 \<Rightarrow> 'i \<Rightarrow> 'i trusted_pool" where
  "trusted_pool_new cap checkout_timeout max_requests_per_instance first =
     \<lparr>tp_inner =
        \<lparr>pl_idle = [\<lparr>pi_instance = first, pi_served = 0\<rparr>], pl_live = 1,
         pl_breaker = trap_breaker_new TRUSTED_TRAP_BREAKER_THRESHOLD TRUSTED_TRAP_COOLDOWN\<rparr>,
      tp_cap = cap, tp_checkout_timeout = checkout_timeout,
      tp_max_requests_per_instance = max_requests_per_instance\<rparr>"

text \<open>The slot guard: dropped while armed, it gives the slot back.\<close>

definition release_slot :: "'i pool_inner \<Rightarrow> 'i pool_inner" where
  "release_slot g = g\<lparr>pl_live := pl_live g - 1\<rparr>"

text \<open>The decision of a checkout under the lock.  \<open>Vec::pop\<close> takes the last idle instance.\<close>

datatype 'i checkout_step = StepUse "'i pooled_instance" | StepBuild | StepUnavailable | StepWait

definition checkout_decide :: "nat \<Rightarrow> nat \<Rightarrow> 'i pool_inner \<Rightarrow> 'i pool_inner \<times> 'i checkout_step" where
  "checkout_decide cap now g =
     (if pl_idle g \<noteq> [] then (g\<lparr>pl_idle := butlast (pl_idle g)\<rparr>, StepUse (last (pl_idle g)))
      else if breaker_is_open now (pl_breaker g) then (g, StepUnavailable)
      else if pl_live g < cap then (g\<lparr>pl_live := pl_live g + 1\<rparr>, StepBuild)
      else (g, StepWait))"

datatype idle_miss = PoolExhausted | PoolFilling | BreakerOpen

definition checkout_idle ::
    "nat \<Rightarrow> nat \<Rightarrow> 'i pool_inner \<Rightarrow> 'i pool_inner \<times> (idle_miss, 'i pooled_instance) result" where
  "checkout_idle cap now g =
     (if breaker_is_open now (pl_breaker g) then (g, Inl BreakerOpen)
      else if pl_idle g \<noteq> [] then (g\<lparr>pl_idle := butlast (pl_idle g)\<rparr>, Inr (last (pl_idle g)))
      else if cap \<le> pl_live g then (g, Inl PoolExhausted)
      else (g, Inl PoolFilling))"

text \<open>After a failed build the trap is recorded; the guard then gives the slot back.\<close>

definition build_failed :: "nat \<Rightarrow> 'i pool_inner \<Rightarrow> 'i pool_inner" where
  "build_failed now g = g\<lparr>pl_breaker := record_trap now (pl_breaker g)\<rparr>"

definition served_once :: "'i pooled_instance \<Rightarrow> 'i pooled_instance" where
  "served_once p = p\<lparr>pi_served := sat_add (pi_served p) 1\<rparr>"

definition recycles :: "u64 \<Rightarrow> 'i pooled_instance \<Rightarrow> bool" where
  "recycles max_requests p = (max_requests \<le> pi_served p)"

text \<open>The end of a call that returned, for an instance whose count is already advanced.\<close>

definition check_in :: "u64 \<Rightarrow> 'i pooled_instance \<Rightarrow> 'i pool_inner \<Rightarrow> 'i pool_inner" where
  "check_in max_requests p g =
     (if recycles max_requests p
      then g\<lparr>pl_breaker := breaker_clear (pl_breaker g), pl_live := pl_live g - 1\<rparr>
      else g\<lparr>pl_breaker := breaker_clear (pl_breaker g), pl_idle := pl_idle g @ [p]\<rparr>)"

text \<open>The end of a call that failed.\<close>

definition discard :: "nat \<Rightarrow> 'i pool_inner \<Rightarrow> 'i pool_inner" where
  "discard now g = g\<lparr>pl_live := pl_live g - 1, pl_breaker := record_trap now (pl_breaker g)\<rparr>"

subsection \<open>One guest call\<close>

text \<open>
  What a guest call can fail with, and its classification.  The marker of the output gate and the epoch
  interrupt are told apart from every other error.
\<close>

datatype call_error = InvalidGuestOutput | TrapInterrupt | CallError string

fun from_call :: "call_error \<Rightarrow> run_error" where
  "from_call InvalidGuestOutput = InvalidOutput"
| "from_call TrapInterrupt = Deadline"
| "from_call (CallError e) = Trap e"

record ('e, 'i) filter_runtime =
  rt_now :: "'e \<Rightarrow> nat"
  rt_wakeups :: "'e \<Rightarrow> ('i pool_inner \<Rightarrow> 'i pool_inner) list"
  rt_instantiate_initialized :: "'e \<Rightarrow> 'e \<times> (string, 'i) result"
  rt_begin_request :: "'i \<Rightarrow> 'i"
  rt_set_request_deadline :: "'i \<Rightarrow> 'i"
  rt_take_logs :: "'i \<Rightarrow> 'i \<times> string list"
  rt_take_logs_final :: "'i \<Rightarrow> 'i \<times> string list"

type_synonym ('e, 'i, 'a) guest_call = "'e \<Rightarrow> 'i \<Rightarrow> 'e \<times> 'i \<times> (call_error, 'a) result"
type_synonym 'a hook_result = "(run_error \<times> string list, 'a \<times> string list) result"

fun checkout ::
    "('e, 'i) filter_runtime \<Rightarrow> nat \<Rightarrow> ('i pool_inner \<Rightarrow> 'i pool_inner) list \<Rightarrow> 'e \<Rightarrow> 'i pool_inner
       \<Rightarrow> 'e \<times> 'i pool_inner \<times> (run_error, 'i pooled_instance) result" where
  "checkout rt cap wakeups e g =
     (case checkout_decide cap (rt_now rt e) g of
        (g', StepUse p) \<Rightarrow> (e, g', Inr p)
      | (g', StepUnavailable) \<Rightarrow> (e, g', Inl Unavailable)
      | (g', StepBuild) \<Rightarrow>
          (case rt_instantiate_initialized rt e of
             (e', Inr i) \<Rightarrow> (e', g', Inr \<lparr>pi_instance = i, pi_served = 0\<rparr>)
           | (e', Inl err) \<Rightarrow> (e', release_slot (build_failed (rt_now rt e') g'), Inl (Instantiate err)))
      | (g', StepWait) \<Rightarrow>
          (case wakeups of
             [] \<Rightarrow> (e, g', Inl Unavailable)
           | others # rest \<Rightarrow> checkout rt cap rest e (others g')))"

declare checkout.simps [simp del]

definition execute_pooled ::
    "('e, 'i) filter_runtime \<Rightarrow> u64 \<Rightarrow> 'i pooled_instance \<Rightarrow> ('e, 'i, 'a) guest_call \<Rightarrow> 'e \<Rightarrow> 'i pool_inner
       \<Rightarrow> 'e \<times> 'i pool_inner \<times> 'a hook_result" where
  "execute_pooled rt max_requests pooled call e g =
     (case call e (rt_set_request_deadline rt (rt_begin_request rt (pi_instance pooled))) of
        (e', i, Inr v) \<Rightarrow>
          let p = served_once (pooled\<lparr>pi_instance := i\<rparr>);
              (i', logs) = (if recycles max_requests p then rt_take_logs_final rt i else rt_take_logs rt i)
          in (e', check_in max_requests (p\<lparr>pi_instance := i'\<rparr>) g, Inr (v, logs))
      | (e', i, Inl err) \<Rightarrow>
          let (_, logs) = rt_take_logs_final rt i
          in (e', discard (rt_now rt e') g, Inl (from_call err, logs)))"

definition run_pooled ::
    "('e, 'i) filter_runtime \<Rightarrow> 'i trusted_pool \<Rightarrow> ('e, 'i, 'a) guest_call \<Rightarrow> 'e
       \<Rightarrow> 'e \<times> 'i trusted_pool \<times> 'a hook_result" where
  "run_pooled rt pool call e =
     (case checkout rt (tp_cap pool) (rt_wakeups rt e) e (tp_inner pool) of
        (e', g, Inl err) \<Rightarrow> (e', pool\<lparr>tp_inner := g\<rparr>, Inl (err, []))
      | (e', g, Inr p) \<Rightarrow>
          (case execute_pooled rt (tp_max_requests_per_instance pool) p call e' g of
             (e'', g', r) \<Rightarrow> (e'', pool\<lparr>tp_inner := g'\<rparr>, r)))"

definition run_fresh ::
    "('e, 'i) filter_runtime \<Rightarrow> trap_breaker \<Rightarrow> ('e, 'i, 'a) guest_call \<Rightarrow> 'e \<Rightarrow> 'e \<times> trap_breaker \<times> 'a hook_result" where
  "run_fresh rt breaker call e =
     (if breaker_is_open (rt_now rt e) breaker then (e, breaker, Inl (Unavailable, []))
      else case rt_instantiate_initialized rt e of
        (e', Inl err) \<Rightarrow> (e', record_trap (rt_now rt e') breaker, Inl (Instantiate err, []))
      | (e', Inr inst) \<Rightarrow>
          (case call e' (rt_set_request_deadline rt inst) of
             (e'', i, Inr v) \<Rightarrow> (e'', breaker_clear breaker, Inr (v, snd (rt_take_logs_final rt i)))
           | (e'', i, Inl err) \<Rightarrow>
               (e'', record_trap (rt_now rt e'') breaker, Inl (from_call err, snd (rt_take_logs_final rt i)))))"

text \<open>The state a loaded filter keeps: its own breaker, and its pool when it is trusted.\<close>

record 'i loaded_inner =
  li_untrusted_breaker :: trap_breaker
  li_trusted :: "'i trusted_pool option"

definition loaded_inner_new :: "'i trusted_pool option \<Rightarrow> 'i loaded_inner" where
  "loaded_inner_new trusted =
     \<lparr>li_untrusted_breaker = trap_breaker_new UNTRUSTED_TRAP_BREAKER_THRESHOLD UNTRUSTED_TRAP_COOLDOWN,
      li_trusted = trusted\<rparr>"

definition run_hook ::
    "('e, 'i) filter_runtime \<Rightarrow> 'i loaded_inner \<Rightarrow> ('e, 'i, 'a) guest_call \<Rightarrow> 'e
       \<Rightarrow> 'e \<times> 'i loaded_inner \<times> 'a hook_result" where
  "run_hook rt li call e =
     (case li_trusted li of
        Some pool \<Rightarrow>
          (case run_pooled rt pool call e of (e', pool', r) \<Rightarrow> (e', li\<lparr>li_trusted := Some pool'\<rparr>, r))
      | None \<Rightarrow>
          (case run_fresh rt (li_untrusted_breaker li) call e of
             (e', b, r) \<Rightarrow> (e', li\<lparr>li_untrusted_breaker := b\<rparr>, r)))"

subsection \<open>A filter that cannot start\<close>

text \<open>
  The requests an untrusted filter is asked to serve, given by the environment each one finds, and the
  builds they pay for: when each began and when it failed.
\<close>

fun builds :: "('e, 'i) filter_runtime \<Rightarrow> ('e, 'i, 'a) guest_call \<Rightarrow> trap_breaker \<Rightarrow> 'e list \<Rightarrow> (nat \<times> nat) list" where
  "builds rt call b [] = []"
| "builds rt call b (e # es) =
     (case run_fresh rt b call e of
        (e', b', r) \<Rightarrow>
          (if breaker_is_open (rt_now rt e) b then [] else [(rt_now rt e, rt_now rt e')]) @ builds rt call b' es)"

definition never_starts :: "('e, 'i) filter_runtime \<Rightarrow> 'e \<Rightarrow> bool" where
  "never_starts rt e = (case rt_instantiate_initialized rt e of (_, Inl _) \<Rightarrow> True | (_, Inr _) \<Rightarrow> False)"

definition apart :: "nat \<times> nat \<Rightarrow> nat \<times> nat \<Rightarrow> bool" where
  "apart p q = (snd p + 500 \<le> fst q)"

definition three_strikes :: "trap_breaker \<Rightarrow> bool" where
  "three_strikes b = (tb_threshold b = 3 \<and> tb_cooldown b = 500)"

lemma builds_failed:
  assumes "never_starts rt e" and "\<not> breaker_is_open (rt_now rt e) b"
  shows "\<exists>t. builds rt call b (e # es) = (rt_now rt e, t) # builds rt call (record_trap t b) es"
  using assms by (auto simp: never_starts_def run_fresh_def split: prod.splits sum.splits)

lemma builds_refused:
  assumes "breaker_is_open (rt_now rt e) b"
  shows "builds rt call b (e # es) = builds rt call b es"
  using assms by (simp add: run_fresh_def)

lemma unat_traps: "unat (tb_consecutive_traps (record_trap t b)) = min (unat (tb_consecutive_traps b) + 1) (2 ^ 32 - 1)"
  by (simp add: record_trap_def Let_def unat_sat_add)

lemma record_trap_hot:
  assumes "three_strikes b" and "2 \<le> unat (tb_consecutive_traps b)"
  shows "three_strikes (record_trap t b) \<and> 2 \<le> unat (tb_consecutive_traps (record_trap t b))
    \<and> tb_cooldown_until (record_trap t b) = Some (t + 500)"
proof -
  have "3 \<le> unat (sat_add (tb_consecutive_traps b) 1)" using assms(2) by (simp add: unat_sat_add)
  then have "3 \<le> sat_add (tb_consecutive_traps b) 1" by (simp add: word_le_nat_alt)
  with assms show ?thesis by (simp add: unat_traps) (simp add: record_trap_def Let_def three_strikes_def)
qed

lemma builds_hot:
  assumes "\<And>e. e \<in> set es \<Longrightarrow> never_starts rt e" and "three_strikes b" and "2 \<le> unat (tb_consecutive_traps b)"
    and "tb_cooldown_until b = Some t"
  shows "successively apart (builds rt call b es) \<and> (builds rt call b es \<noteq> [] \<longrightarrow> t \<le> fst (hd (builds rt call b es)))"
  using assms
proof (induction es arbitrary: b t)
  case (Cons e es)
  show ?case
  proof (cases "breaker_is_open (rt_now rt e) b")
    case True
    show ?thesis unfolding builds_refused [OF True] by (rule Cons.IH) (use Cons.prems in auto)
  next
    case False
    obtain u where u: "builds rt call b (e # es) = (rt_now rt e, u) # builds rt call (record_trap u b) es"
      using builds_failed [OF _ False] Cons.prems(1) by (metis list.set_intros(1))
    note hot = record_trap_hot [OF Cons.prems(2,3), of u]
    have "successively apart (builds rt call (record_trap u b) es)
      \<and> (builds rt call (record_trap u b) es \<noteq> [] \<longrightarrow> u + 500 \<le> fst (hd (builds rt call (record_trap u b) es)))"
      by (rule Cons.IH) (use Cons.prems hot in auto)
    moreover have "t \<le> rt_now rt e" using False Cons.prems(4) by (simp add: breaker_is_open_def)
    ultimately show ?thesis unfolding u by (auto simp: successively_Cons apart_def)
  qed
qed simp

lemma builds_cold:
  assumes "\<And>e. e \<in> set es \<Longrightarrow> never_starts rt e" and "three_strikes b" and "unat (tb_consecutive_traps b) \<le> 2"
    and "tb_cooldown_until b = None"
  shows "successively apart (drop (2 - unat (tb_consecutive_traps b)) (builds rt call b es))"
  using assms
proof (induction es arbitrary: b)
  case (Cons e es)
  let ?n = "unat (tb_consecutive_traps b)"
  have "\<not> breaker_is_open (rt_now rt e) b" using Cons.prems(4) by (simp add: breaker_is_open_def)
  then obtain u where u: "builds rt call b (e # es) = (rt_now rt e, u) # builds rt call (record_trap u b) es"
    using builds_failed Cons.prems(1) by (metis list.set_intros(1))
  show ?case
  proof (cases "?n = 2")
    case True
    then have hot: "three_strikes (record_trap u b)" "2 \<le> unat (tb_consecutive_traps (record_trap u b))"
        "tb_cooldown_until (record_trap u b) = Some (u + 500)"
      using record_trap_hot [OF Cons.prems(2), of u] by simp_all
    have "e \<in> set es \<Longrightarrow> never_starts rt e" for e using Cons.prems(1) by simp
    from builds_hot [OF this hot] show ?thesis unfolding u by (simp add: True) (auto simp: successively_Cons apart_def)
  next
    case False
    with Cons.prems(3) have n: "?n < 2" by simp
    have lt: "\<not> 3 \<le> sat_add (tb_consecutive_traps b) 1" using n by (simp add: word_le_nat_alt unat_sat_add)
    have "successively apart (drop (2 - unat (tb_consecutive_traps (record_trap u b))) (builds rt call (record_trap u b) es))"
    proof (rule Cons.IH)
      show "unat (tb_consecutive_traps (record_trap u b)) \<le> 2" using n by (simp add: unat_traps)
      show "three_strikes (record_trap u b)" "tb_cooldown_until (record_trap u b) = None"
        using Cons.prems(2,4) lt by (simp_all add: record_trap_def Let_def three_strikes_def)
    qed (use Cons.prems(1) in auto)
    moreover have "unat (tb_consecutive_traps (record_trap u b)) = ?n + 1" using n by (simp add: unat_traps)
    moreover have "2 - ?n = Suc (2 - (?n + 1))" using n by simp
    ultimately show ?thesis unfolding u by (simp only: drop_Suc_Cons)
  qed
qed simp

text \<open>
  A filter that cannot start stops costing a start per request.  For any sequence of requests to an
  untrusted filter whose instantiation always fails, after the third build each further build begins at
  least 500 ms after the previous one failed: the requests in between are answered without building.
\<close>

theorem failing_start_backs_off:
  assumes "list_all (never_starts rt) es"
  shows "successively apart (drop 2 (builds rt call (li_untrusted_breaker (loaded_inner_new None)) es))"
  using builds_cold [of es rt "li_untrusted_breaker (loaded_inner_new None)" call] assms
  by (simp add: loaded_inner_new_def trap_breaker_new_def three_strikes_def list_all_iff
      UNTRUSTED_TRAP_BREAKER_THRESHOLD_def UNTRUSTED_TRAP_COOLDOWN_def)

definition broken_runtime :: "(nat, unit) filter_runtime" where
  "broken_runtime =
     \<lparr>rt_now = id, rt_wakeups = (\<lambda>e. []), rt_instantiate_initialized = (\<lambda>e. (e, Inl ''init trapped'')), rt_begin_request = id,
      rt_set_request_deadline = id, rt_take_logs = (\<lambda>i. (i, [])), rt_take_logs_final = (\<lambda>i. (i, []))\<rparr>"

theorem failing_start_backs_off_witness:
  "successively apart (drop 2 (builds broken_runtime (\<lambda>e i. (e, i, Inr ())) (li_untrusted_breaker (loaded_inner_new None))
     [0, 10, 20, 30, 520, 600]))"
  by (rule failing_start_backs_off) (simp add: never_starts_def broken_runtime_def)

end
