(* ===== verification/Pool_Concurrency.thy ===== *)
theory Pool_Concurrency
  imports Instance_Pool "HOL-Library.Multiset"
begin

text \<open>
  Concurrent callers of one trusted pool.  Every step is one section that \<open>host/src/pool.rs\<close> runs under
  the pool's lock (or the build of an instance between two of them), performed by one of the callers;
  the clock reading of a step is arbitrary.  An instance is named by its identity.
\<close>

datatype 'i caller = Outside | Building | BuildFailing | Running "'i pooled_instance"

record 'i pool_state =
  ps_inner :: "'i pool_inner"
  ps_callers :: "'i caller list"

fun held_of :: "'i caller \<Rightarrow> 'i pooled_instance list" where
  "held_of (Running p) = [p]"
| "held_of _ = []"

fun reserving :: "'i caller \<Rightarrow> bool" where
  "reserving Building = True"
| "reserving BuildFailing = True"
| "reserving _ = False"

text \<open>Every instance that exists: idle, or checked out by a caller.\<close>

definition existing :: "'i pool_state \<Rightarrow> 'i pooled_instance multiset" where
  "existing st = mset (pl_idle (ps_inner st)) + (\<Sum>c \<in># mset (ps_callers st). mset (held_of c))"

definition move :: "'i pool_state \<Rightarrow> nat \<Rightarrow> 'i pool_inner \<Rightarrow> 'i caller \<Rightarrow> 'i pool_state" where
  "move st c g x = st\<lparr>ps_inner := g, ps_callers := (ps_callers st)[c := x]\<rparr>"

definition at :: "'i pool_state \<Rightarrow> nat \<Rightarrow> 'i caller \<Rightarrow> bool" where
  "at st c x = (c < length (ps_callers st) \<and> ps_callers st ! c = x)"

inductive pool_step :: "nat \<Rightarrow> u64 \<Rightarrow> 'i pool_state \<Rightarrow> 'i pool_state \<Rightarrow> bool" for cap max_requests where
  use: "at st c Outside \<Longrightarrow> checkout_decide cap now (ps_inner st) = (g, StepUse p)
    \<Longrightarrow> pool_step cap max_requests st (move st c g (Running p))"
| reserve: "at st c Outside \<Longrightarrow> checkout_decide cap now (ps_inner st) = (g, StepBuild)
    \<Longrightarrow> pool_step cap max_requests st (move st c g Building)"
| refuse: "at st c Outside \<Longrightarrow> checkout_decide cap now (ps_inner st) = (g, s) \<Longrightarrow> s = StepUnavailable \<or> s = StepWait
    \<Longrightarrow> pool_step cap max_requests st (move st c g Outside)"
| use_idle: "at st c Outside \<Longrightarrow> checkout_idle cap now (ps_inner st) = (g, Inr p)
    \<Longrightarrow> pool_step cap max_requests st (move st c g (Running p))"
| built: "at st c Building \<Longrightarrow> i \<notin># image_mset pi_instance (existing st)
    \<Longrightarrow> pool_step cap max_requests st (move st c (ps_inner st) (Running \<lparr>pi_instance = i, pi_served = 0\<rparr>))"
| build_error: "at st c Building
    \<Longrightarrow> pool_step cap max_requests st (move st c (build_failed now (ps_inner st)) BuildFailing)"
| unreserve: "at st c BuildFailing
    \<Longrightarrow> pool_step cap max_requests st (move st c (release_slot (ps_inner st)) Outside)"
| build_panic: "at st c Building
    \<Longrightarrow> pool_step cap max_requests st (move st c (release_slot (ps_inner st)) Outside)"
| call_ok: "at st c (Running p)
    \<Longrightarrow> pool_step cap max_requests st (move st c (check_in max_requests (served_once p) (ps_inner st)) Outside)"
| call_trap: "at st c (Running p)
    \<Longrightarrow> pool_step cap max_requests st (move st c (discard now (ps_inner st)) Outside)"
| call_panic: "at st c (Running p)
    \<Longrightarrow> pool_step cap max_requests st (move st c (release_slot (ps_inner st)) Outside)"

definition pool_start :: "nat \<Rightarrow> 'i trusted_pool \<Rightarrow> 'i pool_state" where
  "pool_start n pool = \<lparr>ps_inner = tp_inner pool, ps_callers = replicate n Outside\<rparr>"

subsection \<open>The invariant\<close>

definition pool_inv :: "nat \<Rightarrow> u64 \<Rightarrow> 'i pool_state \<Rightarrow> bool" where
  "pool_inv cap max_requests st \<longleftrightarrow>
     pl_live (ps_inner st) = size (existing st) + tally reserving (ps_callers st)
     \<and> pl_live (ps_inner st) \<le> cap
     \<and> (\<forall>p \<in># existing st. pi_served p < max 1 max_requests)
     \<and> (\<forall>i. count (image_mset pi_instance (existing st)) i \<le> 1)"

lemma existing_move:
  assumes "at st c x"
  shows "existing (move st c g y) + mset (pl_idle (ps_inner st)) + mset (held_of x)
       = existing st + mset (pl_idle g) + mset (held_of y)"
proof -
  let ?cs = "ps_callers st" and ?h = "\<lambda>c. mset (held_of c)"
  from assms have c: "c < length ?cs" "?cs ! c = x" by (auto simp: at_def)
  have "mset (?cs[c := y]) + {#x#} = mset ?cs + {#y#}" using c by (auto simp: mset_update)
  then have "(\<Sum>d \<in># mset (?cs[c := y]). ?h d) + ?h x = (\<Sum>d \<in># mset ?cs. ?h d) + ?h y"
    by (metis (no_types, lifting) image_mset_add_mset image_mset_empty image_mset_union sum_mset.singleton sum_mset.union)
  then show ?thesis by (simp add: existing_def move_def ac_simps)
qed

lemma reserving_move:
  assumes "at st c x"
  shows "tally reserving (ps_callers (move st c g y)) + (if reserving x then 1 else 0)
       = tally reserving (ps_callers st) + (if reserving y then 1 else 0)"
  using assms tally_update [of c "ps_callers st" reserving y] by (auto simp: at_def move_def)

lemma move_inner [simp]: "ps_inner (move st c g y) = g"
  by (simp add: move_def)

text \<open>The four ways a step changes the instances that exist.\<close>

lemma inv_same:
  assumes "pool_inv cap m st" and "existing st' = existing st"
    and "pl_live (ps_inner st') + tally reserving (ps_callers st) = pl_live (ps_inner st) + tally reserving (ps_callers st')"
    and "pl_live (ps_inner st') \<le> cap"
  shows "pool_inv cap m st'"
  using assms by (simp add: pool_inv_def)

lemma inv_add:
  assumes "pool_inv cap m st" and "existing st' = existing st + {#p#}"
    and "pi_instance p \<notin># image_mset pi_instance (existing st)" and "pi_served p < max 1 m"
    and "pl_live (ps_inner st') = pl_live (ps_inner st)"
    and "tally reserving (ps_callers st) = Suc (tally reserving (ps_callers st'))"
  shows "pool_inv cap m st'"
proof -
  from assms(3) have "count (image_mset pi_instance (existing st)) (pi_instance p) = 0" by (simp only: not_in_iff)
  with assms show ?thesis by (auto simp: pool_inv_def)
qed

lemma inv_remove:
  assumes "pool_inv cap m st" and "existing st = existing st' + {#p#}"
    and "pl_live (ps_inner st') = pl_live (ps_inner st) - 1"
    and "tally reserving (ps_callers st') = tally reserving (ps_callers st)"
  shows "pool_inv cap m st'"
proof -
  from assms(1,2) have "count (image_mset pi_instance (existing st')) i \<le> 1" for i
    unfolding pool_inv_def by (metis add_leE count_union image_mset_union)
  with assms show ?thesis by (simp add: pool_inv_def)
qed

lemma inv_replace:
  assumes "pool_inv cap m st" and "existing st' + {#p#} = existing st + {#q#}"
    and "pi_instance q = pi_instance p" and "pi_served q < max 1 m"
    and "pl_live (ps_inner st') = pl_live (ps_inner st)"
    and "tally reserving (ps_callers st') = tally reserving (ps_callers st)"
  shows "pool_inv cap m st'"
proof -
  have "image_mset pi_instance (existing st' + {#p#}) = image_mset pi_instance (existing st + {#q#})"
    by (simp only: assms(2))
  then have im: "image_mset pi_instance (existing st') = image_mset pi_instance (existing st)"
    by (simp add: assms(3))
  have "size (existing st') = size (existing st)" using im by (metis size_image_mset)
  moreover have "pi_served r < max 1 m" if "r \<in># existing st'" for r
  proof -
    from that have "r \<in># existing st + {#q#}" using assms(2) by (metis union_iff)
    with assms(1,4) show ?thesis by (auto simp: pool_inv_def)
  qed
  ultimately show ?thesis using assms(1,5,6) im by (simp add: pool_inv_def)
qed

lemma pop_existing:
  assumes "at st c Outside" and "pl_idle (ps_inner st) \<noteq> []"
    and "pl_idle g = butlast (pl_idle (ps_inner st))"
  shows "existing (move st c g (Running (last (pl_idle (ps_inner st))))) = existing st"
proof -
  let ?idle = "pl_idle (ps_inner st)"
  have "mset ?idle = mset (butlast ?idle) + {#last ?idle#}"
    using append_butlast_last_id [OF assms(2)] by (metis mset.simps(1) mset.simps(2) mset_append add_mset_add_single empty_neutral(1))
  with existing_move [OF assms(1), of g "Running (last ?idle)"] assms(3) show ?thesis by (simp add: ac_simps)
qed

lemma running_existing:
  assumes "at st c (Running p)"
  shows "p \<in># existing st"
proof -
  have "existing st = existing (move st c (ps_inner st) Outside) + {#p#}"
    using existing_move [OF assms, of "ps_inner st" Outside] by (simp add: ac_simps)
  then show ?thesis by (subst \<open>existing st = _\<close>) simp
qed

text \<open>One lemma per kind of step.\<close>

lemma inv_checkout:
  assumes "pool_inv cap m st" and c: "at st c Outside" and d: "checkout_decide cap now (ps_inner st) = (g, s)"
  shows "(case s of StepUse p \<Rightarrow> pool_inv cap m (move st c g (Running p))
    | StepBuild \<Rightarrow> pool_inv cap m (move st c g Building)
    | _ \<Rightarrow> pool_inv cap m (move st c g Outside))"
proof (cases "pl_idle (ps_inner st) = []")
  case False
  with d have g: "g = (ps_inner st)\<lparr>pl_idle := butlast (pl_idle (ps_inner st))\<rparr>" and s: "s = StepUse (last (pl_idle (ps_inner st)))"
    by (auto simp: checkout_decide_def)
  have "existing (move st c g (Running (last (pl_idle (ps_inner st))))) = existing st"
    by (rule pop_existing [OF c False]) (simp add: g)
  from inv_same [OF assms(1) this] reserving_move [OF c, of g "Running (last (pl_idle (ps_inner st)))"] assms(1)
  show ?thesis by (simp add: s g pool_inv_def)
next
  case idle: True
  have same: "existing (move st c g' y) = existing st" if "pl_idle g' = []" "held_of y = []" for g' y
    using existing_move [OF c, of g' y] that idle by simp
  show ?thesis
  proof (cases "s = StepBuild")
    case True
    with d idle have g: "g = (ps_inner st)\<lparr>pl_live := pl_live (ps_inner st) + 1\<rparr>" and lt: "pl_live (ps_inner st) < cap"
      by (auto simp: checkout_decide_def split: if_splits)
    have "existing (move st c g Building) = existing st" by (rule same) (simp_all add: g idle)
    from inv_same [OF assms(1) this] reserving_move [OF c, of g Building] lt show ?thesis by (simp add: True g)
  next
    case False
    with d idle have g: "g = ps_inner st" and s: "s = StepUnavailable \<or> s = StepWait"
      by (auto simp: checkout_decide_def split: if_splits)
    have "existing (move st c g Outside) = existing st" by (rule same) (simp_all add: g idle)
    from inv_same [OF assms(1) this] reserving_move [OF c, of g Outside] assms(1) s
    show ?thesis by (auto simp: g pool_inv_def)
  qed
qed

lemma inv_checkout_idle:
  assumes "pool_inv cap m st" and c: "at st c Outside" and d: "checkout_idle cap now (ps_inner st) = (g, Inr p)"
  shows "pool_inv cap m (move st c g (Running p))"
proof -
  from d have ne: "pl_idle (ps_inner st) \<noteq> []" and g: "g = (ps_inner st)\<lparr>pl_idle := butlast (pl_idle (ps_inner st))\<rparr>"
    and p: "p = last (pl_idle (ps_inner st))"
    by (auto simp: checkout_idle_def split: if_splits)
  have "existing (move st c g (Running p)) = existing st"
    unfolding p by (rule pop_existing [OF c ne]) (simp add: g)
  from inv_same [OF assms(1) this] reserving_move [OF c, of g "Running p"] assms(1)
  show ?thesis by (simp add: g pool_inv_def)
qed

lemma inv_built:
  assumes "pool_inv cap m st" and c: "at st c Building" and "i \<notin># image_mset pi_instance (existing st)"
  shows "pool_inv cap m (move st c (ps_inner st) (Running \<lparr>pi_instance = i, pi_served = 0\<rparr>))"
  using existing_move [OF c, of "ps_inner st" "Running \<lparr>pi_instance = i, pi_served = 0\<rparr>"]
    reserving_move [OF c, of "ps_inner st" "Running \<lparr>pi_instance = i, pi_served = 0\<rparr>"] assms(3)
  by (intro inv_add [OF assms(1)]) (auto simp: ac_simps less_max_iff_disj)

lemma inv_unreserve:
  assumes "pool_inv cap m st" and c: "at st c x" and "reserving x" and "pl_idle g = pl_idle (ps_inner st)"
    and "pl_live g = pl_live (ps_inner st) - (if reserving y then 0 else 1)" and "held_of y = []"
  shows "pool_inv cap m (move st c g y)"
proof -
  from assms(3) have x: "held_of x = []" by (cases x) auto
  have ex: "existing (move st c g y) = existing st" using existing_move [OF c, of g y] assms(4,6) x by simp
  have r: "tally reserving (ps_callers (move st c g y)) + 1 = tally reserving (ps_callers st) + (if reserving y then 1 else 0)"
    using reserving_move [OF c, of g y] assms(3) by simp
  then have "0 < tally reserving (ps_callers st)" if "\<not> reserving y" using that by simp
  with assms(1) have "0 < pl_live (ps_inner st)" if "\<not> reserving y" using that by (simp add: pool_inv_def)
  then show ?thesis using assms(1,5) r by (intro inv_same [OF assms(1) ex]) (auto simp: pool_inv_def)
qed

lemma inv_leave:
  assumes "pool_inv cap m st" and c: "at st c (Running p)" and "pl_idle g = pl_idle (ps_inner st)"
    and "pl_live g = pl_live (ps_inner st) - 1"
  shows "pool_inv cap m (move st c g Outside)"
  using existing_move [OF c, of g Outside] reserving_move [OF c, of g Outside] assms(3,4)
  by (intro inv_remove [OF assms(1), of _ p]) (auto simp: ac_simps)

lemma inv_call_ok:
  assumes "pool_inv cap m st" and c: "at st c (Running p)"
  shows "pool_inv cap m (move st c (check_in m (served_once p) (ps_inner st)) Outside)"
proof (cases "recycles m (served_once p)")
  case True
  then show ?thesis by (intro inv_leave [OF assms]) (simp_all add: check_in_def)
next
  case False
  let ?g = "check_in m (served_once p) (ps_inner st)"
  from False have g: "pl_idle ?g = pl_idle (ps_inner st) @ [served_once p]" "pl_live ?g = pl_live (ps_inner st)"
    by (simp_all add: check_in_def)
  have "pi_served (served_once p) < max 1 m" using False unfolding recycles_def less_max_iff_disj by (simp add: not_le)
  with existing_move [OF c, of ?g Outside] reserving_move [OF c, of ?g Outside] g
  show ?thesis by (intro inv_replace [OF assms(1), of _ p "served_once p"]) (auto simp: ac_simps served_once_def)
qed

lemma pool_step_inv:
  assumes "pool_step cap m st st'" and "pool_inv cap m st"
  shows "pool_inv cap m st'"
  using assms(1)
proof cases
  case (use c now g p)
  with inv_checkout [OF assms(2) use(2,3)] show ?thesis by simp
next
  case (reserve c now g)
  with inv_checkout [OF assms(2) reserve(2,3)] show ?thesis by simp
next
  case (refuse c now g s)
  with inv_checkout [OF assms(2) refuse(2,3)] show ?thesis by auto
next
  case (use_idle c now g p)
  with inv_checkout_idle [OF assms(2) use_idle(2,3)] show ?thesis by simp
next
  case (built c i)
  with inv_built [OF assms(2) built(2,3)] show ?thesis by simp
next
  case (build_error c now)
  show ?thesis unfolding build_error by (rule inv_unreserve [OF assms(2) build_error(2)]) (simp_all add: build_failed_def)
next
  case (unreserve c)
  show ?thesis unfolding unreserve by (rule inv_unreserve [OF assms(2) unreserve(2)]) (simp_all add: release_slot_def)
next
  case (build_panic c)
  show ?thesis unfolding build_panic by (rule inv_unreserve [OF assms(2) build_panic(2)]) (simp_all add: release_slot_def)
next
  case (call_ok c p)
  with inv_call_ok [OF assms(2) call_ok(2)] show ?thesis by simp
next
  case (call_trap c p now)
  show ?thesis unfolding call_trap by (rule inv_leave [OF assms(2) call_trap(2)]) (simp_all add: discard_def)
next
  case (call_panic c p)
  show ?thesis unfolding call_panic by (rule inv_leave [OF assms(2) call_panic(2)]) (simp_all add: release_slot_def)
qed

lemma pool_inv_start: "1 \<le> cap \<Longrightarrow> pool_inv cap m (pool_start n (trusted_pool_new cap timeout m first))"
proof -
  have none: "(\<Sum>c \<in># mset (replicate n Outside). mset (held_of c)) = {#}" by (induction n) auto
  have "existing (pool_start n (trusted_pool_new cap timeout m first)) = {#\<lparr>pi_instance = first, pi_served = 0\<rparr>#}"
    unfolding existing_def pool_start_def pool_state.simps none by (simp add: trusted_pool_new_def)
  moreover have "tally reserving (replicate n Outside) = 0" by (induction n) auto
  ultimately show "1 \<le> cap \<Longrightarrow> ?thesis"
    by (simp add: pool_inv_def pool_start_def trusted_pool_new_def less_max_iff_disj)
qed

lemma pool_reachable_inv:
  assumes "(pool_step cap m)\<^sup>*\<^sup>* st st'" and "pool_inv cap m st"
  shows "pool_inv cap m st'"
  using assms by (induction rule: rtranclp_induct) (auto intro: pool_step_inv)

lemma running_not_idle:
  assumes "pool_inv cap m st" and c: "at st c (Running p)"
  shows "pi_instance p \<notin> pi_instance ` set (pl_idle (ps_inner st))"
proof
  assume "pi_instance p \<in> pi_instance ` set (pl_idle (ps_inner st))"
  then obtain q where q: "q \<in># mset (pl_idle (ps_inner st))" "pi_instance q = pi_instance p" by auto
  let ?E = "existing (move st c (ps_inner st) Outside)"
  have st: "existing st = ?E + {#p#}" using existing_move [OF c, of "ps_inner st" Outside] by (simp add: ac_simps)
  have "q \<in># ?E" using q by (simp add: existing_def)
  then obtain F where "?E = F + {#q#}" by (metis add_mset_add_single multi_member_split)
  with st q(2) have "2 \<le> count (image_mset pi_instance (existing st)) (pi_instance p)" by simp
  with assms(1) show False unfolding pool_inv_def by (metis Suc_1 not_less_eq_eq)
qed

lemma running_unique:
  assumes "pool_inv cap m st" and c: "at st c (Running p)" and d: "at st d (Running q)"
    and "pi_instance p = pi_instance q"
  shows "c = d"
proof (rule ccontr)
  assume "c \<noteq> d"
  let ?s = "move st c (ps_inner st) Outside"
  from d \<open>c \<noteq> d\<close> have d': "at ?s d (Running q)" by (simp add: at_def move_def)
  have 1: "existing st = existing ?s + {#p#}"
    using existing_move [OF c, of "ps_inner st" Outside] by (simp add: ac_simps)
  have 2: "existing ?s = existing (move ?s d (ps_inner st) Outside) + {#q#}"
    using existing_move [OF d', of "ps_inner st" Outside] by (simp add: ac_simps)
  have "2 \<le> count (image_mset pi_instance (existing st)) (pi_instance p)"
    unfolding 1 by (subst 2) (simp add: assms(4))
  with assms(1) show False unfolding pool_inv_def by (metis Suc_1 not_less_eq_eq)
qed

text \<open>
  C23: The pool is bounded and hands an instance to one caller at a time.  From a new pool, whatever any
  number of concurrent callers do -- calls that return, trap or panic, builds that fail or panic -- the
  live count is exactly the instances that exist plus the slots reserved for builds and never exceeds
  the capacity; no instance is held by two callers or both held and idle; and no instance in the pool
  has served the recycling limit.
\<close>

theorem pool_bounded_and_exclusive:
  assumes "1 \<le> cap"
    and "(pool_step cap m)\<^sup>*\<^sup>* (pool_start n (trusted_pool_new cap timeout m first)) st"
  shows "pl_live (ps_inner st) = size (existing st) + tally reserving (ps_callers st)
    \<and> pl_live (ps_inner st) \<le> cap
    \<and> (\<forall>c d p q. at st c (Running p) \<and> at st d (Running q) \<and> pi_instance p = pi_instance q \<longrightarrow> c = d)
    \<and> (\<forall>c p. at st c (Running p) \<longrightarrow> pi_instance p \<notin> pi_instance ` set (pl_idle (ps_inner st)))
    \<and> (\<forall>p \<in> set (pl_idle (ps_inner st)). pi_served p < max 1 m)"
proof -
  have inv: "pool_inv cap m st" by (rule pool_reachable_inv [OF assms(2) pool_inv_start [OF assms(1)]])
  have "pi_served p < max 1 m" if "p \<in> set (pl_idle (ps_inner st))" for p
    using inv that by (auto simp: pool_inv_def existing_def)
  moreover from running_unique [OF inv]
  have "\<forall>c d p q. at st c (Running p) \<and> at st d (Running q) \<and> pi_instance p = pi_instance q \<longrightarrow> c = d" by blast
  ultimately show ?thesis using running_not_idle [OF inv] inv unfolding pool_inv_def by blast
qed

theorem pool_bounded_and_exclusive_witness:
  "\<exists>st. (pool_step 1 10)\<^sup>*\<^sup>* (pool_start 2 (trusted_pool_new 1 100 10 (0::nat))) st
    \<and> at st 0 (Running \<lparr>pi_instance = 0, pi_served = 0\<rparr>) \<and> pl_live (ps_inner st) \<le> 1"
proof -
  let ?st = "pool_start 2 (trusted_pool_new 1 100 10 (0::nat))"
  let ?g = "(ps_inner ?st)\<lparr>pl_idle := []\<rparr>"
  let ?st' = "move ?st 0 ?g (Running \<lparr>pi_instance = 0, pi_served = 0\<rparr>)"
  have "pool_step 1 10 ?st ?st'"
    by (rule pool_step.use [where now = 0]) (simp_all add: at_def pool_start_def checkout_decide_def trusted_pool_new_def)
  then have run: "(pool_step 1 10)\<^sup>*\<^sup>* ?st ?st'" by blast
  moreover have "at ?st' 0 (Running \<lparr>pi_instance = 0, pi_served = 0\<rparr>)" by (simp add: at_def move_def pool_start_def)
  ultimately show ?thesis using pool_bounded_and_exclusive [OF _ run] by auto
qed

end
