(* ===== verification/Loaded_Filter.thy ===== *)
theory Loaded_Filter
  imports Instance_Pool
begin

text \<open>
  A loaded filter end to end: the versioned calls of \<open>host/src/runtime.rs\<close> into a bound guest, run through
  the instance lifecycle of \<open>host/src/pool.rs\<close> by the hooks of \<open>host/src/filter.rs\<close>, as a filter of the
  chain.  The guest's own code is arbitrary: a function of the environment and of its store for each
  export.  The locale \<open>gated_chain\<close> states what the chain relies on -- that every decision has passed the
  output gate -- and the host's filters interpret it.
\<close>

subsection \<open>Versioned calls\<close>

record ('e, 's) frozen_guest =
  fg_on_request :: "'e \<Rightarrow> 's \<Rightarrow> frozen_request \<Rightarrow> 'e \<times> 's \<times> (call_error, request_decision) result"
  fg_on_response :: "'e \<Rightarrow> 's \<Rightarrow> http_response \<Rightarrow> 'e \<times> 's \<times> (call_error, frozen_response_decision) result"
  fg_on_request_body :: "('e \<Rightarrow> 's \<Rightarrow> string \<Rightarrow> 'e \<times> 's \<times> (call_error, frozen_body_decision) result) option"

record ('e, 's) guest_v03 =
  g3_on_request :: "'e \<Rightarrow> 's \<Rightarrow> frozen_request \<Rightarrow> 'e \<times> 's \<times> (call_error, request_decision) result"
  g3_on_response :: "'e \<Rightarrow> 's \<Rightarrow> frozen_request \<Rightarrow> http_response \<Rightarrow> 'e \<times> 's \<times> (call_error, response_decision) result"
  g3_on_request_body :: "('e \<Rightarrow> 's \<Rightarrow> string \<Rightarrow> 'e \<times> 's \<times> (call_error, frozen_body_decision) result) option"

record ('e, 's) guest_v04 =
  g4_on_request :: "'e \<Rightarrow> 's \<Rightarrow> http_request \<Rightarrow> 'e \<times> 's \<times> (call_error, request_decision) result"
  g4_on_response :: "'e \<Rightarrow> 's \<Rightarrow> http_request \<Rightarrow> http_response \<Rightarrow> 'e \<times> 's \<times> (call_error, response_decision) result"
  g4_on_request_body :: "('e \<Rightarrow> 's \<Rightarrow> string \<Rightarrow> 'e \<times> 's \<times> (call_error, request_body_decision) result) option"
  g4_on_response_body ::
    "('e \<Rightarrow> 's \<Rightarrow> http_request \<Rightarrow> http_response \<Rightarrow> string \<Rightarrow> 'e \<times> 's \<times> (call_error, response_body_decision) result) option"

datatype ('e, 's) bound_filter =
    BoundV01 "('e, 's) frozen_guest"
  | BoundV02 "('e, 's) frozen_guest"
  | BoundV03 "('e, 's) guest_v03"
  | BoundV04 "('e, 's) guest_v04"

record ('e, 's) wasmtime_instance =
  wi_store :: 's
  wi_filter :: "('e, 's) bound_filter"

fun contract_version_of :: "('e, 's) bound_filter \<Rightarrow> contract_version" where
  "contract_version_of (BoundV01 _) = V01"
| "contract_version_of (BoundV02 _) = V02"
| "contract_version_of (BoundV03 _) = V03"
| "contract_version_of (BoundV04 _) = V04"

text \<open>The error of the call first, then the adapter; an output the adapter rejects is an error of its own.\<close>

definition admit ::
    "('a \<Rightarrow> 'b option) \<Rightarrow> ('e, 's) wasmtime_instance \<Rightarrow> 'e \<times> 's \<times> (call_error, 'a) result
       \<Rightarrow> 'e \<times> ('e, 's) wasmtime_instance \<times> (call_error, 'b) result" where
  "admit adapter inst res =
     (case res of (e, s, r) \<Rightarrow>
        (e, inst\<lparr>wi_store := s\<rparr>,
         case r of
           Inl err \<Rightarrow> Inl err
         | Inr raw \<Rightarrow> (case adapter raw of Some d \<Rightarrow> Inr d | None \<Rightarrow> Inl InvalidGuestOutput)))"

definition call_on_request ::
    "http_request \<Rightarrow> ('e, ('e, 's) wasmtime_instance, request_decision) guest_call" where
  "call_on_request req e inst =
     (case wi_filter inst of
        BoundV04 g \<Rightarrow> admit request_decision_from_v04 inst (g4_on_request g e (wi_store inst) req)
      | BoundV03 g \<Rightarrow> admit request_decision_from_v03 inst (g3_on_request g e (wi_store inst) (request_to_v03 req))
      | BoundV02 g \<Rightarrow> admit request_decision_from_v02 inst (fg_on_request g e (wi_store inst) (request_to_v02 req))
      | BoundV01 g \<Rightarrow> admit request_decision_from_v01 inst (fg_on_request g e (wi_store inst) (request_to_v01 req)))"

definition call_on_response ::
    "http_request \<Rightarrow> http_response \<Rightarrow> ('e, ('e, 's) wasmtime_instance, response_decision) guest_call" where
  "call_on_response req resp e inst =
     (case wi_filter inst of
        BoundV04 g \<Rightarrow> admit response_decision_from_v04 inst (g4_on_response g e (wi_store inst) req resp)
      | BoundV03 g \<Rightarrow>
          admit response_decision_from_v03 inst
            (g3_on_response g e (wi_store inst) (request_to_v03 req) (response_to_v03 resp))
      | BoundV02 g \<Rightarrow> admit response_decision_from_v02 inst (fg_on_response g e (wi_store inst) (response_to_v02 resp))
      | BoundV01 g \<Rightarrow> admit response_decision_from_v01 inst (fg_on_response g e (wi_store inst) (response_to_v01 resp)))"

definition no_export :: "string \<Rightarrow> ('e, ('e, 's) wasmtime_instance, 'a) guest_call" where
  "no_export msg e inst = (e, inst, Inl (CallError msg))"

definition call_body_hook ::
    "string \<Rightarrow> ('e, ('e, 's) wasmtime_instance, request_body_decision) guest_call" where
  "call_body_hook body e inst =
     (case wi_filter inst of
        BoundV04 g \<Rightarrow>
          (case g4_on_request_body g of
             None \<Rightarrow> no_export ''on-request-body called on a filter without a body export'' e inst
           | Some func \<Rightarrow> admit request_body_decision_from_v04 inst (func e (wi_store inst) body))
      | BoundV03 g \<Rightarrow>
          (case g3_on_request_body g of
             None \<Rightarrow> no_export ''on-request-body called on a filter without a body export'' e inst
           | Some func \<Rightarrow> admit request_body_decision_from_v03 inst (func e (wi_store inst) body))
      | BoundV02 g \<Rightarrow>
          (case fg_on_request_body g of
             None \<Rightarrow> no_export ''on-request-body called on a filter without a body export'' e inst
           | Some func \<Rightarrow> admit request_body_decision_from_v02 inst (func e (wi_store inst) body))
      | BoundV01 g \<Rightarrow>
          (case fg_on_request_body g of
             None \<Rightarrow> no_export ''on-request-body called on a filter without a body export'' e inst
           | Some func \<Rightarrow> admit request_body_decision_from_v01 inst (func e (wi_store inst) body)))"

definition response_body_func ::
    "('e, 's) bound_filter
       \<Rightarrow> ('e \<Rightarrow> 's \<Rightarrow> http_request \<Rightarrow> http_response \<Rightarrow> string \<Rightarrow> 'e \<times> 's \<times> (call_error, response_body_decision) result) option" where
  "response_body_func f = (case f of BoundV04 g \<Rightarrow> g4_on_response_body g | _ \<Rightarrow> None)"

definition call_response_body_hook ::
    "http_request \<Rightarrow> http_response \<Rightarrow> string \<Rightarrow> ('e, ('e, 's) wasmtime_instance, response_body_decision) guest_call" where
  "call_response_body_hook req resp body e inst =
     (case response_body_func (wi_filter inst) of
        None \<Rightarrow> no_export ''on-response-body called on a filter without a response-body export'' e inst
      | Some func \<Rightarrow> admit response_body_decision_from_v04 inst (func e (wi_store inst) req resp body))"

subsection \<open>The filter the chain runs\<close>

text \<open>The world of a chain: the environment, and the lifecycle state of each filter by its id.\<close>

record ('e, 'i) host_world =
  hw_env :: 'e
  hw_inner :: "string \<Rightarrow> 'i loaded_inner"

definition run_loaded ::
    "('e, 'i) filter_runtime \<Rightarrow> string \<Rightarrow> ('e, 'i, 'a) guest_call \<Rightarrow> ('e, 'i) host_world
       \<Rightarrow> ('e, 'i) host_world \<times> (run_error, 'a) result" where
  "run_loaded rt fid call w =
     (case run_hook rt (hw_inner w fid) call (hw_env w) of
        (e, li, r) \<Rightarrow>
          (w\<lparr>hw_env := e, hw_inner := (hw_inner w)(fid := li)\<rparr>,
           case r of Inl (err, logs) \<Rightarrow> Inl err | Inr (v, logs) \<Rightarrow> Inr v))"

definition instance_idle :: "('e, 'i) filter_runtime \<Rightarrow> string \<Rightarrow> ('e, 'i) host_world \<Rightarrow> bool" where
  "instance_idle rt fid w =
     (case li_trusted (hw_inner w fid) of
        None \<Rightarrow> False
      | Some pool \<Rightarrow>
          (case checkout_idle (tp_cap pool) (rt_now rt (hw_env w)) (tp_inner pool) of
             (_, Inr _) \<Rightarrow> True
           | (_, Inl _) \<Rightarrow> False))"

record filter_spec =
  fs_id :: string
  fs_runs_inline :: bool
  fs_body_hooks :: body_hooks

definition host_filter ::
    "('e, ('e, 's) wasmtime_instance) filter_runtime \<Rightarrow> filter_spec
       \<Rightarrow> ('e, ('e, 's) wasmtime_instance) host_world loaded_filter" where
  "host_filter rt spec =
     \<lparr>lf_runs_inline = fs_runs_inline spec,
      lf_idle = instance_idle rt (fs_id spec),
      lf_body_hooks = fs_body_hooks spec,
      lf_on_request = (\<lambda>w req. run_loaded rt (fs_id spec) (call_on_request req) w),
      lf_call_request_body = (\<lambda>w body. run_loaded rt (fs_id spec) (call_body_hook body) w),
      lf_on_response = (\<lambda>w req resp. run_loaded rt (fs_id spec) (call_on_response req resp) w),
      lf_call_response_body =
        (\<lambda>w req resp body. run_loaded rt (fs_id spec) (call_response_body_hook req resp body) w)\<rparr>"

text \<open>
  Running inline takes the same instance the blocking checkout would: when an instance is idle and the
  breaker is closed, both leave the pool in the same state.
\<close>

lemma idle_checkout_agrees:
  assumes "checkout_idle cap (rt_now rt e) g = (g', Inr p)"
  shows "checkout rt cap wakeups e g = (e, g', Inr p)"
  using assms by (subst checkout.simps) (auto simp: checkout_idle_def checkout_decide_def split: if_splits)

subsection \<open>Every decision has passed the gate\<close>

definition header_admitted :: "header \<Rightarrow> bool" where
  "header_admitted h = (well_formed_header h \<and> \<not> is_hop_by_hop_guest_header (h_name h))"

definition sendable :: "http_response \<Rightarrow> bool" where
  "sendable resp =
     (list_all header_admitted (rp_headers resp) \<and> 100 \<le> rp_status resp \<and> rp_status resp \<le> 599
      \<and> length (rp_body resp) \<le> 2 ^ 20)"

fun request_decision_ok :: "request_decision \<Rightarrow> bool" where
  "request_decision_ok RqContinue = True"
| "request_decision_ok (RqModified e) = list_all header_admitted (qe_set_headers e)"
| "request_decision_ok (RqShortCircuit resp) = sendable resp"

fun response_decision_ok :: "response_decision \<Rightarrow> bool" where
  "response_decision_ok RpContinue = True"
| "response_decision_ok (RpModified e) =
     (list_all header_admitted (se_set_headers e) \<and> (case se_set_status e of Some s \<Rightarrow> 100 \<le> s \<and> s \<le> 599 | None \<Rightarrow> True))"
| "response_decision_ok (RpReplace resp) = sendable resp"

fun request_body_decision_ok :: "request_body_decision \<Rightarrow> bool" where
  "request_body_decision_ok QbContinue = True"
| "request_body_decision_ok (QbModified e) = list_all header_admitted (be_set_headers e)"
| "request_body_decision_ok (QbShortCircuit resp) = sendable resp"

fun response_body_decision_ok :: "response_body_decision \<Rightarrow> bool" where
  "response_body_decision_ok PbContinue = True"
| "response_body_decision_ok (PbModified e) =
     (list_all header_admitted (be_set_headers e) \<and> \<not> names_content_length (be_set_headers e))"
| "response_body_decision_ok (PbReplace resp) = (sendable resp \<and> \<not> names_content_length (rp_headers resp))"

lemma admitted_end_to_end: "list_all header_admitted (end_to_end hs) \<longleftrightarrow> list_all well_formed_header (end_to_end hs)"
  by (auto simp: end_to_end_def header_admitted_def list_all_iff)

lemma names_end_to_end: "\<not> names_content_length hs \<Longrightarrow> \<not> names_content_length (end_to_end hs)"
  by (auto simp: names_content_length_def end_to_end_def list_ex_iff)

lemma request_gate_sound: "request_decision_from_v04 q = Some q' \<Longrightarrow> request_decision_ok q'"
  by (cases q) (auto simp: gate_eqs sendable_def admitted_end_to_end split: if_splits)

lemma response_gate_sound: "response_decision_from_v04 p = Some p' \<Longrightarrow> response_decision_ok p'"
  by (cases p) (auto simp: gate_eqs sendable_def admitted_end_to_end split: if_splits)

lemma request_body_gate_sound: "request_body_decision_from_v04 b = Some b' \<Longrightarrow> request_body_decision_ok b'"
  by (cases b) (auto simp: gate_eqs sendable_def admitted_end_to_end split: if_splits)

lemma response_body_gate_sound: "response_body_decision_from_v04 c = Some c' \<Longrightarrow> response_body_decision_ok c'"
  by (cases c) (auto simp: gate_eqs sendable_def admitted_end_to_end names_end_to_end split: if_splits)

lemmas gate_sound = request_gate_sound response_gate_sound request_body_gate_sound response_body_gate_sound

lemma admit_Inr: "admit adapter inst res = (e, i, Inr d) \<Longrightarrow> \<exists>raw. adapter raw = Some d"
  by (auto simp: admit_def split: prod.splits sum.splits option.splits)

lemma calls_gated:
  "call_on_request req e i = (e', i', Inr q) \<Longrightarrow> request_decision_ok q"
  "call_on_response req resp e i = (e', i', Inr p) \<Longrightarrow> response_decision_ok p"
  "call_body_hook body e i = (e', i', Inr b) \<Longrightarrow> request_body_decision_ok b"
  "call_response_body_hook req resp body e i = (e', i', Inr c) \<Longrightarrow> response_body_decision_ok c"
  by (auto simp: call_on_request_def request_tracks split: bound_filter.splits dest!: admit_Inr intro: gate_sound)
    (auto simp: call_on_response_def response_tracks split: bound_filter.splits dest!: admit_Inr intro: gate_sound,
     auto simp: call_body_hook_def body_tracks no_export_def split: bound_filter.splits option.splits
       dest!: admit_Inr intro: gate_sound,
     auto simp: call_response_body_hook_def no_export_def split: option.splits dest!: admit_Inr intro: gate_sound)

text \<open>A value that comes out of the lifecycle came out of the call.\<close>

lemma execute_pooled_value:
  "execute_pooled rt m p call e g = (e', g', Inr (v, logs)) \<Longrightarrow> \<exists>e1 i e2 i2. call e1 i = (e2, i2, Inr v)"
  by (auto simp: execute_pooled_def Let_def split: prod.splits sum.splits if_splits)

lemma run_fresh_value:
  "run_fresh rt b call e = (e', b', Inr (v, logs)) \<Longrightarrow> \<exists>e1 i e2 i2. call e1 i = (e2, i2, Inr v)"
  by (auto simp: run_fresh_def split: prod.splits sum.splits if_splits)

lemma run_hook_value:
  assumes "run_hook rt li call e = (e', li', Inr (v, logs))"
  shows "\<exists>e1 i e2 i2. call e1 i = (e2, i2, Inr v)"
proof (cases "li_trusted li")
  case None
  with assms run_fresh_value [of rt "li_untrusted_breaker li" call e] show ?thesis
    by (auto simp: run_hook_def split: prod.splits)
next
  case (Some pool)
  with assms show ?thesis
    by (auto simp: run_hook_def run_pooled_def split: prod.splits sum.splits dest: execute_pooled_value)
qed

lemma run_loaded_value: "run_loaded rt fid call w = (w', Inr v) \<Longrightarrow> \<exists>e1 i e2 i2. call e1 i = (e2, i2, Inr v)"
  by (auto simp: run_loaded_def split: prod.splits sum.splits dest: run_hook_value)

subsection \<open>A chain of gated filters\<close>

locale gated_chain =
  fixes chain :: "'w loaded_filter list"
  assumes request_gated: "f \<in> set chain \<Longrightarrow> lf_on_request f w r = (w', Inr q) \<Longrightarrow> request_decision_ok q"
    and response_gated: "f \<in> set chain \<Longrightarrow> lf_on_response f w r s = (w', Inr p) \<Longrightarrow> response_decision_ok p"
    and request_body_gated: "f \<in> set chain \<Longrightarrow> lf_call_request_body f w body = (w', Inr b) \<Longrightarrow> request_body_decision_ok b"
    and response_body_gated:
      "f \<in> set chain \<Longrightarrow> lf_call_response_body f w r s body = (w', Inr c) \<Longrightarrow> response_body_decision_ok c"

lemma set_headers_subset: "set (set_headers hs new) \<subseteq> set hs \<union> set new"
  unfolding set_headers_def
proof (induction new arbitrary: hs)
  case (Cons h new)
  have "set (set_header hs h) \<subseteq> insert h (set hs)" by (auto simp: set_header_def)
  with Cons.IH [of "set_header hs h"] show ?case by auto
qed simp

lemma remove_headers_subset: "set (remove_headers hs names) \<subseteq> set hs"
  unfolding remove_headers_def
proof (induction names arbitrary: hs)
  case (Cons n names)
  show ?case using Cons.IH [of "filter (\<lambda>h. \<not> eq_ignore_ascii_case (h_name h) n) hs"] by auto
qed simp

lemma edited_headers:
  "h \<in> set (set_headers (remove_headers hs names) new) \<Longrightarrow> list_all header_admitted new \<Longrightarrow> h \<in> set hs \<or> header_admitted h"
  using set_headers_subset [of "remove_headers hs names" new] remove_headers_subset [of hs names]
  by (auto simp: list_all_iff)

lemma fault_header_name:
  "list_all is_tchar ''x-plecto-fault''" "\<not> is_hop_by_hop_guest_header ''x-plecto-fault''"
  by code_simp+

lemma sendable_fault:
  assumes "list_all is_field_value_byte fault" and "length fault \<le> 8192" and "100 \<le> status" and "status \<le> 599"
    and "length msg \<le> 2 ^ 20"
  shows "sendable (fault_response status fault msg)"
  using assms fault_header_name by (simp add: sendable_def fault_response_def header_admitted_def well_formed_header_def)

lemma fault_sendable_consts:
  "sendable (fault_response 504 ''deadline'' ''filter deadline exceeded'')"
  "sendable (fault_response 502 ''trap'' ''filter trapped'')"
  "sendable (fault_response 502 ''instantiate'' ''filter instantiation failed'')"
  "sendable (fault_response 503 ''unavailable'' ''filter temporarily unavailable'')"
  "sendable (fault_response 502 ''invalid-output'' ''filter returned invalid output'')"
  "sendable oversize_guest_request_body_response" "sendable oversize_guest_body_response"
  unfolding oversize_guest_request_body_response_def oversize_guest_body_response_def
  by (rule sendable_fault, code_simp, simp, simp, simp, simp)+

lemma fault_sendable [simp]:
  "sendable (fail_closed_response err)" "sendable oversize_guest_request_body_response" "sendable oversize_guest_body_response"
  by (cases err; simp only: fail_closed_response_def run_error.case fault_sendable_consts) (rule fault_sendable_consts)+

text \<open>\<open>grown hs hs'\<close>: every header of \<open>hs'\<close> was in \<open>hs\<close> or has passed the gate.\<close>

definition grown :: "header list \<Rightarrow> header list \<Rightarrow> bool" where
  "grown hs hs' = list_all (\<lambda>h. h \<in> set hs \<or> header_admitted h) hs'"

definition length_kept :: "header list \<Rightarrow> header list \<Rightarrow> bool" where
  "length_kept hs hs' = list_all (\<lambda>h. h \<in> set hs \<or> \<not> eq_ignore_ascii_case (h_name h) ''content-length'') hs'"

lemma grown_refl [simp]: "grown hs hs" "length_kept hs hs"
  by (auto simp: grown_def length_kept_def list_all_iff)

lemma grown_trans:
  "grown a b \<Longrightarrow> grown b c \<Longrightarrow> grown a c" "length_kept a b \<Longrightarrow> length_kept b c \<Longrightarrow> length_kept a c"
  by (auto simp: grown_def length_kept_def list_all_iff)

lemma grown_edit: "list_all header_admitted new \<Longrightarrow> grown hs (set_headers (remove_headers hs names) new)"
  unfolding grown_def list_all_iff using edited_headers [of _ hs names new] by (auto simp: list_all_iff)

lemma length_kept_edit: "\<not> names_content_length new \<Longrightarrow> length_kept hs (set_headers (remove_headers hs names) new)"
  using set_headers_subset [of "remove_headers hs names" new] remove_headers_subset [of hs names]
  by (auto simp: length_kept_def names_content_length_def list_all_iff list_ex_iff)

fun request_clean :: "http_request \<Rightarrow> chain_outcome \<Rightarrow> bool" where
  "request_clean r (ChForward r') = (r' = r\<lparr>rq_headers := rq_headers r'\<rparr> \<and> grown (rq_headers r) (rq_headers r'))"
| "request_clean r (ChRespond resp) = sendable resp"

fun response_clean :: "http_response \<Rightarrow> response_outcome \<Rightarrow> bool" where
  "response_clean s (RsForward s') =
     (rp_body s' = rp_body s \<and> grown (rp_headers s) (rp_headers s')
      \<and> (rp_status s' = rp_status s \<or> 100 \<le> rp_status s' \<and> rp_status s' \<le> 599))"
| "response_clean s (RsRespond resp) = sendable resp"

fun request_body_clean :: "header list \<Rightarrow> request_body_outcome \<Rightarrow> bool" where
  "request_body_clean hs (QbForward body hs') = grown hs hs'"
| "request_body_clean hs (QbRespond resp) = sendable resp"

fun response_body_clean :: "header list \<Rightarrow> response_body_outcome \<Rightarrow> bool" where
  "response_body_clean hs (PbForward body hs' transformed) = (grown hs hs' \<and> length_kept hs hs')"
| "response_body_clean hs (PbRespond resp) = sendable resp"

context gated_chain
begin

lemma request_step_clean:
  assumes "f \<in> set chain" and "lf_on_request f w r = (w', res)"
  shows "case handle_request_step r res of StContinue r' \<Rightarrow> request_clean r (ChForward r') | StTerminal out \<Rightarrow> request_clean r out"
proof (cases res)
  case (Inr d)
  then have "request_decision_ok d" using request_gated assms by blast
  then show ?thesis unfolding Inr by (cases d) (auto simp: handle_request_step_def apply_request_edit_def intro: grown_edit)
qed (simp add: handle_request_step_def)

lemma request_loop_clean: "set fs \<subseteq> set chain \<Longrightarrow> request_clean r (snd (request_loop fs w r))"
proof (induction fs arbitrary: w r)
  case (Cons f fs)
  obtain w' res where run: "lf_on_request f w r = (w', res)" by fastforce
  from Cons.prems have f: "f \<in> set chain" and fs: "set fs \<subseteq> set chain" by auto
  note step = request_step_clean [OF f run]
  show ?case
  proof (cases "handle_request_step r res")
    case (StContinue r')
    with step have r': "r' = r\<lparr>rq_headers := rq_headers r'\<rparr>" "grown (rq_headers r) (rq_headers r')" by auto
    have "request_clean r (snd (request_loop fs w' r'))"
    proof (cases "snd (request_loop fs w' r')")
      case (ChForward r2)
      have "request_clean r' (ChForward r2)" using Cons.IH [OF fs, of r' w'] ChForward by simp
      with r' have "r2 = r\<lparr>rq_headers := rq_headers r2\<rparr>" "grown (rq_headers r) (rq_headers r2)"
        by (metis http_request.surjective http_request.update_convs(5) request_clean.simps(1), auto intro: grown_trans)
      with ChForward show ?thesis by simp
    qed (use Cons.IH [OF fs, of r' w'] in auto)
    then show ?thesis by (simp add: run StContinue)
  next
    case (StTerminal out)
    with step show ?thesis by (simp add: run)
  qed
qed simp

lemma response_step_clean:
  assumes "f \<in> set chain" and "lf_on_response f w r s = (w', res)"
  shows "case handle_response_step s res of StContinue s' \<Rightarrow> response_clean s (RsForward s') | StTerminal out \<Rightarrow> response_clean s out"
proof (cases res)
  case (Inr d)
  then have "response_decision_ok d" using response_gated assms by blast
  then show ?thesis unfolding Inr
    by (cases d) (auto simp: handle_response_step_def apply_response_edit_def intro: grown_edit split: option.splits)
qed (simp add: handle_response_step_def)

lemma response_loop_clean: "set fs \<subseteq> set chain \<Longrightarrow> response_clean s (snd (response_loop fs w r s))"
proof (induction fs arbitrary: w s)
  case (Cons f fs)
  obtain w' res where run: "lf_on_response f w r s = (w', res)" by fastforce
  from Cons.prems have f: "f \<in> set chain" and fs: "set fs \<subseteq> set chain" by auto
  note step = response_step_clean [OF f run]
  show ?case
  proof (cases "handle_response_step s res")
    case (StContinue s')
    with step have "response_clean s (RsForward s')" by simp
    with Cons.IH [OF fs, of s' w'] have "response_clean s (snd (response_loop fs w' r s'))"
      by (cases "snd (response_loop fs w' r s')") (auto intro: grown_trans)
    then show ?thesis by (simp add: run StContinue)
  next
    case (StTerminal out)
    with step show ?thesis by (simp add: run)
  qed
qed simp

lemma request_body_clean_run: "set fs \<subseteq> set chain \<Longrightarrow> request_body_clean hs (snd (dispatch_request_body fs w body hs))"
proof (induction fs arbitrary: w body hs)
  case (Cons f fs)
  obtain w' res where run: "on_request_body f w body = (w', res)" by fastforce
  from Cons.prems have f: "f \<in> set chain" and fs: "set fs \<subseteq> set chain" by auto
  show ?case
  proof (cases res)
    case (Inr d)
    have "request_body_decision_ok d"
      using run request_body_gated [OF f] Inr by (auto simp: on_request_body_def split: if_splits)
    moreover have "request_body_clean hs (snd (dispatch_request_body fs w' b hs'))" if "grown hs hs'" for b hs'
      using Cons.IH [OF fs, of hs' w' b] that by (cases "snd (dispatch_request_body fs w' b hs')") (auto intro: grown_trans)
    ultimately show ?thesis using run Inr by (cases d) (auto simp: apply_body_edit_def intro: grown_edit)
  qed (simp add: run)
qed simp

lemma response_body_clean_run:
  "set fs \<subseteq> set chain \<Longrightarrow> response_body_clean (rp_headers s) (snd (response_body_loop fs w r s body m t))"
proof (induction fs arbitrary: w s body t)
  case (Cons f fs)
  obtain w' res where run: "on_response_body f w r s body = (w', res)" by fastforce
  from Cons.prems have f: "f \<in> set chain" and fs: "set fs \<subseteq> set chain" by auto
  show ?case
  proof (cases res)
    case (Inr d)
    have ok: "response_body_decision_ok d"
      using run response_body_gated [OF f] Inr by (auto simp: on_response_body_def split: if_splits)
    have go: "response_body_clean (rp_headers s) (snd (response_body_loop fs w' r s' b m t'))"
      if "grown (rp_headers s) (rp_headers s')" "length_kept (rp_headers s) (rp_headers s')" for s' b t'
      using Cons.IH [OF fs, of s' w' b t'] that
      by (cases "snd (response_body_loop fs w' r s' b m t')") (auto intro: grown_trans)
    show ?thesis using ok run Inr by (cases d) (auto simp: apply_body_edit_def intro!: go grown_edit length_kept_edit)
  qed (simp add: run)
qed simp

end

interpretation host: gated_chain "map (host_filter rt) specs" for rt specs
  by unfold_locales (auto simp: host_filter_def dest!: run_loaded_value intro: calls_gated)

text \<open>
  C4: A guest cannot inject into a request.  For a chain of any guests on any contract tracks, through any
  lifecycle, the request that is forwarded differs from the client's only in its headers; every header
  that was not the client's has a token name and a value free of control bytes, within the length
  limits, and is not hop-by-hop; and a response sent instead is well-formed in the same sense, with a
  status of 100 to 599 and a body of at most 1 MiB.  The same holds of the headers a body hook adds.
\<close>

theorem guest_request_output_gated:
  "request_clean req (snd (dispatch_request (map (host_filter rt) specs) w req))
   \<and> request_body_clean hs (snd (dispatch_request_body (map (host_filter rt) specs) w body hs))"
  using host.request_loop_clean [of "map (host_filter rt) specs" rt specs req w]
    host.request_body_clean_run [of "map (host_filter rt) specs" rt specs hs w body]
  by (simp add: dispatch_request_def dispatch_request_from_def)


end
