(* ===== verification/Proxy_Protocol.thy ===== *)
theory Proxy_Protocol
  imports Net_Addr Plecto_Strings
begin

text \<open>
  Restoration of the client address: the trust declarations of \<open>control/src/manifest/listen.rs\<close> and the
  PROXY protocol v2 receiver of \<open>server/src/proxy_protocol.rs\<close>.  Networks in CIDR notation belong to the
  \<open>ipnet\<close> crate; parsing one and testing membership are arguments.  A connection is the bytes its peer
  sends before it stops, and whether it then closes or stalls until the deadline; a peek sees some number
  of those bytes.
\<close>

subsection \<open>Trust declarations\<close>

record listen_section =
  ls_addr :: "string option"
  ls_advertised_port :: "u16 option"
  ls_proxy_protocol :: "string list option"
  ls_drain :: "(u64 option \<times> u64 option) option"
  ls_client_auth :: "string option"
  ls_trusted_proxy :: "string list option"

definition content_hash_exempt :: "listen_section \<Rightarrow> bool" where
  "content_hash_exempt l = (ls_client_auth l = None)"

definition restart_only_fields :: "listen_section \<Rightarrow> string list" where
  "restart_only_fields l =
     map fst (filter snd
       [(''[listen].addr'', ls_addr l \<noteq> None),
        (''[listen].advertised_port'', ls_advertised_port l \<noteq> None),
        (''[listen].proxy_protocol'', ls_proxy_protocol l \<noteq> None),
        (''[listen].drain'', ls_drain l \<noteq> None),
        (''[listen].trusted_proxy'', ls_trusted_proxy l \<noteq> None)])"

datatype listen_error = NoCidr string | InvalidCidr string string

definition nets_contain :: "('n \<Rightarrow> ip_addr \<Rightarrow> bool) \<Rightarrow> 'n list \<Rightarrow> ip_addr \<Rightarrow> bool" where
  "nets_contain net_contains nets ip = list_ex (\<lambda>net. net_contains net (unmap_v4 ip)) nets"

fun parse_cidrs :: "(string \<Rightarrow> 'n option) \<Rightarrow> string \<Rightarrow> string list \<Rightarrow> (listen_error, 'n list) result" where
  "parse_cidrs parse_net field [] = Inr []"
| "parse_cidrs parse_net field (s # ss) =
     (case parse_net s of
        None \<Rightarrow> Inl (InvalidCidr field s)
      | Some net \<Rightarrow> (case parse_cidrs parse_net field ss of Inl err \<Rightarrow> Inl err | Inr nets \<Rightarrow> Inr (net # nets)))"

definition parse_trusted_cidrs :: "(string \<Rightarrow> 'n option) \<Rightarrow> string \<Rightarrow> string list \<Rightarrow> (listen_error, 'n list) result" where
  "parse_trusted_cidrs parse_net field trusted =
     (if trusted = [] then Inl (NoCidr field) else parse_cidrs parse_net field trusted)"

definition proxy_protocol_trust :: "(string \<Rightarrow> 'n option) \<Rightarrow> listen_section \<Rightarrow> (listen_error, 'n list option) result" where
  "proxy_protocol_trust parse_net l =
     (case ls_proxy_protocol l of
        None \<Rightarrow> Inr None
      | Some trusted \<Rightarrow> map_sum id Some (parse_trusted_cidrs parse_net ''proxy_protocol.trusted'' trusted))"

definition trusted_proxy_trust :: "(string \<Rightarrow> 'n option) \<Rightarrow> listen_section \<Rightarrow> (listen_error, 'n list option) result" where
  "trusted_proxy_trust parse_net l =
     (case ls_trusted_proxy l of
        None \<Rightarrow> Inr None
      | Some trusted \<Rightarrow> map_sum id Some (parse_trusted_cidrs parse_net ''trusted_proxy.trusted'' trusted))"

definition validate_listen :: "(string \<Rightarrow> 'n option) \<Rightarrow> listen_section \<Rightarrow> (listen_error, unit) result" where
  "validate_listen parse_net l =
     (case proxy_protocol_trust parse_net l of
        Inl err \<Rightarrow> Inl err
      | Inr _ \<Rightarrow> (case trusted_proxy_trust parse_net l of Inl err \<Rightarrow> Inl err | Inr _ \<Rightarrow> Inr ()))"

subsection \<open>The parser\<close>

definition SIGNATURE :: bytes where
  "SIGNATURE = [0x0D, 0x0A, 0x0D, 0x0A, 0, 0x0D, 0x0A, 0x51, 0x55, 0x49, 0x54, 0x0A]"

definition PREFIX_LEN :: nat where
  "PREFIX_LEN = 16"

definition MAX_DECLARED_LEN :: nat where
  "MAX_DECLARED_LEN = 2048"

type_synonym socket_addr = "ip_addr \<times> u16"

datatype proxy_v2 = LocalCmd | ProxyCmd socket_addr

datatype parsed = Complete proxy_v2 nat | Incomplete nat

datatype proxy_v2_error =
    BadSignature
  | BadVersion u8
  | BadCommand u8
  | UnsupportedFamilyProtocol u8
  | DeclaredLenTooLarge nat
  | AddressBlockTooShort nat nat

definition slice :: "nat \<Rightarrow> nat \<Rightarrow> bytes \<Rightarrow> bytes option" where
  "slice a b xs = (if a \<le> b \<and> b \<le> length xs then Some (take (b - a) (drop a xs)) else None)"

definition parse_src_v4 :: "bytes \<Rightarrow> socket_addr option" where
  "parse_src_v4 block =
     (case (slice 0 4 block, slice 8 10 block) of
        (Some ip, Some port) \<Rightarrow> Some (V4 ip, of_be_bytes port)
      | _ \<Rightarrow> None)"

definition parse_src_v6 :: "bytes \<Rightarrow> socket_addr option" where
  "parse_src_v6 block =
     (case (slice 0 16 block, slice 32 34 block) of
        (Some ip, Some port) \<Rightarrow> Some (V6 ip, of_be_bytes port)
      | _ \<Rightarrow> None)"

definition parse_proxy_v2 :: "bytes \<Rightarrow> (proxy_v2_error, parsed) result" where
  "parse_proxy_v2 buf =
     (let sig_seen = min (length buf) (length SIGNATURE)
      in if take sig_seen buf \<noteq> take sig_seen SIGNATURE then Inl BadSignature
         else if length buf < 16 then Inr (Incomplete PREFIX_LEN)
         else
           let ver_cmd = buf ! 12; fam_proto = buf ! 13; declared = unat (of_be_bytes [buf ! 14, buf ! 15] :: u16)
           in if drop_bit 4 ver_cmd \<noteq> 2 then Inl (BadVersion ver_cmd)
              else if MAX_DECLARED_LEN < declared then Inl (DeclaredLenTooLarge declared)
              else
                let needed = PREFIX_LEN + declared
                in if ver_cmd AND 0x0F = 0 then
                     (if length buf < needed then Inr (Incomplete needed) else Inr (Complete LocalCmd needed))
                   else if ver_cmd AND 0x0F = 1 then
                     (if fam_proto \<noteq> 0x11 \<and> fam_proto \<noteq> 0x21 then Inl (UnsupportedFamilyProtocol fam_proto)
                      else
                        let need = (if fam_proto = 0x11 then 12 else 36)
                        in if declared < need then Inl (AddressBlockTooShort declared need)
                           else if length buf < needed then Inr (Incomplete needed)
                           else
                             let block = (case slice PREFIX_LEN (PREFIX_LEN + need) buf of Some b \<Rightarrow> b | None \<Rightarrow> [])
                             in (case (if fam_proto = 0x11 then parse_src_v4 block else parse_src_v6 block) of
                                   None \<Rightarrow> Inl (AddressBlockTooShort declared need)
                                 | Some src \<Rightarrow> Inr (Complete (ProxyCmd src) needed)))
                   else Inl (BadCommand ver_cmd))"

subsection \<open>The receiver\<close>

datatype proxy_fault = HeaderFault proxy_v2_error | UntrustedHeader | Truncated | DeadlinePassed

record connection =
  cx_bytes :: bytes
  cx_closes :: bool

definition read_exact :: "nat \<Rightarrow> connection \<Rightarrow> (proxy_fault, bytes \<times> connection) result" where
  "read_exact n s =
     (if n \<le> length (cx_bytes s) then Inr (take n (cx_bytes s), s\<lparr>cx_bytes := drop n (cx_bytes s)\<rparr>)
      else Inl (if cx_closes s then Truncated else DeadlinePassed))"

lemma read_exact_shorter:
  "read_exact n s = Inr (tail, s') \<Longrightarrow> 0 < n \<Longrightarrow> length (cx_bytes s') < length (cx_bytes s)"
  by (auto simp: read_exact_def split: if_splits)

function read_header_loop :: "socket_addr \<Rightarrow> bytes \<Rightarrow> connection \<Rightarrow> (proxy_fault, socket_addr \<times> connection) result" where
  "read_header_loop peer buf s =
     (case parse_proxy_v2 buf of
        Inl err \<Rightarrow> Inl (HeaderFault err)
      | Inr (Complete LocalCmd _) \<Rightarrow> Inr (peer, s)
      | Inr (Complete (ProxyCmd src) _) \<Rightarrow> Inr (src, s)
      | Inr (Incomplete needed) \<Rightarrow>
          if needed \<le> length buf then Inl Truncated
          else (case read_exact (needed - length buf) s of
                  Inl fault \<Rightarrow> Inl fault
                | Inr (tail, s') \<Rightarrow> read_header_loop peer (buf @ tail) s'))"
  by pat_completeness auto
termination
  by (relation "measure (\<lambda>(peer, buf, s). length (cx_bytes s))") (auto dest: read_exact_shorter)

declare read_header_loop.simps [simp del]

definition read_trusted_header :: "connection \<Rightarrow> socket_addr \<Rightarrow> (proxy_fault, socket_addr \<times> connection) result" where
  "read_trusted_header s peer =
     (case read_exact PREFIX_LEN s of Inl fault \<Rightarrow> Inl fault | Inr (buf, s') \<Rightarrow> read_header_loop peer buf s')"

text \<open>
  The peeks of an untrusted connection, each given by the number of buffered bytes it finds (zero: the
  peer has closed); past the last one the deadline passes.
\<close>

fun detect_untrusted_header :: "connection \<Rightarrow> nat list \<Rightarrow> socket_addr \<Rightarrow> (proxy_fault, socket_addr) result" where
  "detect_untrusted_header s [] peer = Inl DeadlinePassed"
| "detect_untrusted_header s (seen # looks) peer =
     (let probe = take (min seen (length SIGNATURE)) (cx_bytes s); n = length probe
      in if n = 0 then Inl Truncated
         else if probe \<noteq> take n SIGNATURE then Inr peer
         else if length SIGNATURE \<le> n then Inl UntrustedHeader
         else detect_untrusted_header s looks peer)"

definition resolve_peer ::
    "('n \<Rightarrow> ip_addr \<Rightarrow> bool) \<Rightarrow> 'n list \<Rightarrow> connection \<Rightarrow> nat list \<Rightarrow> socket_addr
       \<Rightarrow> (proxy_fault, socket_addr \<times> connection) result" where
  "resolve_peer net_contains trusted s looks peer =
     (if nets_contain net_contains trusted (fst peer) then read_trusted_header s peer
      else case detect_untrusted_header s looks peer of Inl fault \<Rightarrow> Inl fault | Inr p \<Rightarrow> Inr (p, s))"

subsection \<open>The headers of the specification\<close>

text \<open>
  A version 2 header: the signature, version and command, family and protocol, the length of the
  payload, and the payload -- for a proxied connection the two addresses, the two ports, and whatever
  follows them.
\<close>

definition v2_frame :: "u8 \<Rightarrow> u8 \<Rightarrow> bytes \<Rightarrow> bytes" where
  "v2_frame ver_cmd fam_proto payload =
     SIGNATURE @ [ver_cmd, fam_proto] @ be_bytes 2 (word_of_nat (length payload) :: u16) @ payload"

definition address_block :: "ip_addr \<Rightarrow> u16 \<Rightarrow> bytes \<Rightarrow> bytes \<Rightarrow> bytes \<Rightarrow> bytes" where
  "address_block ip port dst dst_port extra =
     (case ip of V4 o4 \<Rightarrow> o4 | V6 o6 \<Rightarrow> o6) @ dst @ be_bytes 2 port @ dst_port @ extra"

definition v2_header :: "proxy_v2 \<Rightarrow> bytes \<Rightarrow> bool" where
  "v2_header d hdr \<longleftrightarrow>
     (case d of
        LocalCmd \<Rightarrow> \<exists>fam payload. hdr = v2_frame 0x20 fam payload \<and> length payload \<le> 2048
      | ProxyCmd (ip, port) \<Rightarrow>
          ip_ok ip
          \<and> (\<exists>dst dst_port extra.
               length dst = (case ip of V4 _ \<Rightarrow> 4 | V6 _ \<Rightarrow> 16) \<and> length dst_port = 2
               \<and> length (address_block ip port dst dst_port extra) \<le> 2048
               \<and> hdr = v2_frame 0x21 (case ip of V4 _ \<Rightarrow> 0x11 | V6 _ \<Rightarrow> 0x21)
                         (address_block ip port dst dst_port extra)))"

lemma sig_len [simp]: "length SIGNATURE = 12"
  by (simp add: SIGNATURE_def)

lemma length_v2_frame [simp]: "length (v2_frame vc fam payload) = 16 + length payload"
  by (simp add: v2_frame_def)

lemma frame_nth:
  "v2_frame vc fam payload ! 12 = vc" "v2_frame vc fam payload ! 13 = fam"
  "[v2_frame vc fam payload ! 14, v2_frame vc fam payload ! 15] = be_bytes 2 (word_of_nat (length payload) :: u16)"
proof -
  show "v2_frame vc fam payload ! 12 = vc" "v2_frame vc fam payload ! 13 = fam"
    "[v2_frame vc fam payload ! 14, v2_frame vc fam payload ! 15] = be_bytes 2 (word_of_nat (length payload) :: u16)"
    by (simp_all add: v2_frame_def SIGNATURE_def be_bytes_two)
qed

lemma frame_declared:
  assumes "length payload \<le> 2048"
  shows "unat (of_be_bytes [v2_frame vc fam payload ! 14, v2_frame vc fam payload ! 15] :: u16) = length payload"
  unfolding frame_nth(3) of_be_bytes_16 using assms by (simp add: unat_of_nat)

lemma ver_cmd_split: "drop_bit 4 vc = 2 \<and> vc AND 0x0F = c \<longleftrightarrow> vc = (0x20 OR c :: u8)" if "c = 0 \<or> c = 1"
proof
  assume a: "drop_bit 4 vc = 2 \<and> vc AND 0x0F = c"
  have "vc = push_bit 4 (drop_bit 4 vc) OR take_bit 4 vc" by (rule bit_word_eqI) (auto simp: bit_simps)
  also have "take_bit 4 vc = vc AND 0x0F" by (simp add: take_bit_eq_mask mask_numeral)
  finally show "vc = 0x20 OR c" using a by simp
next
  assume "vc = 0x20 OR c"
  then show "drop_bit 4 vc = 2 \<and> vc AND 0x0F = c" using that by auto
qed

subsection \<open>The parser on the fields\<close>

text \<open>The verdict as a function of the fields of the fixed prefix and the bytes after it.\<close>

definition verdict :: "u8 \<Rightarrow> u8 \<Rightarrow> nat \<Rightarrow> bytes \<Rightarrow> (proxy_v2_error, parsed) result" where
  "verdict vc fam declared rest =
     (if drop_bit 4 vc \<noteq> 2 then Inl (BadVersion vc)
      else if 2048 < declared then Inl (DeclaredLenTooLarge declared)
      else if vc AND 0x0F = 0 then
        (if length rest < declared then Inr (Incomplete (16 + declared)) else Inr (Complete LocalCmd (16 + declared)))
      else if vc AND 0x0F = 1 then
        (if fam = 0x11 then
           (if declared < 12 then Inl (AddressBlockTooShort declared 12)
            else if length rest < declared then Inr (Incomplete (16 + declared))
            else Inr (Complete (ProxyCmd (V4 (take 4 rest), of_be_bytes (take 2 (drop 8 rest)))) (16 + declared)))
         else if fam = 0x21 then
           (if declared < 36 then Inl (AddressBlockTooShort declared 36)
            else if length rest < declared then Inr (Incomplete (16 + declared))
            else Inr (Complete (ProxyCmd (V6 (take 16 rest), of_be_bytes (take 2 (drop 32 rest)))) (16 + declared)))
         else Inl (UnsupportedFamilyProtocol fam))
      else Inl (BadCommand vc))"

lemma block_slice:
  assumes "length pre = 16" and "need \<le> length rest"
  shows "slice 16 (16 + need) (pre @ rest) = Some (take need rest)"
  using assms by (simp add: slice_def)

lemma parse_src_blocks:
  "12 \<le> length rest \<Longrightarrow> parse_src_v4 (take 12 rest) = Some (V4 (take 4 rest), of_be_bytes (take 2 (drop 8 rest)))"
  "36 \<le> length rest \<Longrightarrow> parse_src_v6 (take 36 rest) = Some (V6 (take 16 rest), of_be_bytes (take 2 (drop 32 rest)))"
  by (simp_all add: parse_src_v4_def parse_src_v6_def slice_def drop_take)

lemma parse_frame:
  "parse_proxy_v2 (SIGNATURE @ [vc, fam, h, l] @ rest) = verdict vc fam (unat (of_be_bytes [h, l] :: u16)) rest"
proof -
  let ?buf = "SIGNATURE @ [vc, fam, h, l] @ rest"
  have nth: "?buf ! 12 = vc" "?buf ! 13 = fam" "?buf ! 14 = h" "?buf ! 15 = l" by (simp_all add: SIGNATURE_def)
  have sig: "take (min (length ?buf) (length SIGNATURE)) ?buf = take (min (length ?buf) (length SIGNATURE)) SIGNATURE" by simp
  have len: "length ?buf = 16 + length rest" by simp
  have sl: "slice 16 (16 + need) ?buf = Some (take need rest)" if "need \<le> length rest" for need
    using block_slice [of "SIGNATURE @ [vc, fam, h, l]" need rest] that by simp
  show ?thesis
    unfolding parse_proxy_v2_def Let_def nth sig len PREFIX_LEN_def MAX_DECLARED_LEN_def verdict_def
    using sl [of 12] sl [of 36] parse_src_blocks [of rest] by (auto simp: not_less)
qed

lemma four_bytes:
  assumes "length xs = 4"
  obtains a b c d where "xs = [a, b, c, d]"
  using assms by (auto simp: numeral_eq_Suc length_Suc_conv)

lemma parse_cases:
  obtains "parse_proxy_v2 buf = Inl BadSignature" "\<And>later. parse_proxy_v2 (buf @ later) = Inl BadSignature"
  | "length buf < 16" "parse_proxy_v2 buf = Inr (Incomplete 16)"
  | vc fam h l rest where "buf = SIGNATURE @ [vc, fam, h, l] @ rest"
proof -
  let ?k = "min (length buf) 12"
  show thesis
  proof (cases "take ?k buf = take ?k SIGNATURE")
    case False
    have "take (min (length (buf @ later)) 12) (buf @ later) \<noteq> take (min (length (buf @ later)) 12) SIGNATURE" for later
    proof
      assume "take (min (length (buf @ later)) 12) (buf @ later) = take (min (length (buf @ later)) 12) SIGNATURE"
      then have "take ?k (take (min (length (buf @ later)) 12) (buf @ later)) = take ?k (take (min (length (buf @ later)) 12) SIGNATURE)"
        by simp
      with False show False by (simp add: min_def split: if_splits)
    qed
    from that(1) this this [of "[]"] show thesis by (simp add: parse_proxy_v2_def)
  next
    case True
    show thesis
    proof (cases "length buf < 16")
      case short: True
      with True show thesis by (intro that(2)) (simp_all add: parse_proxy_v2_def PREFIX_LEN_def)
    next
      case False
      then have "length (take 4 (drop 12 buf)) = 4" by simp
      then obtain vc fam h l where d: "take 4 (drop 12 buf) = [vc, fam, h, l]" by (rule four_bytes)
      have "buf = take 12 buf @ take 4 (drop 12 buf) @ drop 4 (drop 12 buf)" by (simp only: append_take_drop_id)
      moreover have "take 12 buf = SIGNATURE" using True False by (simp add: min_def)
      ultimately show thesis using that(3) d by metis
    qed
  qed
qed

lemma verdict_more:
  "case verdict vc fam n rest of
     Inl err \<Rightarrow> verdict vc fam n (rest @ later) = Inl err
   | Inr (Complete d k) \<Rightarrow> verdict vc fam n (rest @ later) = Inr (Complete d k) \<and> k \<le> 16 + length rest
   | Inr (Incomplete k) \<Rightarrow> 16 + length rest < k \<and> k \<le> 2064"
  by (auto simp: verdict_def)

lemma parse_v2_frame:
  assumes "length payload \<le> 2048"
  shows "parse_proxy_v2 (v2_frame vc fam payload @ rest) = verdict vc fam (length payload) (payload @ rest)"
proof -
  let ?w = "word_of_nat (length payload) :: u16"
  have "v2_frame vc fam payload @ rest = SIGNATURE @ [vc, fam, ucast (drop_bit 8 ?w), ucast ?w] @ payload @ rest"
    by (simp add: v2_frame_def be_bytes_two)
  moreover have "(of_be_bytes [ucast (drop_bit 8 ?w), ucast ?w] :: u16) = ?w"
    using of_be_bytes_16 [of ?w] unfolding be_bytes_two .
  moreover have "unat ?w = length payload" using assms by (simp add: unat_of_nat)
  ultimately show ?thesis using parse_frame [of vc fam] by metis
qed

lemma frame_of_bytes:
  assumes "declared = unat (of_be_bytes [h, l] :: u16)" and "declared \<le> length rest"
  shows "SIGNATURE @ [vc, fam, h, l] @ rest = v2_frame vc fam (take declared rest) @ drop declared rest"
proof -
  have "(word_of_nat declared :: u16) = of_be_bytes [h, l]" unfolding assms(1) by simp
  then show ?thesis using assms(2) by (simp add: v2_frame_def be_bytes_of_be_bytes)
qed

lemma take_block:
  "take (n + (n + (2 + (2 + k)))) rest = take n rest @ take n (drop n rest) @ take 2 (drop (n + n) rest)
     @ take 2 (drop (2 + (n + n)) rest) @ take k (drop (2 + (2 + (n + n))) rest)"
  by (simp only: take_add drop_drop)

lemma two_bytes:
  assumes "length xs = 2"
  shows "be_bytes 2 (of_be_bytes xs :: u16) = xs"
proof -
  from assms obtain a b where "xs = [a, b]" by (auto simp: numeral_eq_Suc length_Suc_conv)
  then show ?thesis by (simp add: be_bytes_of_be_bytes)
qed

lemma block_of_bytes:
  assumes "n + n + 4 \<le> declared" and "declared \<le> length rest"
  obtains dst dst_port extra where "length dst = n" and "length dst_port = 2" and "length (take n rest) = n"
    and "take declared rest = take n rest @ dst @ be_bytes 2 (of_be_bytes (take 2 (drop (n + n) rest)) :: u16) @ dst_port @ extra"
proof -
  have port: "be_bytes 2 (of_be_bytes (take 2 (drop (n + n) rest)) :: u16) = take 2 (drop (n + n) rest)"
    by (rule two_bytes) (use assms in simp)
  have e: "declared = n + (n + (2 + (2 + (declared - (n + n + 4)))))" using assms(1) by linarith
  note split = take_block [of n "declared - (n + n + 4)" rest, folded e]
  show thesis
    by (rule that [of "take n (drop n rest)" "take 2 (drop (2 + (n + n)) rest)"
          "take (declared - (n + n + 4)) (drop (2 + (2 + (n + n))) rest)"]) (use assms split in \<open>simp_all add: port\<close>)
qed

lemma v2_header_proxyI:
  assumes "payload = address_block ip port dst dst_port extra" and "length payload \<le> 2048" and "ip_ok ip"
    and "length dst = (case ip of V4 _ \<Rightarrow> 4 | V6 _ \<Rightarrow> 16)" and "length dst_port = 2"
    and "fam = (case ip of V4 _ \<Rightarrow> 0x11 | V6 _ \<Rightarrow> 0x21)"
  shows "v2_header (ProxyCmd (ip, port)) (v2_frame 0x21 fam payload)"
  using assms unfolding v2_header_def by auto

lemma parse_complete_header:
  assumes "parse_proxy_v2 buf = Inr (Complete d n)"
  shows "\<exists>hdr rest. buf = hdr @ rest \<and> length hdr = n \<and> v2_header d hdr"
proof -
  from assms obtain vc fam h l rest where buf: "buf = SIGNATURE @ [vc, fam, h, l] @ rest"
    by (cases buf rule: parse_cases) auto
  define declared where "declared = unat (of_be_bytes [h, l] :: u16)"
  have v: "verdict vc fam declared rest = Inr (Complete d n)" using assms unfolding buf parse_frame declared_def .
  then have dec: "declared \<le> 2048" "declared \<le> length rest" and n: "n = 16 + declared" and vc: "drop_bit 4 vc = 2"
    by (auto simp: verdict_def split: if_splits)
  have buf': "buf = v2_frame vc fam (take declared rest) @ drop declared rest"
    unfolding buf by (rule frame_of_bytes [OF declared_def dec(2)])
  have len: "length (v2_frame vc fam (take declared rest)) = n" using dec(2) n by simp
  have "v2_header d (v2_frame vc fam (take declared rest))"
  proof (cases d)
    case LocalCmd
    with v have "vc AND 0x0F = 0" by (auto simp: verdict_def split: if_splits)
    with vc ver_cmd_split [of 0 vc] have "vc = 0x20" by simp
    with LocalCmd dec show ?thesis
      unfolding v2_header_def by (auto intro!: exI [of _ fam] exI [of _ "take declared rest"])
  next
    case (ProxyCmd src)
    with v have "vc AND 0x0F = 1" by (auto simp: verdict_def split: if_splits)
    with vc ver_cmd_split [of 1 vc] have vc: "vc = 0x21" by simp
    from v ProxyCmd consider
        "fam = 0x11" "4 + 4 + 4 \<le> declared" "src = (V4 (take 4 rest), of_be_bytes (take 2 (drop (4 + 4) rest)))"
      | "fam = 0x21" "16 + 16 + 4 \<le> declared" "src = (V6 (take 16 rest), of_be_bytes (take 2 (drop (16 + 16) rest)))"
      by (auto simp: verdict_def split: if_splits)
    then show ?thesis
    proof cases
      case 1
      obtain dst dst_port extra where b: "length dst = 4" "length dst_port = 2" "length (take 4 rest) = 4"
        "take declared rest = take 4 rest @ dst @ be_bytes 2 (of_be_bytes (take 2 (drop (4 + 4) rest)) :: u16) @ dst_port @ extra"
        using block_of_bytes [OF 1(2) dec(2)] .
      show ?thesis unfolding ProxyCmd 1(3) vc
      proof (rule v2_header_proxyI)
        show "take declared rest = address_block (V4 (take 4 rest)) (of_be_bytes (take 2 (drop (4 + 4) rest))) dst dst_port extra"
          by (simp only: address_block_def ip_addr.case b(4))
      qed (use 1(1) b(1-3) dec in \<open>simp_all add: ip_ok_def\<close>)
    next
      case 2
      obtain dst dst_port extra where b: "length dst = 16" "length dst_port = 2" "length (take 16 rest) = 16"
        "take declared rest = take 16 rest @ dst @ be_bytes 2 (of_be_bytes (take 2 (drop (16 + 16) rest)) :: u16) @ dst_port @ extra"
        using block_of_bytes [OF 2(2) dec(2)] .
      show ?thesis unfolding ProxyCmd 2(3) vc
      proof (rule v2_header_proxyI)
        show "take declared rest = address_block (V6 (take 16 rest)) (of_be_bytes (take 2 (drop (16 + 16) rest))) dst dst_port extra"
          by (simp only: address_block_def ip_addr.case b(4))
      qed (use 2(1) b(1-3) dec in \<open>simp_all add: ip_ok_def\<close>)
    qed
  qed
  with buf' len show ?thesis by blast
qed

lemma parse_header_complete:
  assumes "v2_header d hdr"
  shows "parse_proxy_v2 (hdr @ rest) = Inr (Complete d (length hdr))"
proof (cases d)
  case LocalCmd
  with assms show ?thesis by (auto simp: v2_header_def parse_v2_frame verdict_def)
next
  case (ProxyCmd src)
  obtain ip port where src: "src = (ip, port)" by fastforce
  show ?thesis
  proof (cases ip)
    case (V4 o4)
    with assms show ?thesis
      by (auto simp: v2_header_def ProxyCmd src ip_ok_def address_block_def parse_v2_frame verdict_def)
  next
    case (V6 o6)
    with assms show ?thesis
      by (auto simp: v2_header_def ProxyCmd src ip_ok_def address_block_def parse_v2_frame verdict_def)
  qed
qed

text \<open>
  C12: The parser accepts exactly the headers of the specification.  It reports a complete header of \<open>n\<close>
  bytes with a decision if and only if the buffer begins with an \<open>n\<close>-byte version 2 header that
  encodes that decision: a \<open>LOCAL\<close> header, or a TCP header over IPv4 or IPv6 whose source address and
  port are the ones reported.
\<close>

theorem parse_proxy_v2_exact:
  "parse_proxy_v2 buf = Inr (Complete d n) \<longleftrightarrow> (\<exists>hdr rest. buf = hdr @ rest \<and> length hdr = n \<and> v2_header d hdr)"
  using parse_complete_header parse_header_complete by blast

lemma parse_verdict_final_aux:
  "case parse_proxy_v2 buf of
     Inl err \<Rightarrow> parse_proxy_v2 (buf @ later) = Inl err
   | Inr (Complete d n) \<Rightarrow> parse_proxy_v2 (buf @ later) = Inr (Complete d n) \<and> n \<le> length buf
   | Inr (Incomplete needed) \<Rightarrow> length buf < needed \<and> needed \<le> 2064"
proof (cases buf rule: parse_cases)
  case (3 vc fam h l rest)
  let ?n = "unat (of_be_bytes [h, l] :: u16)"
  have "parse_proxy_v2 buf = verdict vc fam ?n rest" "parse_proxy_v2 (buf @ later) = verdict vc fam ?n (rest @ later)"
    unfolding 3 using parse_frame [of vc fam h l rest] parse_frame [of vc fam h l "rest @ later"] by simp_all
  then show ?thesis using verdict_more [of vc fam ?n rest later] by (simp add: 3 split: sum.splits parsed.splits)
qed simp_all

text \<open>
  A verdict is final.  An error or a complete header is the same whatever bytes follow, so the receiver
  never waits for bytes that change nothing; an incomplete verdict asks for more bytes than were seen
  and never for more than 2064.
\<close>

theorem parse_verdict_final:
  "case parse_proxy_v2 buf of
     Inl err \<Rightarrow> parse_proxy_v2 (buf @ later) = Inl err
   | Inr (Complete d n) \<Rightarrow> parse_proxy_v2 (buf @ later) = Inr (Complete d n) \<and> n \<le> length buf
   | Inr (Incomplete needed) \<Rightarrow> length buf < needed \<and> needed \<le> 2064"
  by (rule parse_verdict_final_aux)

subsection \<open>The receiver\<close>

definition address_of :: "socket_addr \<Rightarrow> proxy_v2 \<Rightarrow> socket_addr" where
  "address_of peer d = (case d of LocalCmd \<Rightarrow> peer | ProxyCmd src \<Rightarrow> src)"

text \<open>Once the prefix is in and the rest is asked for, the rest completes the header.\<close>

lemma second_pass:
  assumes "parse_proxy_v2 buf = Inr (Incomplete k)" and "16 \<le> length buf" and "k \<le> length (buf @ tail)"
  shows "\<exists>d. parse_proxy_v2 (buf @ tail) = Inr (Complete d k)"
proof (cases buf rule: parse_cases)
  case (3 vc fam h l rest)
  have "parse_proxy_v2 (buf @ tail) = verdict vc fam (unat (of_be_bytes [h, l] :: u16)) (rest @ tail)"
    using parse_frame [of vc fam h l "rest @ tail"] 3 by simp
  moreover have "verdict vc fam (unat (of_be_bytes [h, l] :: u16)) rest = Inr (Incomplete k)"
    using assms(1) parse_frame [of vc fam h l rest] 3 by simp
  ultimately show ?thesis using assms(3) 3 by (auto simp: verdict_def split: if_splits)
qed (use assms in auto)

lemma read_loop_complete:
  "parse_proxy_v2 buf = Inr (Complete d n) \<Longrightarrow> read_header_loop peer buf s = Inr (address_of peer d, s)"
  by (subst read_header_loop.simps) (simp add: address_of_def split: proxy_v2.split)

lemma read_loop_prefix:
  assumes "length buf = 16"
  shows "read_header_loop peer buf s = Inr (addr, s') \<longleftrightarrow>
    (\<exists>d hdr. v2_header d hdr \<and> buf @ cx_bytes s = hdr @ cx_bytes s' \<and> cx_closes s' = cx_closes s \<and> addr = address_of peer d)"
    (is "_ \<longleftrightarrow> ?R")
proof
  assume run: "read_header_loop peer buf s = Inr (addr, s')"
  show ?R
  proof (cases "parse_proxy_v2 buf")
    case (Inl err)
    with run show ?thesis by (subst (asm) read_header_loop.simps) simp
  next
    case (Inr p)
    show ?thesis
    proof (cases p)
      case (Complete d n)
      with run Inr read_loop_complete [of buf d n peer s] have r: "addr = address_of peer d" "s' = s" by simp_all
      obtain hdr rest where h: "buf = hdr @ rest" "v2_header d hdr" using parse_complete_header Inr Complete by blast
      have "16 \<le> length hdr" using h(2) by (auto simp: v2_header_def split: proxy_v2.splits prod.splits)
      moreover have "length hdr + length rest = 16" using h(1) assms by (metis length_append)
      ultimately have "rest = []" by (cases rest) simp_all
      with h r show ?thesis by auto
    next
      case (Incomplete k)
      have "16 < k" using parse_verdict_final_aux [of buf "[]"] Inr Incomplete assms by simp
      with run Inr Incomplete assms obtain tail s1 where rd: "read_exact (k - 16) s = Inr (tail, s1)"
        and loop: "read_header_loop peer (buf @ tail) s1 = Inr (addr, s')"
        by (subst (asm) (2) read_header_loop.simps) (auto split: if_splits sum.splits)
      from rd have t: "cx_bytes s = tail @ cx_bytes s1" "cx_closes s1 = cx_closes s" "length tail = k - 16"
        by (auto simp: read_exact_def split: if_splits)
      have "k \<le> length (buf @ tail)" using t(3) assms by simp
      then obtain d where d: "parse_proxy_v2 (buf @ tail) = Inr (Complete d k)"
        using second_pass [of buf k tail] Inr Incomplete assms by auto
      obtain hdr rest where h: "buf @ tail = hdr @ rest" "length hdr = k" "v2_header d hdr" using parse_complete_header [OF d] by blast
      have "length rest = 0" using arg_cong [OF h(1), of length] h(2) t(3) assms \<open>16 < k\<close> by simp
      with h t read_loop_complete [OF d, of peer s1] loop show ?thesis by auto
    qed
  qed
next
  assume ?R
  then obtain d hdr where h: "v2_header d hdr" "buf @ cx_bytes s = hdr @ cx_bytes s'" "cx_closes s' = cx_closes s"
    "addr = address_of peer d" by blast
  have len: "16 \<le> length hdr" using h(1) by (auto simp: v2_header_def split: proxy_v2.splits prod.splits)
  define tail where "tail = drop 16 hdr"
  have hdr: "hdr = buf @ tail" and rest: "cx_bytes s = tail @ cx_bytes s'"
    using h(2) assms len by (auto simp: tail_def append_eq_append_conv_if)
  have whole: "parse_proxy_v2 (buf @ tail) = Inr (Complete d (length hdr))"
    using parse_header_complete [OF h(1), of "[]"] hdr by simp
  show "read_header_loop peer buf s = Inr (addr, s')"
  proof (cases "parse_proxy_v2 buf")
    case (Inl err)
    with parse_verdict_final_aux [of buf tail] whole show ?thesis by simp
  next
    case (Inr p)
    show ?thesis
    proof (cases p)
      case (Complete d' n)
      with parse_verdict_final_aux [of buf tail] whole Inr have "d' = d" "n = length hdr" "length hdr \<le> length buf" by auto
      then have "s' = s" using rest hdr h(3) by simp
      with read_loop_complete [of buf d' n peer s] Inr Complete \<open>d' = d\<close> h(4) show ?thesis by simp
    next
      case (Incomplete k)
      have k: "16 < k" using parse_verdict_final_aux [of buf "[]"] Inr Incomplete assms by simp
      have "k = length hdr"
      proof (rule ccontr)
        assume ne: "k \<noteq> length hdr"
        have "\<exists>d. parse_proxy_v2 (buf @ tail @ replicate k 0) = Inr (Complete d k)"
          by (rule second_pass) (use Inr Incomplete assms in auto)
        moreover have "parse_proxy_v2 ((buf @ tail) @ replicate k 0) = Inr (Complete d (length hdr))"
          using parse_verdict_final_aux [of "buf @ tail" "replicate k 0"] whole by simp
        ultimately show False using ne by simp
      qed
      with rest hdr assms h(3) have "read_exact (k - 16) s = Inr (tail, s')" by (simp add: read_exact_def)
      with Inr Incomplete k assms read_loop_complete [OF whole, of peer s'] h(4) show ?thesis
        by (subst read_header_loop.simps) simp
    qed
  qed
qed

lemma detect_untrusted_peer: "detect_untrusted_header s looks peer = Inr addr \<Longrightarrow> addr = peer"
  by (induction looks) (auto simp: Let_def split: if_splits)

lemma read_trusted_exact:
  "read_trusted_header s peer = Inr (addr, s') \<longleftrightarrow>
     (\<exists>d hdr. v2_header d hdr \<and> cx_bytes s = hdr @ cx_bytes s' \<and> cx_closes s' = cx_closes s \<and> addr = address_of peer d)"
proof (cases "16 \<le> length (cx_bytes s)")
  case True
  then have "read_trusted_header s peer = read_header_loop peer (take 16 (cx_bytes s)) (s\<lparr>cx_bytes := drop 16 (cx_bytes s)\<rparr>)"
    by (simp add: read_trusted_header_def read_exact_def PREFIX_LEN_def)
  then show ?thesis using read_loop_prefix [of "take 16 (cx_bytes s)"] True by simp
next
  case False
  have "False" if "v2_header d hdr" "cx_bytes s = hdr @ xs" for d hdr xs
    using that False by (auto simp: v2_header_def split: proxy_v2.splits prod.splits)
  then show ?thesis using False by (auto simp: read_trusted_header_def read_exact_def PREFIX_LEN_def)
qed

text \<open>
  C11: Who the client is.  A peer inside a trusted network is accepted exactly when its bytes begin with a
  version 2 header; the connection then goes on with the address the header names (its own for
  \<open>LOCAL\<close>) and with every byte after the header.  A peer outside keeps its own address and all of
  its bytes, so nobody else can choose an address.
\<close>

theorem resolve_peer_exact:
  "resolve_peer net_contains trusted s looks peer = Inr (addr, s') \<longleftrightarrow>
     (if nets_contain net_contains trusted (fst peer)
      then \<exists>d hdr. v2_header d hdr \<and> cx_bytes s = hdr @ cx_bytes s' \<and> cx_closes s' = cx_closes s \<and> addr = address_of peer d
      else detect_untrusted_header s looks peer = Inr peer \<and> addr = peer \<and> s' = s)"
proof (cases "nets_contain net_contains trusted (fst peer)")
  case True
  then show ?thesis using read_trusted_exact [of s peer addr s'] by (simp add: resolve_peer_def)
next
  case False
  then show ?thesis using detect_untrusted_peer [of s looks peer]
    by (auto simp: resolve_peer_def split: sum.splits)
qed

text \<open>
  An untrusted peer that opens with the signature is cut, and no other is.  When the looks go on until
  the peer has sent as many bytes as the signature or has stopped being a prefix of it, the connection
  is passed on exactly when its bytes do not begin with the signature, and refused as an untrusted
  header exactly when they do.
\<close>

theorem untrusted_header_detected:
  assumes "12 \<le> length (cx_bytes s)" and "list_all (\<lambda>n. 0 < n) looks" and "list_ex (\<lambda>n. 12 \<le> n) looks"
  shows "detect_untrusted_header s looks peer =
    (if take 12 (cx_bytes s) = SIGNATURE then Inl UntrustedHeader else Inr peer)"
  using assms(2,3)
proof (induction looks)
  case (Cons n looks)
  have ne [simp]: "SIGNATURE \<noteq> []" by (simp add: SIGNATURE_def)
  let ?m = "min n 12"
  have m: "length (take ?m (cx_bytes s)) = ?m" using assms(1) by simp
  show ?case
  proof (cases "take ?m (cx_bytes s) = take ?m SIGNATURE")
    case False
    then have "take 12 (cx_bytes s) \<noteq> SIGNATURE" by (metis min.cobounded2 take_take min.absorb1)
    moreover have "cx_bytes s \<noteq> []" using assms(1) by auto
    ultimately show ?thesis using False Cons.prems m by (simp add: Let_def)
  next
    case True
    show ?thesis
    proof (cases "12 \<le> n")
      case big: True
      then have "?m = 12" by simp
      with True have "take 12 (cx_bytes s) = SIGNATURE" by simp
      then show ?thesis using \<open>?m = 12\<close> m by (simp add: Let_def)
    next
      case False
      with True Cons.prems Cons.IH m show ?thesis by (simp add: Let_def min_def)
    qed
  qed
qed simp

definition sample_connection :: connection where
  "sample_connection = \<lparr>cx_bytes = SIGNATURE @ [0x20], cx_closes = False\<rparr>"

theorem untrusted_header_detected_witness:
  "detect_untrusted_header sample_connection [5, 13] (V4 [192, 0, 2, 1], 4000) = Inl UntrustedHeader"
  using untrusted_header_detected [of sample_connection "[5, 13]" "(V4 [192, 0, 2, 1], 4000)"]
  by (simp add: sample_connection_def)

end
