(* ===== verification/Ingress_Headers.thy ===== *)
theory Ingress_Headers
  imports Route_Config Chain Proxy_Protocol
begin

text \<open>
  Header handling at the edge (\<open>server/src/headers.rs\<close>): the hop-by-hop strip, the client address the
  upstream is told, the one authority of a request, and the conversions between the wire's header map and
  the contract's header list.  The header map is the \<open>http\<close> crate's: its operations are the parameters
  of the locale \<open>header_map\<close>, its iteration is the list of its fields, and its conversions of names,
  values and authorities are arguments.  Names in the map are lower case.  Text forms of an address are
  arguments too.
\<close>

subsection \<open>Hop-by-hop headers\<close>

definition HOP_BY_HOP :: "string list" where
  "HOP_BY_HOP =
     [''connection'', ''keep-alive'', ''proxy-connection'', ''transfer-encoding'', ''te'', ''trailer'', ''upgrade'',
      ''proxy-authorization'', ''proxy-authenticate'']"

definition is_hop_by_hop :: "string \<Rightarrow> bool" where
  "is_hop_by_hop name = list_ex (eq_ignore_ascii_case name) HOP_BY_HOP"

definition connection_tokens :: "string \<Rightarrow> string list" where
  "connection_tokens s =
     map to_ascii_lowercase
       (filter (\<lambda>t. t \<noteq> [] \<and> \<not> eq_ignore_ascii_case t ''close'' \<and> \<not> eq_ignore_ascii_case t ''keep-alive'')
          (map trim (split_on (CHR '','') s)))"

text \<open>The values of \<open>Connection\<close> in order; a value that is not visible ASCII names nothing.\<close>

definition connection_named :: "(string \<Rightarrow> string option) \<Rightarrow> string list \<Rightarrow> string set" where
  "connection_named to_str values =
     set (concat (map (\<lambda>v. case to_str v of Some s \<Rightarrow> connection_tokens s | None \<Rightarrow> []) values))"

definition upgrade_request_header :: "(string \<Rightarrow> string option) \<Rightarrow> ('m \<Rightarrow> string \<Rightarrow> string list) \<Rightarrow> 'm \<Rightarrow> string option" where
  "upgrade_request_header to_str get_all m =
     (if ''upgrade'' \<notin> connection_named to_str (get_all m ''connection'') then None
      else case get_all m ''upgrade'' of [] \<Rightarrow> None | v # _ \<Rightarrow> to_str v)"

definition te_requests_trailers :: "(string \<Rightarrow> string option) \<Rightarrow> ('m \<Rightarrow> string \<Rightarrow> string list) \<Rightarrow> 'm \<Rightarrow> bool" where
  "te_requests_trailers to_str get_all m =
     list_ex (\<lambda>v. case to_str v of
         None \<Rightarrow> False
       | Some s \<Rightarrow> list_ex (\<lambda>token. eq_ignore_ascii_case (trim (hd (split_on (CHR '';'') token))) ''trailers'')
                    (split_on (CHR '','') s)) (get_all m ''te'')"

subsection \<open>Who the client is\<close>

definition FORWARDED_HEADERS :: "string list" where
  "FORWARDED_HEADERS =
     [''forwarded'', ''x-forwarded-for'', ''x-forwarded-proto'', ''x-forwarded-host'', ''x-real-ip'', ''true-client-ip'',
      ''cf-connecting-ip'', ''fastly-client-ip'', ''x-client-ip'', ''x-cluster-client-ip'']"

definition MAX_FORWARDED_ELEMENTS :: nat where
  "MAX_FORWARDED_ELEMENTS = 32"

text \<open>
  The scan over the lines, last line first, and over the elements of a line, last element first.  The
  outcome of a line is the end of the scan, or the budget left for the next line.
\<close>

datatype scan = Found ip_addr | GiveUp | Budget nat

fun scan_elements :: "(string \<Rightarrow> ip_addr option) \<Rightarrow> (ip_addr \<Rightarrow> bool) \<Rightarrow> nat \<Rightarrow> string list \<Rightarrow> scan" where
  "scan_elements parse_ip trusted budget [] = Budget budget"
| "scan_elements parse_ip trusted budget (element # elements) =
     (case budget of
        0 \<Rightarrow> GiveUp
      | Suc left \<Rightarrow>
          (case parse_ip (trim element) of
             None \<Rightarrow> GiveUp
           | Some ip \<Rightarrow> if \<not> trusted ip then Found (unmap_v4 ip) else scan_elements parse_ip trusted left elements))"

fun scan_lines ::
    "(string \<Rightarrow> string option) \<Rightarrow> (string \<Rightarrow> ip_addr option) \<Rightarrow> (ip_addr \<Rightarrow> bool) \<Rightarrow> nat \<Rightarrow> string list \<Rightarrow> ip_addr option" where
  "scan_lines to_str parse_ip trusted budget [] = None"
| "scan_lines to_str parse_ip trusted budget (line # lines) =
     (case to_str line of
        None \<Rightarrow> None
      | Some s \<Rightarrow>
          (case scan_elements parse_ip trusted budget (rev (split_on (CHR '','') s)) of
             Found ip \<Rightarrow> Some ip
           | GiveUp \<Rightarrow> None
           | Budget left \<Rightarrow> scan_lines to_str parse_ip trusted left lines))"

definition forwarded_client ::
    "(string \<Rightarrow> string option) \<Rightarrow> (string \<Rightarrow> ip_addr option) \<Rightarrow> ('m \<Rightarrow> string \<Rightarrow> string list) \<Rightarrow> 'm \<Rightarrow> (ip_addr \<Rightarrow> bool)
       \<Rightarrow> ip_addr option" where
  "forwarded_client to_str parse_ip get_all m trusted =
     scan_lines to_str parse_ip trusted MAX_FORWARDED_ELEMENTS (rev (get_all m ''x-forwarded-for''))"

definition forwarded_address ::
    "(string \<Rightarrow> string option) \<Rightarrow> (string \<Rightarrow> ip_addr option) \<Rightarrow> ('m \<Rightarrow> string \<Rightarrow> string list) \<Rightarrow> 'm \<Rightarrow> ip_addr
       \<Rightarrow> (ip_addr \<Rightarrow> bool) option \<Rightarrow> ip_addr" where
  "forwarded_address to_str parse_ip get_all m peer trusted =
     (case trusted of
        None \<Rightarrow> unmap_v4 peer
      | Some t \<Rightarrow>
          if \<not> t peer then unmap_v4 peer
          else (case forwarded_client to_str parse_ip get_all m t of Some ip \<Rightarrow> ip | None \<Rightarrow> unmap_v4 peer))"

text \<open>The trailing arguments: the text form of an address, and whether a string is a header value.\<close>

definition set_forwarded ::
    "(string \<Rightarrow> string option) \<Rightarrow> (string \<Rightarrow> ip_addr option) \<Rightarrow> ('m \<Rightarrow> string \<Rightarrow> string list) \<Rightarrow> ('m \<Rightarrow> string \<Rightarrow> 'm)
       \<Rightarrow> ('m \<Rightarrow> string \<Rightarrow> string \<Rightarrow> 'm) \<Rightarrow> (ip_addr \<Rightarrow> string) \<Rightarrow> (string \<Rightarrow> bool)
       \<Rightarrow> 'm \<Rightarrow> ip_addr \<Rightarrow> string \<Rightarrow> (ip_addr \<Rightarrow> bool) option \<Rightarrow> 'm \<times> ip_addr" where
  "set_forwarded to_str parse_ip get_all hm_remove hm_insert show_ip value_ok m peer scheme trusted =
     (let client = forwarded_address to_str parse_ip get_all m peer trusted;
          m1 = foldl hm_remove m FORWARDED_HEADERS;
          m2 = (if value_ok (show_ip client)
                then hm_insert (hm_insert m1 ''x-forwarded-for'' (show_ip client)) ''x-real-ip'' (show_ip client)
                else m1);
          m3 = (if value_ok scheme then hm_insert m2 ''x-forwarded-proto'' scheme else m2)
      in (m3, client))"

subsection \<open>The authority of a request\<close>

text \<open>
  \<open>parse\<close> is \<open>Authority::from_str\<close> of the \<open>http\<close> crate: the host, the port text when there is one, and its
  value when that is a 16-bit number; the text of the parsed authority is the input.
\<close>

record authority_parts =
  au_host :: string
  au_has_port :: bool
  au_port_u16 :: "u16 option"

text \<open>\<open>str::parse::<u16>\<close>: an optional plus sign, then decimal digits within range.\<close>

definition dec_digit :: "char \<Rightarrow> bool" where
  "dec_digit c = (48 \<le> (of_char c :: nat) \<and> (of_char c :: nat) \<le> 57)"

definition dec_value :: "string \<Rightarrow> nat" where
  "dec_value s = foldl (\<lambda>n c. 10 * n + (of_char c - 48)) 0 s"

definition parse_u16 :: "string \<Rightarrow> u16 option" where
  "parse_u16 s =
     (let digits = (case s of c # rest \<Rightarrow> if c = CHR ''+'' then rest else s | [] \<Rightarrow> s)
      in if digits \<noteq> [] \<and> list_all dec_digit digits \<and> dec_value digits < 2 ^ 16
         then Some (word_of_nat (dec_value digits)) else None)"

definition has_valid_port_syntax :: "string \<Rightarrow> bool" where
  "has_valid_port_syntax authority =
     (case strip_prefix ''['' authority of
        Some bracketed \<Rightarrow>
          (case split_once (CHR '']'') bracketed of
             None \<Rightarrow> False
           | Some (_, after) \<Rightarrow>
               (case strip_prefix '':'' after of
                  Some port \<Rightarrow> port \<noteq> [] \<and> parse_u16 port \<noteq> None
                | None \<Rightarrow> after = []))
      | None \<Rightarrow>
          (case rsplit_once (CHR '':'') authority of
             Some (_, port) \<Rightarrow> port \<noteq> [] \<and> parse_u16 port \<noteq> None
           | None \<Rightarrow> True))"

definition parse_authority :: "(string \<Rightarrow> authority_parts option) \<Rightarrow> string \<Rightarrow> string option" where
  "parse_authority parse value =
     (if value = [] \<or> CHR ''@'' \<in> set value then None
      else case parse value of
        None \<Rightarrow> None
      | Some a \<Rightarrow>
          if \<not> has_valid_port_syntax value \<or> (au_has_port a \<and> au_port_u16 a = None) then None else Some value)"

definition bare_host :: "authority_parts \<Rightarrow> string" where
  "bare_host a = (case strip_suffix ''.'' (au_host a) of Some h \<Rightarrow> h | None \<Rightarrow> au_host a)"

definition default_port :: "string \<Rightarrow> u16 \<Rightarrow> bool" where
  "default_port scheme port =
     (eq_ignore_ascii_case scheme ''http'' \<and> port = 80 \<or> eq_ignore_ascii_case scheme ''https'' \<and> port = 443)"

definition authorities_match :: "(string \<Rightarrow> authority_parts option) \<Rightarrow> string \<Rightarrow> string \<Rightarrow> string \<Rightarrow> bool" where
  "authorities_match parse left right scheme =
     (case (parse left, parse right) of
        (Some l, Some r) \<Rightarrow>
          if \<not> eq_ignore_ascii_case (bare_host l) (bare_host r) then False
          else (case (au_port_u16 l, au_port_u16 r) of
                  (Some lp, Some rp) \<Rightarrow> lp = rp
                | (None, None) \<Rightarrow> True
                | (Some port, None) \<Rightarrow> default_port scheme port
                | (None, Some port) \<Rightarrow> default_port scheme port)
      | _ \<Rightarrow> False)"

datatype http_version = Http10 | Http11 | Http2or3

text \<open>The parts of a request this module reads and writes; the target URI by its components.\<close>

record 'm request_head =
  qh_version :: http_version
  qh_method :: string
  qh_uri_scheme :: "string option"
  qh_uri_authority :: "string option"
  qh_path_and_query :: "string option"
  qh_headers :: 'm

datatype 'a outcome = Reject | Accept 'a

definition uri_authority ::
    "(string \<Rightarrow> authority_parts option) \<Rightarrow> 'm request_head \<Rightarrow> string option outcome" where
  "uri_authority parse parts =
     (case qh_uri_authority parts of
        None \<Rightarrow> Accept None
      | Some a \<Rightarrow> (case parse_authority parse a of None \<Rightarrow> Reject | Some v \<Rightarrow> Accept (Some v)))"

definition host_authority ::
    "(string \<Rightarrow> string option) \<Rightarrow> (string \<Rightarrow> authority_parts option) \<Rightarrow> string list \<Rightarrow> string option outcome" where
  "host_authority to_str parse hosts =
     (case hosts of
        [] \<Rightarrow> Accept None
      | h # rest \<Rightarrow>
          (case to_str h of
             None \<Rightarrow> Reject
           | Some s \<Rightarrow>
               (case parse_authority parse s of
                  None \<Rightarrow> Reject
                | Some v \<Rightarrow> if rest \<noteq> [] then Reject else Accept (Some v))))"

definition select_authority ::
    "(string \<Rightarrow> string \<Rightarrow> bool) \<Rightarrow> http_version \<Rightarrow> string option \<Rightarrow> string option \<Rightarrow> string option outcome" where
  "select_authority same version uri host =
     (case version of
        Http10 \<Rightarrow>
          (case (uri, host) of
             (Some u, Some h) \<Rightarrow> if \<not> same u h then Reject else Accept (Some u)
           | (Some u, None) \<Rightarrow> Accept (Some u)
           | (None, Some h) \<Rightarrow> Accept (Some h)
           | (None, None) \<Rightarrow> Accept None)
      | Http11 \<Rightarrow>
          (case host of
             None \<Rightarrow> Reject
           | Some h \<Rightarrow>
               (case uri of
                  Some u \<Rightarrow> if \<not> same u h then Reject else Accept (Some u)
                | None \<Rightarrow> Accept (Some h)))
      | Http2or3 \<Rightarrow>
          (case (uri, host) of
             (Some u, Some h) \<Rightarrow> if \<not> same u h then Reject else Accept (Some u)
           | (Some u, None) \<Rightarrow> Accept (Some u)
           | (None, Some h) \<Rightarrow> Accept (Some h)
           | (None, None) \<Rightarrow> Reject))"

text \<open>\<open>build_uri\<close>: whether the crate assembles a URI from the wire scheme, the authority and the path.\<close>

definition normalize_ingress_authority ::
    "(string \<Rightarrow> string option) \<Rightarrow> (string \<Rightarrow> authority_parts option) \<Rightarrow> (string \<Rightarrow> bool) \<Rightarrow> (string \<Rightarrow> string \<Rightarrow> bool)
       \<Rightarrow> ('m \<Rightarrow> string \<Rightarrow> string list) \<Rightarrow> ('m \<Rightarrow> string \<Rightarrow> 'm) \<Rightarrow> ('m \<Rightarrow> string \<Rightarrow> string \<Rightarrow> 'm)
       \<Rightarrow> 'm request_head \<Rightarrow> string \<Rightarrow> 'm request_head outcome" where
  "normalize_ingress_authority to_str parse value_ok build_uri get_all hm_remove hm_insert parts wire_scheme =
     (case uri_authority parse parts of
        Reject \<Rightarrow> Reject
      | Accept uri \<Rightarrow>
          (case host_authority to_str parse (get_all (qh_headers parts) ''host'') of
             Reject \<Rightarrow> Reject
           | Accept host \<Rightarrow>
               let scheme = (case qh_uri_scheme parts of Some s \<Rightarrow> s | None \<Rightarrow> wire_scheme);
                   fallback = (qh_version parts = Http2or3 \<and> uri = None \<and> host \<noteq> None)
               in (case select_authority (\<lambda>u h. authorities_match parse u h scheme) (qh_version parts) uri host of
                     Reject \<Rightarrow> Reject
                   | Accept None \<Rightarrow> Accept (parts\<lparr>qh_headers := hm_remove (qh_headers parts) ''host''\<rparr>)
                   | Accept (Some authority) \<Rightarrow>
                       if \<not> value_ok authority then Reject
                       else
                         let stamped = parts\<lparr>qh_headers := hm_insert (qh_headers parts) ''host'' authority\<rparr>
                         in if \<not> fallback then Accept stamped
                            else if build_uri wire_scheme authority
                              then Accept (stamped\<lparr>qh_uri_scheme := Some wire_scheme, qh_uri_authority := Some authority\<rparr>)
                              else Reject)))"

subsection \<open>Conversions\<close>

definition request_authority :: "(string \<Rightarrow> string option) \<Rightarrow> ('m \<Rightarrow> string \<Rightarrow> string list) \<Rightarrow> 'm request_head \<Rightarrow> string" where
  "request_authority to_str get_all parts =
     (case qh_uri_authority parts of
        Some a \<Rightarrow> a
      | None \<Rightarrow>
          (case get_all (qh_headers parts) ''host'' of
             [] \<Rightarrow> []
           | v # _ \<Rightarrow> (case to_str v of Some s \<Rightarrow> s | None \<Rightarrow> [])))"

text \<open>\<open>src\<close> is the iteration of the map: its names and values in order.\<close>

definition headers_to_vec :: "(string \<Rightarrow> string option) \<Rightarrow> (string \<times> string) list \<Rightarrow> header list" where
  "headers_to_vec to_str src =
     (let named = connection_named to_str (fields_get src ''connection'')
      in map (\<lambda>(n, v). \<lparr>h_name = n, h_value = v\<rparr>)
           (filter (\<lambda>(n, v). \<not> is_hop_by_hop n \<and> (named = {} \<or> n \<notin> named)) src))"

definition to_http_request :: "(string \<Rightarrow> string option) \<Rightarrow> (string \<times> string) list request_head \<Rightarrow> string \<Rightarrow> http_request" where
  "to_http_request to_str parts scheme =
     \<lparr>rq_method = qh_method parts,
      rq_path_with_query = (case qh_path_and_query parts of Some p \<Rightarrow> p | None \<Rightarrow> ''/''),
      rq_authority = request_authority to_str fields_get parts,
      rq_scheme = scheme,
      rq_headers = headers_to_vec to_str (qh_headers parts)\<rparr>"

text \<open>The fields appended to the destination, in order.\<close>

definition copy_headers_filtered ::
    "(string \<Rightarrow> string option) \<Rightarrow> (string \<Rightarrow> bool) \<Rightarrow> bool \<Rightarrow> header list \<Rightarrow> (string \<times> string) list" where
  "copy_headers_filtered parse_name value_ok strip_content_length headers =
     List.map_filter
       (\<lambda>h. if is_hop_by_hop (h_name h) then None
            else if strip_content_length \<and> eq_ignore_ascii_case (h_name h) ''content-length'' then None
            else (case parse_name (h_name h) of
                    None \<Rightarrow> None
                  | Some n \<Rightarrow> if value_ok (h_value h) then Some (n, h_value h) else None))
       headers"

definition copy_headers :: "(string \<Rightarrow> string option) \<Rightarrow> (string \<Rightarrow> bool) \<Rightarrow> header list \<Rightarrow> (string \<times> string) list" where
  "copy_headers parse_name value_ok headers = copy_headers_filtered parse_name value_ok False headers"

definition copy_headers_synth :: "(string \<Rightarrow> string option) \<Rightarrow> (string \<Rightarrow> bool) \<Rightarrow> header list \<Rightarrow> (string \<times> string) list" where
  "copy_headers_synth parse_name value_ok headers = copy_headers_filtered parse_name value_ok True headers"

definition copy_headers_direct :: "(string \<Rightarrow> string option) \<Rightarrow> (string \<times> string) list \<Rightarrow> (string \<times> string) list" where
  "copy_headers_direct to_str src =
     (let named = connection_named to_str (fields_get src ''connection'')
      in filter (\<lambda>(n, v). \<not> (is_hop_by_hop n \<or> named \<noteq> {} \<and> n \<in> named)) src)"

subsection \<open>What the upstream is told\<close>

text \<open>
  The elements the scan goes through: the last line first, each line from its last element; a line that
  is not text ends them with nothing to parse.
\<close>

fun chain_elements :: "(string \<Rightarrow> string option) \<Rightarrow> string list \<Rightarrow> string option list" where
  "chain_elements to_str [] = []"
| "chain_elements to_str (line # lines) =
     (case to_str line of
        None \<Rightarrow> [None]
      | Some s \<Rightarrow> map Some (rev (split_on (CHR '','') s)) @ chain_elements to_str lines)"

text \<open>The hop an element names, when it is text and an address.\<close>

definition hop :: "(string \<Rightarrow> ip_addr option) \<Rightarrow> string option \<Rightarrow> ip_addr option" where
  "hop parse_ip element = (case element of None \<Rightarrow> None | Some s \<Rightarrow> parse_ip (trim s))"

text \<open>\<open>first_untrusted\<close>: the first element that is not a trusted hop, among the first \<open>n\<close>.\<close>

fun first_untrusted :: "(string \<Rightarrow> ip_addr option) \<Rightarrow> (ip_addr \<Rightarrow> bool) \<Rightarrow> nat \<Rightarrow> string option list \<Rightarrow> ip_addr option" where
  "first_untrusted parse_ip trusted 0 es = None"
| "first_untrusted parse_ip trusted (Suc n) [] = None"
| "first_untrusted parse_ip trusted (Suc n) (e # es) =
     (case hop parse_ip e of
        None \<Rightarrow> None
      | Some ip \<Rightarrow> if trusted ip then first_untrusted parse_ip trusted n es else Some (unmap_v4 ip))"

lemma first_untrusted_Nil [simp]: "first_untrusted parse_ip trusted n [] = None"
  by (cases n) auto

lemma scan_elements_first:
  "(case scan_elements parse_ip trusted b es of
      Found ip \<Rightarrow> Some ip | GiveUp \<Rightarrow> None | Budget left \<Rightarrow> first_untrusted parse_ip trusted left rest)
   = first_untrusted parse_ip trusted b (map Some es @ rest)"
proof (induction es arbitrary: b)
  case (Cons e es)
  show ?case
  proof (cases b)
    case (Suc k)
    then show ?thesis using Cons.IH [of k] by (auto simp: hop_def split: option.splits)
  qed simp
qed simp

lemma first_untrusted_bad [simp]: "first_untrusted parse_ip trusted b [None] = None"
  by (cases b) (auto simp: hop_def)

lemma scan_lines_first:
  "scan_lines to_str parse_ip trusted b lines = first_untrusted parse_ip trusted b (chain_elements to_str lines)"
proof (induction lines arbitrary: b)
  case (Cons line lines)
  show ?case
  proof (cases "to_str line")
    case (Some s)
    have "scan_lines to_str parse_ip trusted b (line # lines) =
      (case scan_elements parse_ip trusted b (rev (split_on (CHR '','') s)) of
         Found ip \<Rightarrow> Some ip | GiveUp \<Rightarrow> None | Budget left \<Rightarrow> first_untrusted parse_ip trusted left (chain_elements to_str lines))"
      using Some Cons.IH by (simp split: scan.split)
    then show ?thesis unfolding scan_elements_first by (simp add: Some)
  qed simp
qed simp

definition vouched :: "(string \<Rightarrow> ip_addr option) \<Rightarrow> (ip_addr \<Rightarrow> bool) \<Rightarrow> string option \<Rightarrow> bool" where
  "vouched parse_ip t e = (case hop parse_ip e of Some ip \<Rightarrow> t ip | None \<Rightarrow> False)"

lemma first_untrusted_eq:
  "first_untrusted parse_ip t n es =
     (case dropWhile (vouched parse_ip t) (take n es) of [] \<Rightarrow> None | e # _ \<Rightarrow> map_option unmap_v4 (hop parse_ip e))"
  by (induction parse_ip t n es rule: first_untrusted.induct) (auto simp: vouched_def split: option.splits)

text \<open>
  C15: The client is the last hop no trusted proxy vouches for.  Unless the peer itself is a declared front
  proxy, the client is the peer.  If it is, skip the declared proxies among the last 32 elements of
  \<open>X-Forwarded-For\<close>, read from the end: the element that stops the scan is the client when it is an
  address, and in every other case the client is the peer.
\<close>

theorem client_is_last_unvouched_hop:
  "forwarded_address to_str parse_ip get_all m peer None = unmap_v4 peer
   \<and> forwarded_address to_str parse_ip get_all m peer (Some t) =
      (if \<not> t peer then unmap_v4 peer
       else case dropWhile (vouched parse_ip t) (take 32 (chain_elements to_str (rev (get_all m ''x-forwarded-for'')))) of
         [] \<Rightarrow> unmap_v4 peer
       | e # _ \<Rightarrow> (case hop parse_ip e of Some ip \<Rightarrow> unmap_v4 ip | None \<Rightarrow> unmap_v4 peer))"
proof (cases "dropWhile (vouched parse_ip t) (take 32 (chain_elements to_str (rev (get_all m ''x-forwarded-for''))))")
  case (Cons e rest)
  then show ?thesis
    by (cases "hop parse_ip e") (simp_all only: forwarded_address_def forwarded_client_def scan_lines_first
        MAX_FORWARDED_ELEMENTS_def first_untrusted_eq list.case option.case option.map simp_thms)
qed (simp_all only: forwarded_address_def forwarded_client_def scan_lines_first MAX_FORWARDED_ELEMENTS_def first_untrusted_eq
    list.case option.case simp_thms)

text \<open>
  C14: A client cannot forge its address.  Whatever forwarding headers arrive, afterwards
  \<open>X-Forwarded-For\<close> and \<open>X-Real-IP\<close> hold the one client address, \<open>X-Forwarded-Proto\<close> the wire scheme,
  the rest of the family is gone and every other header is untouched, for any header map that behaves as
  documented.
\<close>

theorem forwarding_headers_overwritten:
  assumes "header_map get_all hm_remove hm_insert"
    and "set_forwarded to_str parse_ip get_all hm_remove hm_insert show_ip value_ok m peer scheme trusted = (m', client)"
    and "value_ok (show_ip client)" and "value_ok scheme"
  shows "get_all m' k =
    (if k = ''x-forwarded-for'' \<or> k = ''x-real-ip'' then [show_ip client]
     else if k = ''x-forwarded-proto'' then [scheme]
     else if k \<in> set FORWARDED_HEADERS then []
     else get_all m k)"
  using assms header_map.get_insert [OF assms(1)] header_map.get_removes [OF assms(1)]
  by (auto simp: set_forwarded_def Let_def)

theorem forwarding_headers_overwritten_witness:
  "fields_get (fst (set_forwarded Some (\<lambda>_. None) fields_get fields_remove fields_insert (\<lambda>_. ''192.0.2.1'') (\<lambda>_. True)
     [(''x-client-ip'', ''6.6.6.6'')] (V4 [192, 0, 2, 1]) ''https'' None)) ''x-client-ip'' = []"
  using forwarding_headers_overwritten [OF fields.header_map_axioms prod.collapse [symmetric],
      where k = "''x-client-ip''" and value_ok = "\<lambda>_. True"]
  by (simp add: FORWARDED_HEADERS_def)

text \<open>
  The fast path forwards what the chain path would.  For the fields of a header map, the direct copy of
  a filterless route equals the projection to the contract followed by the copy back, and neither
  carries a hop-by-hop header or one that \<open>Connection\<close> names.
\<close>

theorem direct_copy_agrees:
  assumes "list_all (\<lambda>(n, v). parse_name n = Some n \<and> value_ok v) src"
  shows "copy_headers_direct to_str src = copy_headers parse_name value_ok (headers_to_vec to_str src)
    \<and> list_all (\<lambda>(n, v). \<not> is_hop_by_hop n \<and> n \<notin> connection_named to_str (fields_get src ''connection''))
        (copy_headers_direct to_str src)"
proof -
  define named where "named = connection_named to_str (fields_get src ''connection'')"
  have copy: "filter (\<lambda>(n, v). \<not> (is_hop_by_hop n \<or> named \<noteq> {} \<and> n \<in> named)) xs
    = List.map_filter (\<lambda>h. if is_hop_by_hop (h_name h) then None
        else case parse_name (h_name h) of None \<Rightarrow> None | Some n \<Rightarrow> if value_ok (h_value h) then Some (n, h_value h) else None)
      (map (\<lambda>(n, v). \<lparr>h_name = n, h_value = v\<rparr>) (filter (\<lambda>(n, v). \<not> is_hop_by_hop n \<and> (named = {} \<or> n \<notin> named)) xs))"
    if "list_all (\<lambda>(n, v). parse_name n = Some n \<and> value_ok v) xs" for xs
    using that by (induction xs) (auto simp: map_filter_simps)
  have "copy_headers_direct to_str src = copy_headers parse_name value_ok (headers_to_vec to_str src)"
    unfolding copy_headers_direct_def copy_headers_def copy_headers_filtered_def headers_to_vec_def Let_def named_def [symmetric]
    by (simp only: copy [OF assms] simp_thms if_False)
  moreover have "list_all (\<lambda>(n, v). \<not> is_hop_by_hop n \<and> n \<notin> named) (copy_headers_direct to_str src)"
    by (auto simp: copy_headers_direct_def named_def [symmetric] Let_def list_all_iff)
  ultimately show ?thesis by (simp add: named_def)
qed

theorem direct_copy_agrees_witness:
  "copy_headers_direct Some [(''te'', ''trailers''), (''accept'', ''a'')]
     = copy_headers Some (\<lambda>_. True) (headers_to_vec Some [(''te'', ''trailers''), (''accept'', ''a'')])"
  using direct_copy_agrees [of Some "\<lambda>_. True" "[(''te'', ''trailers''), (''accept'', ''a'')]" Some] by simp

subsection \<open>One authority\<close>

lemma parse_authority_Some:
  "parse_authority parse v = Some a \<Longrightarrow> a = v \<and> v \<noteq> [] \<and> CHR ''@'' \<notin> set v \<and> has_valid_port_syntax v"
  by (auto simp: parse_authority_def split: if_splits option.splits)

lemma uri_authority_Accept:
  assumes "uri_authority parse parts = Accept u"
  shows "u = qh_uri_authority parts \<and> (\<forall>a. u = Some a \<longrightarrow> parse_authority parse a = Some a)"
proof (cases "qh_uri_authority parts")
  case (Some a)
  with assms parse_authority_Some [of parse a] show ?thesis
    by (cases "parse_authority parse a") (auto simp: uri_authority_def)
qed (use assms in \<open>simp add: uri_authority_def\<close>)

lemma host_authority_Accept:
  assumes "host_authority to_str parse hosts = Accept h"
  shows "case h of None \<Rightarrow> hosts = [] | Some a \<Rightarrow> \<exists>v. hosts = [v] \<and> to_str v = Some a \<and> parse_authority parse a = Some a"
proof (cases hosts)
  case (Cons v rest)
  with assms obtain s where s: "to_str v = Some s" by (cases "to_str v") (auto simp: host_authority_def)
  with assms Cons obtain a where a: "parse_authority parse s = Some a" by (cases "parse_authority parse s") (auto simp: host_authority_def)
  with assms Cons s have "rest = []" "h = Some a" by (auto simp: host_authority_def split: if_splits)
  with Cons s a parse_authority_Some [OF a] show ?thesis by simp
qed (use assms in \<open>simp add: host_authority_def\<close>)

lemma select_authority_Accept:
  assumes "select_authority same version u h = Accept a"
  shows "(a = u \<or> u = None \<and> a = h) \<and> (a = None \<longrightarrow> version = Http10 \<and> u = None \<and> h = None)
    \<and> (\<forall>x y. u = Some x \<and> h = Some y \<longrightarrow> same x y)"
  using assms by (auto simp: select_authority_def split: http_version.splits option.splits if_splits)


definition sample_authority :: "string \<Rightarrow> authority_parts option" where
  "sample_authority s = Some \<lparr>au_host = s, au_has_port = False, au_port_u16 = None\<rparr>"


end
