(* ===== verification/Forward.thy ===== *)
theory Forward
  imports Ingress_Headers Outlier
begin

text \<open>
  Forwarding with retries: the pure policy of \<open>server/src/retry.rs\<close> and the loop of
  \<open>server/src/forward.rs\<close> that drives it over the instances of an upstream group.  The upstream client, the
  clocks and the request builder's own checks are arguments, indexed by the attempt; durations are
  milliseconds.  The loop also yields the list of the attempts it made, which is what the upstreams see.
\<close>

subsection \<open>Retry policy\<close>

datatype failure = TimeoutFailure | ConnectFailure

definition is_idempotent :: "string \<Rightarrow> bool" where
  "is_idempotent meth = (meth \<in> {''GET'', ''HEAD'', ''PUT'', ''DELETE'', ''OPTIONS'', ''TRACE''})"

definition may_retry :: "failure \<Rightarrow> string \<Rightarrow> bool \<Rightarrow> nat \<Rightarrow> bool" where
  "may_retry failure meth replayable tries_left =
     (replayable \<and> 0 < tries_left
      \<and> (case failure of TimeoutFailure \<Rightarrow> is_idempotent meth | ConnectFailure \<Rightarrow> True))"

definition is_retriable_5xx :: "u16 \<Rightarrow> bool" where
  "is_retriable_5xx status = (502 \<le> status \<and> status \<le> 504)"

definition RETRY_BACKOFF_BASE_MS :: u64 where
  "RETRY_BACKOFF_BASE_MS = 25"

definition RETRY_BACKOFF_CAP_MS :: u64 where
  "RETRY_BACKOFF_CAP_MS = 250"

definition backoff_ceiling :: "u32 \<Rightarrow> u64" where
  "backoff_ceiling attempt = min (sat_mul RETRY_BACKOFF_BASE_MS (push_bit (unat (min attempt 16)) 1)) RETRY_BACKOFF_CAP_MS"

text \<open>\<open>entropy\<close> is the sub-second part of the wall clock.\<close>

definition jitter :: "u64 \<Rightarrow> u64 \<Rightarrow> u64" where
  "jitter ceiling_ms entropy = (if ceiling_ms = 0 then 0 else entropy mod (ceiling_ms + 1))"

definition backoff :: "u32 \<Rightarrow> u64 \<Rightarrow> u64" where
  "backoff attempt entropy = jitter (backoff_ceiling attempt) entropy"

datatype per_try = Bounded nat | OverallDeadlineElapsed

definition per_try_timeout :: "nat option \<Rightarrow> nat \<Rightarrow> nat \<Rightarrow> per_try" where
  "per_try_timeout overall_deadline per_try_bound now =
     (case overall_deadline of
        Some deadline \<Rightarrow>
          if deadline \<le> now then OverallDeadlineElapsed
          else Bounded (if per_try_bound = 0 then deadline - now else min per_try_bound (deadline - now))
      | None \<Rightarrow> Bounded per_try_bound)"

datatype attempt_outcome = GotResponse bool | TimedOut | SendFault bool

definition should_attempt_retry :: "attempt_outcome \<Rightarrow> string \<Rightarrow> bool \<Rightarrow> nat \<Rightarrow> bool \<Rightarrow> bool" where
  "should_attempt_retry out meth replayable tries_left overall_elapsed =
     (if overall_elapsed then False
      else case (case out of
                   GotResponse retriable_5xx \<Rightarrow> (retriable_5xx, TimeoutFailure)
                 | TimedOut \<Rightarrow> (True, TimeoutFailure)
                 | SendFault connect \<Rightarrow> (connect, ConnectFailure)) of
        (retryable, failure) \<Rightarrow> retryable \<and> may_retry failure meth replayable tries_left)"

subsection \<open>One attempt\<close>

text \<open>A streamed body that has been sent leaves an empty one behind.\<close>

datatype 'b forward_body = Bodyless | OneShot "'b option" | Replayable string

datatype 'b sent_body = SentEmpty | SentStream 'b | SentBytes string

fun replayable :: "'b forward_body \<Rightarrow> bool" where
  "replayable Bodyless = True"
| "replayable (Replayable _) = True"
| "replayable (OneShot _) = False"

fun take_oneshot :: "'b forward_body \<Rightarrow> 'b forward_body \<times> 'b option" where
  "take_oneshot (OneShot body) = (Bodyless, body)"
| "take_oneshot body = (body, None)"

fun attempt_body :: "'b forward_body \<Rightarrow> 'b forward_body \<times> 'b sent_body" where
  "attempt_body Bodyless = (Bodyless, SentEmpty)"
| "attempt_body (OneShot (Some body)) = (OneShot None, SentStream body)"
| "attempt_body (OneShot None) = (OneShot None, SentEmpty)"
| "attempt_body (Replayable bytes) = (Replayable bytes, SentBytes bytes)"

fun show_nat :: "nat \<Rightarrow> string" where
  "show_nat n = (if n < 10 then [char_of (48 + n)] else show_nat (n div 10) @ [char_of (48 + n mod 10)])"

declare show_nat.simps [simp del]

text \<open>A header map by its operations; \<open>mo_fields\<close> is its iteration.\<close>

record 'm map_ops =
  mo_get_all :: "'m \<Rightarrow> string \<Rightarrow> string list"
  mo_remove :: "'m \<Rightarrow> string \<Rightarrow> 'm"
  mo_insert :: "'m \<Rightarrow> string \<Rightarrow> string \<Rightarrow> 'm"
  mo_append :: "'m \<Rightarrow> string \<Rightarrow> string \<Rightarrow> 'm"
  mo_fields :: "'m \<Rightarrow> (string \<times> string) list"
  mo_of_fields :: "(string \<times> string) list \<Rightarrow> 'm"
  mo_to_str :: "string \<Rightarrow> string option"
  mo_parse_name :: "string \<Rightarrow> string option"
  mo_value_ok :: "string \<Rightarrow> bool"

definition set_framing :: "'m map_ops \<Rightarrow> 'm \<Rightarrow> 'b forward_body \<Rightarrow> 'm \<Rightarrow> 'm" where
  "set_framing ops dst body original =
     (let d = mo_remove ops dst ''content-length''
      in case body of
           Bodyless \<Rightarrow> d
         | OneShot _ \<Rightarrow>
             (case mo_get_all ops original ''content-length'' of
                [] \<Rightarrow> d
              | len # _ \<Rightarrow> mo_insert ops d ''content-length'' len)
         | Replayable bytes \<Rightarrow> mo_insert ops d ''content-length'' (show_nat (length bytes)))"

datatype attempt_headers = ChainHeaders "header list" | DirectHeaders "(string \<times> string) list"

record 'm forward_request =
  fr_method :: string
  fr_headers :: attempt_headers
  fr_original_headers :: 'm
  fr_authority :: string
  fr_upstream_path :: string
  fr_traceparent :: string
  fr_upgrade_token :: "string option"

definition insert_ok :: "'m map_ops \<Rightarrow> string \<Rightarrow> string \<Rightarrow> 'm \<Rightarrow> 'm" where
  "insert_ok ops n v h = (if mo_value_ok ops v then mo_insert ops h n v else h)"

definition copied_headers :: "'m map_ops \<Rightarrow> attempt_headers \<Rightarrow> 'm" where
  "copied_headers ops hs =
     mo_of_fields ops
       (case hs of
          ChainHeaders headers \<Rightarrow> copy_headers (mo_parse_name ops) (mo_value_ok ops) headers
        | DirectHeaders src \<Rightarrow> copy_headers_direct (mo_to_str ops) src)"

definition upstream_headers :: "'m map_ops \<Rightarrow> 'm forward_request \<Rightarrow> string \<Rightarrow> 'b forward_body \<Rightarrow> 'm" where
  "upstream_headers ops fwd scheme body =
     (let h0 = copied_headers ops (fr_headers fwd);
          h1 = (if mo_get_all ops h0 ''host'' = [] then insert_ok ops ''host'' (fr_authority fwd) h0 else h0);
          h2 = set_framing ops h1 body (fr_original_headers fwd);
          h3 = insert_ok ops ''traceparent'' (fr_traceparent fwd) h2;
          h4 = (if scheme = ''https'' \<and> te_requests_trailers (mo_to_str ops) (mo_get_all ops) (fr_original_headers fwd)
                then mo_insert ops h3 ''te'' ''trailers'' else h3)
      in case fr_upgrade_token fwd of
           None \<Rightarrow> h4
         | Some token \<Rightarrow>
             if mo_value_ok ops token
             then mo_insert ops (mo_insert ops h4 ''upgrade'' token) ''connection'' ''upgrade'' else h4)"

subsection \<open>The loop\<close>

definition group_scheme :: "upstream_group \<Rightarrow> string" where
  "group_scheme g = (if ug_tls_client g \<noteq> None then ''https'' else ''http'')"

datatype ('r, 'x) send_result = Answered u16 'r | SendError bool 'x | NoAnswer

record ('m, 'b) upstream_request =
  ur_method :: string
  ur_uri :: string
  ur_headers :: 'm
  ur_body :: "'b sent_body"

record ('m, 'b, 'r, 'x) attempt =
  at_instance :: inst_id
  at_start :: nat
  at_per_try :: nat
  at_request :: "('m, 'b) upstream_request"
  at_result :: "('r, 'x) send_result"

datatype ('r, 'x) forward_outcome =
    FwResponse u16 'r pick
  | FwOverallTimeout
  | FwPerTryTimeout
  | FwSendFailed 'x
  | FwBuildFailed

text \<open>
  What the loop is given: the client's answer to an attempt, the instants before and after it, the wall
  clocks of its outlier record and of the next pick, and whether the builder accepts a method and URI.  The
  backoff sleep shows only in the next instants, and the retry counters of the metrics are left out.
\<close>

record ('m, 'b, 'r, 'x) forward_env =
  fe_client :: "nat \<Rightarrow> ('m, 'b) upstream_request \<Rightarrow> nat \<Rightarrow> ('r, 'x) send_result"
  fe_before :: "nat \<Rightarrow> nat"
  fe_after :: "nat \<Rightarrow> nat"
  fe_wall :: "nat \<Rightarrow> u64"
  fe_pick_wall :: "nat \<Rightarrow> u64"
  fe_build_ok :: "string \<Rightarrow> string \<Rightarrow> bool"

record forward_limits =
  fl_per_try_bound :: nat
  fl_overall_deadline :: "nat option"

record lb_world =
  lw_heap :: heap
  lw_group :: upstream_group
  lw_rng :: u64

definition build_attempt ::
    "'m map_ops \<Rightarrow> 'm forward_request \<Rightarrow> lb_world \<Rightarrow> pick \<Rightarrow> 'b forward_body \<Rightarrow> ('m, 'b) upstream_request" where
  "build_attempt ops fwd w pk body =
     \<lparr>ur_method = fr_method fwd,
      ur_uri = group_scheme (lw_group w) @ ''://'' @ i_address (lw_heap w ! pk_instance pk) @ fr_upstream_path fwd,
      ur_headers = upstream_headers ops fwd (group_scheme (lw_group w)) body,
      ur_body = snd (attempt_body body)\<rparr>"

text \<open>The health signals of an attempt, and its outcome for the retry decision.\<close>

definition settle_attempt :: "lb_world \<Rightarrow> pick \<Rightarrow> u64 \<Rightarrow> ('r, 'x) send_result \<Rightarrow> lb_world \<times> attempt_outcome" where
  "settle_attempt w pk wall res =
     (case res of
        Answered status _ \<Rightarrow>
          (w\<lparr>lw_heap := fst (record_outcome (lw_heap w) (lw_group w) (pk_instance pk) (is_retriable_5xx status) wall)\<rparr>,
           GotResponse (is_retriable_5xx status))
      | NoAnswer \<Rightarrow> (w, TimedOut)
      | SendError connect _ \<Rightarrow>
          (if connect
           then w\<lparr>lw_heap := (lw_heap w)[pk_instance pk := record_passive_failure (lw_heap w ! pk_instance pk)]\<rparr>
           else w,
           SendFault connect))"

definition final_outcome :: "('r, 'x) send_result \<Rightarrow> pick \<Rightarrow> ('r, 'x) forward_outcome" where
  "final_outcome res pk =
     (case res of Answered status r \<Rightarrow> FwResponse status r pk | NoAnswer \<Rightarrow> FwPerTryTimeout | SendError _ x \<Rightarrow> FwSendFailed x)"

definition unanswered :: "('r, 'x) send_result \<Rightarrow> bool" where
  "unanswered res = (case res of NoAnswer \<Rightarrow> True | _ \<Rightarrow> False)"

text \<open>\<open>None\<close>: a pick whose random draw never ends.\<close>

function forward_loop ::
    "'m map_ops \<Rightarrow> ('m, 'b, 'r, 'x) forward_env \<Rightarrow> forward_limits \<Rightarrow> 'm forward_request \<Rightarrow> hash_input option
       \<Rightarrow> nat \<Rightarrow> nat \<Rightarrow> 'b forward_body \<Rightarrow> pick \<Rightarrow> lb_world
       \<Rightarrow> (('r, 'x) forward_outcome \<times> lb_world \<times> ('m, 'b, 'r, 'x) attempt list) option" where
  "forward_loop ops env lim fwd key n tries_left body pk w =
     (case per_try_timeout (fl_overall_deadline lim) (fl_per_try_bound lim) (fe_before env n) of
        OverallDeadlineElapsed \<Rightarrow> Some (FwOverallTimeout, w\<lparr>lw_heap := drop_pick (lw_heap w) pk\<rparr>, [])
      | Bounded per_try \<Rightarrow>
          let req = build_attempt ops fwd w pk body; body' = fst (attempt_body body)
          in if \<not> fe_build_ok env (ur_method req) (ur_uri req)
             then Some (FwBuildFailed, w\<lparr>lw_heap := drop_pick (lw_heap w) pk\<rparr>, [])
             else
               let res = fe_client env n req per_try;
                   made = \<lparr>at_instance = pk_instance pk, at_start = fe_before env n, at_per_try = per_try,
                           at_request = req, at_result = res\<rparr>;
                   elapsed = (case fl_overall_deadline lim of Some d \<Rightarrow> d \<le> fe_after env n | None \<Rightarrow> False)
               in if unanswered res \<and> elapsed
                  then Some (FwOverallTimeout, w\<lparr>lw_heap := drop_pick (lw_heap w) pk\<rparr>, [made])
                  else
                    (case settle_attempt w pk (fe_wall env n) res of
                       (w1, out) \<Rightarrow>
                         let keep = (case res of Answered _ _ \<Rightarrow> w1 | _ \<Rightarrow> w1\<lparr>lw_heap := drop_pick (lw_heap w1) pk\<rparr>);
                             stop = Some (final_outcome res pk, keep, [made])
                         in if should_attempt_retry out (fr_method fwd) (replayable body) tries_left elapsed
                            then (case pick_excluding (lw_heap w1) (lw_rng w1) (fe_pick_wall env n) (lw_group w1) (pk_instance pk) key of
                                    None \<Rightarrow> None
                                  | Some (g, hp, rng, None) \<Rightarrow>
                                      (let w2 = \<lparr>lw_heap = hp, lw_group = g, lw_rng = rng\<rparr>
                                       in Some (final_outcome res pk,
                                            (case res of Answered _ _ \<Rightarrow> w2 | _ \<Rightarrow> w2\<lparr>lw_heap := drop_pick hp pk\<rparr>), [made]))
                                  | Some (g, hp, rng, Some next) \<Rightarrow>
                                      map_option (\<lambda>(o', w', as). (o', w', made # as))
                                        (forward_loop ops env lim fwd key (n + 1) (tries_left - 1) body' next
                                           \<lparr>lw_heap = drop_pick hp pk, lw_group = g, lw_rng = rng\<rparr>))
                            else stop))"
  by pat_completeness auto
termination
  by (relation "measure (\<lambda>(ops, env, lim, fwd, key, n, tries_left, body, pk, w). tries_left)")
    (auto simp: should_attempt_retry_def may_retry_def split: if_splits prod.splits attempt_outcome.splits)

declare forward_loop.simps [simp del]

definition forward_with_retry ::
    "'m map_ops \<Rightarrow> ('m, 'b, 'r, 'x) forward_env \<Rightarrow> forward_limits \<Rightarrow> 'm forward_request \<Rightarrow> hash_input option
       \<Rightarrow> nat \<Rightarrow> 'b forward_body \<Rightarrow> pick \<Rightarrow> lb_world
       \<Rightarrow> (('r, 'x) forward_outcome \<times> lb_world \<times> ('m, 'b, 'r, 'x) attempt list) option" where
  "forward_with_retry ops env lim fwd key max_retries body pk w = forward_loop ops env lim fwd key 0 max_retries body pk w"

subsection \<open>Frames\<close>

lemma round_robin_frame: "round_robin_pick hp now g ids ex = (g', p) \<Longrightarrow> ug_endpoints g' = ug_endpoints g"
  by (auto simp: round_robin_pick_def Let_def split: if_splits)

lemma pick_frame:
  assumes "pick_dispatch hp rng now g ex key = Some (g', hp', rng', p)"
  shows "ug_endpoints g' = ug_endpoints g \<and> length hp' = length hp"
proof (cases "ep_lb (ug_endpoints g)")
  case LbRoundRobin
  with assms show ?thesis by (auto simp: pick_dispatch_def Let_def split: prod.splits dest: round_robin_frame)
next
  case LbLeastRequest
  with assms show ?thesis
    by (auto simp: pick_dispatch_def least_request_pick_def metered_pick_def Let_def split: prod.splits if_splits option.splits
        dest: round_robin_frame)
next
  case (LbMaglev t)
  with assms show ?thesis by (auto simp: pick_dispatch_def maglev_pick_def Let_def split: prod.splits option.splits dest: round_robin_frame)
qed

lemma record_outcome_length: "length (fst (record_outcome hp g i f now)) = length hp"
  by (simp add: record_outcome_def Let_def set_counters_def)

lemma settle_frame:
  "settle_attempt w pk wall res = (w1, out) \<Longrightarrow>
     lw_group w1 = lw_group w \<and> length (lw_heap w1) = length (lw_heap w) \<and> lw_rng w1 = lw_rng w"
  by (auto simp: settle_attempt_def record_outcome_length split: send_result.splits if_splits)

lemma drop_pick_length [simp]: "length (drop_pick hp p) = length hp"
  by (simp add: drop_pick_def split: option.split)

lemma attempt_body_replayable [simp]: "replayable (fst (attempt_body body)) = replayable body"
  by (cases body rule: attempt_body.cases) auto

subsection \<open>The shapes of a turn\<close>

text \<open>The attempt a turn of the loop makes.\<close>

definition attempt_made ::
    "'m map_ops \<Rightarrow> ('m, 'b, 'r, 'x) forward_env \<Rightarrow> forward_limits \<Rightarrow> 'm forward_request
       \<Rightarrow> nat \<Rightarrow> 'b forward_body \<Rightarrow> pick \<Rightarrow> lb_world \<Rightarrow> ('m, 'b, 'r, 'x) attempt \<Rightarrow> bool" where
  "attempt_made ops env lim fwd n body pk w a \<longleftrightarrow>
     per_try_timeout (fl_overall_deadline lim) (fl_per_try_bound lim) (fe_before env n) = Bounded (at_per_try a)
     \<and> at_instance a = pk_instance pk \<and> at_start a = fe_before env n \<and> at_request a = build_attempt ops fwd w pk body
     \<and> at_result a = fe_client env n (at_request a) (at_per_try a)"

text \<open>Whether the policy lets another attempt follow this one.\<close>

definition safe_to_follow :: "string \<Rightarrow> ('m, 'b, 'r, 'x) attempt \<Rightarrow> bool" where
  "safe_to_follow meth a =
     (case at_result a of
        Answered status _ \<Rightarrow> is_retriable_5xx status \<and> is_idempotent meth
      | NoAnswer \<Rightarrow> is_idempotent meth
      | SendError connect _ \<Rightarrow> connect)"

lemma retry_policy_exact:
  "should_attempt_retry out meth rep tries elapsed \<longleftrightarrow>
     \<not> elapsed \<and> rep \<and> 0 < tries
     \<and> (case out of GotResponse r \<Rightarrow> r \<and> is_idempotent meth | TimedOut \<Rightarrow> is_idempotent meth | SendFault connect \<Rightarrow> connect)"
  by (auto simp: should_attempt_retry_def may_retry_def split: attempt_outcome.splits)

lemma settle_outcome:
  "settle_attempt w pk wall (at_result a) = (w1, out) \<Longrightarrow>
     (case out of GotResponse r \<Rightarrow> r \<and> is_idempotent meth | TimedOut \<Rightarrow> is_idempotent meth | SendFault connect \<Rightarrow> connect)
     = safe_to_follow meth a"
  by (auto simp: settle_attempt_def safe_to_follow_def split: send_result.splits if_splits)

lemma forward_loop_turn:
  obtains (none) out w' where "forward_loop ops env lim fwd key n tries body pk w = Some (out, w', [])"
  | (last) out w' a where "forward_loop ops env lim fwd key n tries body pk w = Some (out, w', [a])"
      "attempt_made ops env lim fwd n body pk w a"
  | (again) a w1 att g hp rng nxt where "attempt_made ops env lim fwd n body pk w a"
      "settle_attempt w pk (fe_wall env n) (at_result a) = (w1, att)"
      "replayable body" "0 < tries" "safe_to_follow (fr_method fwd) a"
      "pick_excluding (lw_heap w1) (lw_rng w1) (fe_pick_wall env n) (lw_group w1) (pk_instance pk) key = Some (g, hp, rng, Some nxt)"
      "forward_loop ops env lim fwd key n tries body pk w =
         map_option (\<lambda>(o', w', as). (o', w', a # as))
           (forward_loop ops env lim fwd key (n + 1) (tries - 1) (fst (attempt_body body)) nxt
              \<lparr>lw_heap = drop_pick hp pk, lw_group = g, lw_rng = rng\<rparr>)"
  | (diverge) a w1 att where "attempt_made ops env lim fwd n body pk w a"
      "settle_attempt w pk (fe_wall env n) (at_result a) = (w1, att)"
      "pick_excluding (lw_heap w1) (lw_rng w1) (fe_pick_wall env n) (lw_group w1) (pk_instance pk) key = None"
proof (cases "per_try_timeout (fl_overall_deadline lim) (fl_per_try_bound lim) (fe_before env n)")
  case OverallDeadlineElapsed
  then show ?thesis by (intro none) (subst forward_loop.simps, simp)
next
  case (Bounded pt)
  define req where "req = build_attempt ops fwd w pk body"
  define a where "a = \<lparr>at_instance = pk_instance pk, at_start = fe_before env n, at_per_try = pt, at_request = req,
    at_result = fe_client env n req pt\<rparr>"
  define elapsed where "elapsed = (case fl_overall_deadline lim of Some d \<Rightarrow> d \<le> fe_after env n | None \<Rightarrow> False)"
  have made: "attempt_made ops env lim fwd n body pk w a"
    by (simp add: attempt_made_def a_def Bounded req_def)
  obtain w1 att where st: "settle_attempt w pk (fe_wall env n) (fe_client env n req pt) = (w1, att)" by fastforce
  note eq = forward_loop.simps [of ops env lim fwd key n tries body pk w,
      unfolded Bounded per_try.case Let_def, folded req_def, folded a_def elapsed_def, unfolded st prod.case]
  consider "\<not> fe_build_ok env (ur_method req) (ur_uri req)"
    | "fe_build_ok env (ur_method req) (ur_uri req)" "unanswered (fe_client env n req pt) \<and> elapsed"
    | "fe_build_ok env (ur_method req) (ur_uri req)" "\<not> (unanswered (fe_client env n req pt) \<and> elapsed)"
      "\<not> should_attempt_retry att (fr_method fwd) (replayable body) tries elapsed"
    | "fe_build_ok env (ur_method req) (ur_uri req)" "\<not> (unanswered (fe_client env n req pt) \<and> elapsed)"
      "should_attempt_retry att (fr_method fwd) (replayable body) tries elapsed"
    by blast
  then show ?thesis
  proof cases
    case 1
    then show ?thesis using eq by (intro none) simp
  next
    case 2
    then show ?thesis using eq made by (intro last [of _ _ a]) simp_all
  next
    case 3
    note stop = eq [unfolded if_not_P [OF 3(2)] if_not_P [OF 3(3)], simplified 3(1), simplified]
    show ?thesis by (rule last [OF stop made])
  next
    case 4
    note go = eq [unfolded if_not_P [OF 4(2)] if_P [OF 4(3)], simplified 4(1), simplified]
    have res: "at_result a = fe_client env n req pt" by (simp add: a_def)
    have pol: "replayable body" "0 < tries" "safe_to_follow (fr_method fwd) a"
      using 4(3) settle_outcome [of w pk "fe_wall env n" a w1 att "fr_method fwd"] st by (simp_all add: retry_policy_exact res)
    show ?thesis
    proof (cases "pick_excluding (lw_heap w1) (lw_rng w1) (fe_pick_wall env n) (lw_group w1) (pk_instance pk) key")
      case None
      then show ?thesis using st made by (intro diverge [of a w1 att]) (simp_all add: res)
    next
      case (Some r)
      obtain g hp rng p where r: "r = (g, hp, rng, p)" by (cases r) auto
      show ?thesis
      proof (cases p)
        case None
        then show ?thesis using go Some r made by (intro last [of _ _ a]) simp_all
      next
        case (Some nxt)
        then show ?thesis using go \<open>_ = Some r\<close> r made pol st
          by (intro again [of a w1 att g hp rng nxt]) (simp_all add: res)
      qed
    qed
  qed
qed

subsection \<open>The attempts of a request\<close>

definition in_time :: "forward_limits \<Rightarrow> ('m, 'b, 'r, 'x) attempt \<Rightarrow> bool" where
  "in_time lim a =
     (case fl_overall_deadline lim of
        None \<Rightarrow> at_per_try a = fl_per_try_bound lim
      | Some d \<Rightarrow> 0 < at_per_try a \<and> at_start a + at_per_try a \<le> d
                 \<and> (fl_per_try_bound lim = 0 \<or> at_per_try a \<le> fl_per_try_bound lim))"

definition follows :: "string \<Rightarrow> ('m, 'b, 'r, 'x) attempt \<Rightarrow> ('m, 'b, 'r, 'x) attempt \<Rightarrow> bool" where
  "follows meth a b = (safe_to_follow meth a \<and> at_instance b \<noteq> at_instance a)"

lemma attempt_made_in_time: "attempt_made ops env lim fwd n body pk w a \<Longrightarrow> in_time lim a"
  by (auto simp: attempt_made_def in_time_def per_try_timeout_def split: option.splits if_splits)

lemma attempt_made_body:
  "attempt_made ops env lim fwd n body pk w a \<Longrightarrow>
     ur_body (at_request a) = snd (attempt_body body) \<and> at_instance a = pk_instance pk"
  by (simp add: attempt_made_def build_attempt_def)

lemma replay_same_body: "replayable body \<Longrightarrow> snd (attempt_body (fst (attempt_body body))) = snd (attempt_body body)"
  by (cases body rule: attempt_body.cases) auto

lemma group_ok_frame:
  assumes "group_ok hp g" and "ug_endpoints g' = ug_endpoints g" and "length hp' = length hp"
  shows "group_ok hp' g'"
  using assms by (simp add: group_ok_def)

lemma pick_excluding_facts:
  assumes "group_ok hp g"
  obtains g' hp' rng' p where "pick_excluding hp rng now g ex key = Some (g', hp', rng', p)"
    and "group_ok hp' g'" and "\<And>q. p = Some q \<Longrightarrow> pk_instance q \<noteq> ex"
proof -
  obtain g' hp' rng' p where p: "pick_dispatch hp rng now g (Some ex) key = Some (g', hp', rng', p)"
      "\<forall>q. p = Some q \<longrightarrow> pk_instance q \<in> set (eligible_ids hp now g (Some ex))"
    using promise_dispatch [OF assms, of now "Some ex" rng key] unfolding pick_promise_def by blast
  show ?thesis
  proof (rule that)
    show "pick_excluding hp rng now g ex key = Some (g', hp', rng', p)" using p(1) by (simp add: pick_excluding_def)
    show "group_ok hp' g'" using group_ok_frame [OF assms] pick_frame [OF p(1)] by simp
    show "pk_instance q \<noteq> ex" if "p = Some q" for q using p(2) that by (auto simp: eligible_ids_def is_eligible_def)
  qed
qed

lemma pick_excluding_returns: "group_ok hp g \<Longrightarrow> pick_excluding hp rng now g ex key \<noteq> None"
  by (erule pick_excluding_facts [of hp g rng now ex key]) simp

lemma pick_excluding_next:
  assumes "group_ok hp g" and "pick_excluding hp rng now g ex key = Some (g', hp', rng', Some q)"
  shows "group_ok hp' g' \<and> pk_instance q \<noteq> ex"
  using pick_excluding_facts [OF assms(1), of rng now ex key] assms(2) by auto

lemma forward_loop_attempts:
  fixes env :: "('m, 'b, 'r, 'x) forward_env"
  assumes "group_ok (lw_heap w) (lw_group w)"
  shows "\<exists>out w' as. forward_loop ops env lim fwd key n tries body pk w = Some (out, w', as)
    \<and> length as \<le> tries + 1 \<and> (2 \<le> length as \<longrightarrow> replayable body)
    \<and> successively (follows (fr_method fwd)) as \<and> (as \<noteq> [] \<longrightarrow> at_instance (hd as) = pk_instance pk)
    \<and> list_all (\<lambda>a. in_time lim a \<and> ur_body (at_request a) = snd (attempt_body body)) as"
  using assms
proof (induction tries arbitrary: n body pk w)
  case 0
  show ?case
  proof (cases rule: forward_loop_turn [of ops env lim fwd key n 0 body pk w])
    case (last out w' a)
    show ?thesis using attempt_made_in_time [OF last(2)] attempt_made_body [OF last(2)] by (simp add: last(1))
  next
    case (diverge a w1 att)
    have "group_ok (lw_heap w1) (lw_group w1)" using settle_frame [OF diverge(2)] group_ok_frame [OF 0] by simp
    with pick_excluding_returns diverge(3) show ?thesis by blast
  qed auto
next
  case (Suc tries)
  show ?case
  proof (cases rule: forward_loop_turn [of ops env lim fwd key n "Suc tries" body pk w])
    case (last out w' a)
    show ?thesis using attempt_made_in_time [OF last(2)] attempt_made_body [OF last(2)] by (simp add: last(1))
  next
    case (diverge a w1 att)
    have "group_ok (lw_heap w1) (lw_group w1)" using settle_frame [OF diverge(2)] group_ok_frame [OF Suc.prems] by simp
    with pick_excluding_returns diverge(3) show ?thesis by blast
  next
    case (again a w1 att g hp rng nxt)
    have ok1: "group_ok (lw_heap w1) (lw_group w1)" using settle_frame [OF again(2)] group_ok_frame [OF Suc.prems] by simp
    have ok: "group_ok hp g" and ne: "pk_instance nxt \<noteq> pk_instance pk"
      using pick_excluding_next [OF ok1 again(6)] by simp_all
    let ?w = "\<lparr>lw_heap = drop_pick hp pk, lw_group = g, lw_rng = rng\<rparr>" and ?b = "fst (attempt_body body)"
    have "group_ok (lw_heap ?w) (lw_group ?w)" using group_ok_frame [OF ok] by simp
    from Suc.IH [OF this, of "n + 1" ?b nxt] obtain out w' as where
      rec: "forward_loop ops env lim fwd key (n + 1) tries ?b nxt ?w = Some (out, w', as)"
      and len: "length as \<le> tries + 1" and suc: "successively (follows (fr_method fwd)) as"
      and hd: "as \<noteq> [] \<longrightarrow> at_instance (hd as) = pk_instance nxt"
      and all: "list_all (\<lambda>a. in_time lim a \<and> ur_body (at_request a) = snd (attempt_body ?b)) as" by blast
    have a: "in_time lim a" "ur_body (at_request a) = snd (attempt_body body)" "at_instance a = pk_instance pk"
      using attempt_made_in_time [OF again(1)] attempt_made_body [OF again(1)] by simp_all
    have "successively (follows (fr_method fwd)) (a # as)"
      using suc hd ne again(5) a(3) by (auto simp: successively_Cons follows_def)
    moreover have "forward_loop ops env lim fwd key n (Suc tries) body pk w = Some (out, w', a # as)"
      using again(7) rec by simp
    moreover have "list_all (\<lambda>a. in_time lim a \<and> ur_body (at_request a) = snd (attempt_body body)) (a # as)"
      using all a(1,2) replay_same_body [OF again(3)] by simp
    ultimately show ?thesis using len a(3) again(3) by (intro exI [of _ out] exI [of _ w'] exI [of _ "a # as"]) simp
  qed auto
qed

text \<open>
  C9: A request is never replayed unsafely.  Forwarding returns after at most \<open>max_retries\<close> + 1 attempts.
  Another attempt follows one only on a different instance, only when the body can be sent again, and only
  after a failed connection, or -- for an idempotent method -- after a timeout or a 502, 503 or 504; every
  attempt sends the whole body, and with an overall deadline every attempt starts and is bounded before it.
\<close>

theorem forward_replay_safe:
  fixes env :: "('m, 'b, 'r, 'x) forward_env"
  assumes "group_ok (lw_heap w) (lw_group w)"
  shows "\<exists>out w' as. forward_with_retry ops env lim fwd key max_retries body pk w = Some (out, w', as)
    \<and> length as \<le> max_retries + 1 \<and> (2 \<le> length as \<longrightarrow> replayable body)
    \<and> successively (follows (fr_method fwd)) as
    \<and> list_all (\<lambda>a. in_time lim a \<and> ur_body (at_request a) = snd (attempt_body body)) as"
  using forward_loop_attempts [OF assms, of ops env lim fwd key 0 max_retries body pk] unfolding forward_with_retry_def by blast

definition sample_ops :: "(string \<times> string) list map_ops" where
  "sample_ops =
     \<lparr>mo_get_all = fields_get, mo_remove = fields_remove, mo_insert = fields_insert,
      mo_append = (\<lambda>m n v. m @ [(n, v)]), mo_fields = (\<lambda>m. m), mo_of_fields = (\<lambda>fs. fs),
      mo_to_str = Some, mo_parse_name = (\<lambda>n. Some (to_ascii_lowercase n)), mo_value_ok = (\<lambda>_. True)\<rparr>"

definition sample_env :: "((string \<times> string) list, unit, unit, unit) forward_env" where
  "sample_env =
     \<lparr>fe_client = (\<lambda>_ _ _. SendError True ()), fe_before = (\<lambda>n. n), fe_after = (\<lambda>n. n + 1), fe_wall = (\<lambda>_. 7),
      fe_pick_wall = (\<lambda>_. 7), fe_build_ok = (\<lambda>_ _. True)\<rparr>"

definition sample_forward :: "(string \<times> string) list forward_request" where
  "sample_forward =
     \<lparr>fr_method = ''POST'',
      fr_headers = ChainHeaders [\<lparr>h_name = ''Transfer-Encoding'', h_value = ''chunked''\<rparr>,
                                 \<lparr>h_name = ''Content-Length'', h_value = ''999''\<rparr>],
      fr_original_headers = [], fr_authority = ''a.test'', fr_upstream_path = ''/'', fr_traceparent = ''00'',
      fr_upgrade_token = None\<rparr>"

theorem forward_replay_safe_witness:
  "\<exists>out w' as. forward_with_retry sample_ops sample_env \<lparr>fl_per_try_bound = 5, fl_overall_deadline = Some 100\<rparr> sample_forward None 2
       (Replayable ''abc'') \<lparr>pk_instance = 0, pk_load = None\<rparr> \<lparr>lw_heap = sample_heap, lw_group = sample_group, lw_rng = 0\<rparr> = Some (out, w', as)
    \<and> length as \<le> 3 \<and> (2 \<le> length as \<longrightarrow> replayable (Replayable ''abc'' :: unit forward_body))
    \<and> successively (follows ''POST'') as
    \<and> list_all (\<lambda>a. in_time \<lparr>fl_per_try_bound = 5, fl_overall_deadline = Some 100\<rparr> a \<and> ur_body (at_request a) = SentBytes ''abc'') as"
  using forward_replay_safe [where w = "\<lparr>lw_heap = sample_heap, lw_group = sample_group, lw_rng = 0\<rparr>" and max_retries = 2
      and ops = sample_ops and env = sample_env and fwd = sample_forward and body = "Replayable ''abc''" and key = None
      and lim = "\<lparr>fl_per_try_bound = 5, fl_overall_deadline = Some 100\<rparr>" and pk = "\<lparr>pk_instance = 0, pk_load = None\<rparr>"] sample_group_ok
  by (simp add: sample_forward_def)

subsection \<open>Framing\<close>

lemma dec_value_append: "dec_value (s @ [c]) = 10 * dec_value s + (of_char c - 48)"
  by (simp add: dec_value_def)

lemma dec_value_show: "dec_value (show_nat n) = n"
proof (induction n rule: show_nat.induct)
  case (1 n)
  show ?case
  proof (cases "n < 10")
    case True
    then show ?thesis by (subst show_nat.simps) (simp add: dec_value_def)
  next
    case False
    then show ?thesis using 1 by (subst show_nat.simps) (simp add: dec_value_append)
  qed
qed

text \<open>What the proxy relies on of the header map of a message under construction.\<close>

locale request_map =
  fixes ops :: "'m map_ops"
  assumes get_remove: "mo_get_all ops (mo_remove ops m n) k = (if k = n then [] else mo_get_all ops m k)"
    and get_insert: "mo_get_all ops (mo_insert ops m n v) k = (if k = n then [v] else mo_get_all ops m k)"
    and get_append: "mo_get_all ops (mo_append ops m n v) k = mo_get_all ops m k @ (if k = n then [v] else [])"
    and get_fields: "fields_get (mo_fields ops m) k = mo_get_all ops m k"
    and get_of_fields: "mo_get_all ops (mo_of_fields ops fs) k = fields_get fs k"
    and name_lower: "mo_parse_name ops n = Some p \<Longrightarrow> p = to_ascii_lowercase n"
begin

lemma get_insert_ok:
  "mo_get_all ops (insert_ok ops n v m) k = (if k = n \<and> mo_value_ok ops v then [v] else mo_get_all ops m k)"
  by (simp add: insert_ok_def get_insert)

lemma copied_no_hop:
  assumes "k \<in> set HOP_BY_HOP"
  shows "mo_get_all ops (copied_headers ops hs) k = []"
proof -
  have low: "to_ascii_lowercase k = k"
    using assms by (simp add: HOP_BY_HOP_def) (elim disjE; simp; code_simp)
  have hop: "is_hop_by_hop n" if "to_ascii_lowercase n = k" for n
    using assms that low by (auto simp: is_hop_by_hop_def list_ex_iff eq_ignore_ascii_case_def intro!: bexI [of _ k])
  have "f \<in> set (copy_headers (mo_parse_name ops) (mo_value_ok ops) headers) \<Longrightarrow> fst f \<noteq> k" for f headers
    using hop name_lower
    by (fastforce simp: copy_headers_def copy_headers_filtered_def map_filter_def split: if_splits option.splits)
  moreover have "f \<in> set (copy_headers_direct (mo_to_str ops) src) \<Longrightarrow> fst f \<noteq> k" for f src
    using hop [of k] low by (auto simp: copy_headers_direct_def Let_def)
  ultimately show ?thesis
    by (cases hs) (auto simp: copied_headers_def get_of_fields fields_get_def filter_empty_conv)
qed

lemma get_framing:
  "mo_get_all ops (set_framing ops m body original) k =
     (if k \<noteq> ''content-length'' then mo_get_all ops m k
      else case body of
             Bodyless \<Rightarrow> []
           | OneShot _ \<Rightarrow> take 1 (mo_get_all ops original ''content-length'')
           | Replayable bytes \<Rightarrow> [show_nat (length bytes)])"
  by (auto simp: set_framing_def Let_def get_remove get_insert split: forward_body.split list.split)

end

interpretation field_ops: request_map sample_ops
proof unfold_locales
  show "mo_get_all sample_ops (mo_remove sample_ops m n) k = (if k = n then [] else mo_get_all sample_ops m k)" for m n k
    using fields.get_remove by (simp add: sample_ops_def)
  show "mo_get_all sample_ops (mo_insert sample_ops m n v) k = (if k = n then [v] else mo_get_all sample_ops m k)" for m n v k
    using fields.get_insert by (simp add: sample_ops_def)
qed (simp_all add: sample_ops_def fields_get_def)

text \<open>
  C10: The host owns the framing towards the upstream.  Whatever the chain or the client put into the headers,
  the \<open>Content-Length\<close> of an attempt is the decimal length of the body that is sent (for an untouched
  stream, the client's own declaration, and none without a body), and no hop-by-hop header is sent but
  \<open>TE: trailers\<close> on a TLS leg whose client asked for it and the one upgrade token the route declares.
\<close>

theorem upstream_framing_host_owned:
  assumes "request_map ops" and "h = upstream_headers ops fwd scheme body"
  shows "mo_get_all ops h ''content-length'' =
      (case body of
         Bodyless \<Rightarrow> []
       | OneShot _ \<Rightarrow> take 1 (mo_get_all ops (fr_original_headers fwd) ''content-length'')
       | Replayable bytes \<Rightarrow> [show_nat (length bytes)])
    \<and> dec_value (show_nat len) = len
    \<and> (k \<in> set HOP_BY_HOP \<longrightarrow> mo_get_all ops h k =
        (if k = ''te'' \<and> scheme = ''https'' \<and> te_requests_trailers (mo_to_str ops) (mo_get_all ops) (fr_original_headers fwd)
         then [''trailers'']
         else case fr_upgrade_token fwd of
                None \<Rightarrow> []
              | Some token \<Rightarrow>
                  if k = ''upgrade'' \<and> mo_value_ok ops token then [token]
                  else if k = ''connection'' \<and> mo_value_ok ops token then [''upgrade''] else []))"
proof -
  note laws = request_map.get_insert [OF assms(1)] request_map.get_insert_ok [OF assms(1)] request_map.get_framing [OF assms(1)]
  have names: "k \<noteq> ''host''" "k \<noteq> ''content-length''" "k \<noteq> ''traceparent''" if "k \<in> set HOP_BY_HOP"
    using that by (auto simp: HOP_BY_HOP_def)
  have hop: "mo_get_all ops h k =
        (if k = ''te'' \<and> scheme = ''https'' \<and> te_requests_trailers (mo_to_str ops) (mo_get_all ops) (fr_original_headers fwd)
         then [''trailers'']
         else case fr_upgrade_token fwd of
                None \<Rightarrow> []
              | Some token \<Rightarrow>
                  if k = ''upgrade'' \<and> mo_value_ok ops token then [token]
                  else if k = ''connection'' \<and> mo_value_ok ops token then [''upgrade''] else [])" if "k \<in> set HOP_BY_HOP"
    using names [OF that] request_map.copied_no_hop [OF assms(1) that]
    by (auto simp: assms(2) upstream_headers_def Let_def laws split: option.split)
  show ?thesis
    using hop by (simp add: assms(2) upstream_headers_def Let_def laws dec_value_show split: option.split)
qed

theorem upstream_framing_host_owned_witness:
  "fields_get (upstream_headers sample_ops sample_forward ''http'' (Replayable ''abc'' :: unit forward_body)) ''content-length''
       = [show_nat 3]
   \<and> fields_get (upstream_headers sample_ops sample_forward ''http'' (Replayable ''abc'' :: unit forward_body)) ''transfer-encoding'' = []"
  using upstream_framing_host_owned [OF field_ops.request_map_axioms refl, of sample_forward "''http''"
      "Replayable ''abc'' :: unit forward_body" 3 "''transfer-encoding''"]
  by (simp add: HOP_BY_HOP_def sample_ops_def sample_forward_def numeral_3_eq_3)

end
