(* ===== verification/Outbound_Policy.thy ===== *)
theory Outbound_Policy
  imports Net_Addr Plecto_Strings
begin

text \<open>
  The outbound policy of a filter (\<open>host/src/outbound.rs\<close>): the exact allowlist and the guard that
  classifies a resolved address.  Networks the operator opts into belong to the \<open>ipnet\<close> crate: their
  membership test is an argument.  The guard's octet predicates are proved equal to a table of address
  blocks in CIDR notation.
\<close>

subsection \<open>Allowlists\<close>

datatype url_scheme = SchemeHttp | SchemeHttps

fun scheme_default_port :: "url_scheme \<Rightarrow> u16" where
  "scheme_default_port SchemeHttp = 80"
| "scheme_default_port SchemeHttps = 443"

record allow_entry =
  ae_scheme :: url_scheme
  ae_host :: string
  ae_port :: u16

datatype addr_verdict = VdAllowed | VdBlockedReserved | VdBlockedPrivate

record 'n outbound_policy =
  op_allow :: "allow_entry list"
  op_allow_private :: "'n list"
  op_connect_timeout :: nat
  op_total_timeout :: nat
  op_max_response_bytes :: u64
  op_max_concurrent :: u32

definition policy_allows :: "'n outbound_policy \<Rightarrow> url_scheme \<Rightarrow> string \<Rightarrow> u16 \<Rightarrow> bool" where
  "policy_allows pol scheme host port =
     list_ex (\<lambda>e. ae_scheme e = scheme \<and> ae_port e = port \<and> eq_ignore_ascii_case (ae_host e) host) (op_allow pol)"

record tcp_allow_entry =
  te_host :: string
  te_port :: u16

record 'n outbound_tcp_policy =
  ot_allow :: "tcp_allow_entry list"
  ot_allow_private :: "'n list"
  ot_max_connections :: u32
  ot_io_deadline :: nat

definition allows_name :: "'n outbound_tcp_policy \<Rightarrow> string \<Rightarrow> bool" where
  "allows_name pol host = list_ex (\<lambda>e. eq_ignore_ascii_case (te_host e) host) (ot_allow pol)"

subsection \<open>The address guard\<close>

text \<open>The segments of an IPv6 address are its big-endian 16-bit groups.\<close>

definition seg :: "bytes \<Rightarrow> nat \<Rightarrow> u16" where
  "seg o6 i = of_be_bytes [o6 ! (2 * i), o6 ! (2 * i + 1)]"

definition v6_loopback :: "bytes \<Rightarrow> bool" where
  "v6_loopback o6 = (o6 = replicate 15 0 @ [1])"

definition v6_unspecified :: "bytes \<Rightarrow> bool" where
  "v6_unspecified o6 = (o6 = replicate 16 0)"

definition canonicalize :: "ip_addr \<Rightarrow> ip_addr" where
  "canonicalize ip =
     (case ip of
        V6 o6 \<Rightarrow>
          (case to_ipv4_mapped o6 of
             Some o4 \<Rightarrow> V4 o4
           | None \<Rightarrow>
               if list_all (\<lambda>i. seg o6 i = 0) [0..<6] \<and> \<not> v6_loopback o6 \<and> \<not> v6_unspecified o6
               then V4 (be_bytes 2 (seg o6 6) @ be_bytes 2 (seg o6 7)) else V6 o6)
      | V4 o4 \<Rightarrow> V4 o4)"

definition v4_always_blocked :: "bytes \<Rightarrow> bool" where
  "v4_always_blocked o4 \<longleftrightarrow>
     o4 ! 0 = 127
     \<or> o4 ! 0 = 169 \<and> o4 ! 1 = 254
     \<or> o4 = [255, 255, 255, 255]
     \<or> 224 \<le> o4 ! 0 \<and> o4 ! 0 \<le> 239
     \<or> take 3 o4 \<in> {[192, 0, 2], [198, 51, 100], [203, 0, 113]}
     \<or> o4 ! 0 = 0
     \<or> o4 ! 0 = 100 \<and> o4 ! 1 AND 0xC0 = 0x40
     \<or> o4 ! 0 = 192 \<and> o4 ! 1 = 0 \<and> o4 ! 2 = 0
     \<or> o4 ! 0 = 198 \<and> o4 ! 1 AND 0xFE = 18
     \<or> o4 ! 0 AND 0xF0 = 240"

definition v6_always_blocked :: "bytes \<Rightarrow> bool" where
  "v6_always_blocked o6 \<longleftrightarrow>
     v6_loopback o6
     \<or> v6_unspecified o6
     \<or> seg o6 0 AND 0xFF00 = 0xFF00
     \<or> seg o6 0 AND 0xFFC0 = 0xFE80
     \<or> seg o6 0 AND 0xFFC0 = 0xFEC0
     \<or> seg o6 0 = 0x2001 \<and> seg o6 1 = 0x0DB8
     \<or> seg o6 0 = 0x2001 \<and> seg o6 1 = 0
     \<or> seg o6 0 = 0x0064 \<and> seg o6 1 = 0xFF9B
     \<or> seg o6 0 = 0x0100 \<and> list_all (\<lambda>i. seg o6 i = 0) [1..<4]"

definition is_always_blocked :: "ip_addr \<Rightarrow> bool" where
  "is_always_blocked ip = (case ip of V4 a \<Rightarrow> v4_always_blocked a | V6 a \<Rightarrow> v6_always_blocked a)"

definition v4_private :: "bytes \<Rightarrow> bool" where
  "v4_private o4 \<longleftrightarrow>
     o4 ! 0 = 10 \<or> o4 ! 0 = 172 \<and> 16 \<le> o4 ! 1 \<and> o4 ! 1 \<le> 31 \<or> o4 ! 0 = 192 \<and> o4 ! 1 = 168"

definition is_private :: "ip_addr \<Rightarrow> bool" where
  "is_private ip = (case ip of V4 a \<Rightarrow> v4_private a | V6 a \<Rightarrow> seg a 0 AND 0xFE00 = 0xFC00)"

definition classify :: "('n \<Rightarrow> ip_addr \<Rightarrow> bool) \<Rightarrow> ip_addr \<Rightarrow> 'n list \<Rightarrow> addr_verdict" where
  "classify net_contains ip allow_private =
     (let canonical = canonicalize ip
      in if is_always_blocked canonical then VdBlockedReserved
         else if is_private canonical
           then (if list_ex (\<lambda>net. net_contains net canonical) allow_private then VdAllowed else VdBlockedPrivate)
         else VdAllowed)"

definition policy_classify :: "('n \<Rightarrow> ip_addr \<Rightarrow> bool) \<Rightarrow> 'n outbound_policy \<Rightarrow> ip_addr \<Rightarrow> addr_verdict" where
  "policy_classify net_contains pol ip = classify net_contains ip (op_allow_private pol)"

definition tcp_classify :: "('n \<Rightarrow> ip_addr \<Rightarrow> bool) \<Rightarrow> 'n outbound_tcp_policy \<Rightarrow> ip_addr \<Rightarrow> addr_verdict" where
  "tcp_classify net_contains pol ip = classify net_contains ip (ot_allow_private pol)"

subsection \<open>The guard as a table\<close>

text \<open>An address block: the address agrees with the given one in its first \<open>len\<close> bits.\<close>

definition in_block :: "bytes \<times> nat \<Rightarrow> bytes \<Rightarrow> bool" where
  "in_block nl a \<longleftrightarrow>
     (case nl of (net, len) \<Rightarrow>
        take (len div 8) a = take (len div 8) net
        \<and> (len mod 8 = 0 \<or> unat (a ! (len div 8)) div 2 ^ (8 - len mod 8) = unat (net ! (len div 8)) div 2 ^ (8 - len mod 8)))"

definition reserved_v4 :: "(bytes \<times> nat) list" where
  "reserved_v4 =
     [([0, 0, 0, 0], 8), ([100, 64, 0, 0], 10), ([127, 0, 0, 0], 8), ([169, 254, 0, 0], 16), ([192, 0, 0, 0], 24),
      ([192, 0, 2, 0], 24), ([198, 18, 0, 0], 15), ([198, 51, 100, 0], 24), ([203, 0, 113, 0], 24),
      ([224, 0, 0, 0], 4), ([240, 0, 0, 0], 4)]"

definition reserved_v6 :: "(bytes \<times> nat) list" where
  "reserved_v6 =
     [(replicate 16 0, 128), (replicate 15 0 @ [1], 128), ([0, 0x64, 0xFF, 0x9B], 32), ([1, 0, 0, 0, 0, 0, 0, 0], 64),
      ([0x20, 1, 0, 0], 32), ([0x20, 1, 0x0D, 0xB8], 32), ([0xFE, 0x80], 10), ([0xFE, 0xC0], 10), ([0xFF], 8)]"

definition private_v4 :: "(bytes \<times> nat) list" where
  "private_v4 = [([10, 0, 0, 0], 8), ([172, 16, 0, 0], 12), ([192, 168, 0, 0], 16)]"

definition private_v6 :: "(bytes \<times> nat) list" where
  "private_v6 = [([0xFC], 7)]"

definition in_table :: "(bytes \<times> nat) list \<Rightarrow> (bytes \<times> nat) list \<Rightarrow> ip_addr \<Rightarrow> bool" where
  "in_table t4 t6 ip = (case ip of V4 a \<Rightarrow> list_ex (\<lambda>nl. in_block nl a) t4 | V6 a \<Rightarrow> list_ex (\<lambda>nl. in_block nl a) t6)"

text \<open>The IPv4 address an IPv6 address carries in the mapped or the compatible form.\<close>

definition embedded :: "ip_addr \<Rightarrow> ip_addr" where
  "embedded ip =
     (case ip of
        V4 a \<Rightarrow> V4 a
      | V6 a \<Rightarrow>
          if take 12 a = replicate 10 0 @ [0xFF, 0xFF] then V4 (drop 12 a)
          else if take 12 a = replicate 12 0 \<and> drop 12 a \<notin> {[0, 0, 0, 0], [0, 0, 0, 1]} then V4 (drop 12 a)
          else V6 a)"

lemma and_high_mask:
  "(x AND NOT (mask n) = y AND NOT (mask n)) = (unat x div 2 ^ n = unat (y :: 'a::len word) div 2 ^ n)"
proof -
  have "drop_bit n (z AND NOT (mask n)) = drop_bit n z" and "z AND NOT (mask n) = push_bit n (drop_bit n z)"
    for z :: "'a word"
    by (rule bit_word_eqI; auto simp: bit_simps dest: bit_imp_le_length)+
  then have "(x AND NOT (mask n) = y AND NOT (mask n)) = (drop_bit n x = drop_bit n y)" by metis
  also have "\<dots> = (unat x div 2 ^ n = unat y div 2 ^ n)"
    by (metis unat_drop_bit word_unat_eq_iff)
  finally show ?thesis .
qed

lemma high_masks:
  "(0xC0 :: u8) = NOT (mask 6)" "(0xFE :: u8) = NOT (mask 1)" "(0xF0 :: u8) = NOT (mask 4)"
  "(0xFF00 :: u16) = NOT (mask 8)" "(0xFFC0 :: u16) = NOT (mask 6)" "(0xFE00 :: u16) = NOT (mask 9)"
  by code_simp+

lemma octet_masks:
  fixes x :: u8
  shows "(x AND 0xC0 = 0x40) = (unat x div 64 = 1)" "(x AND 0xFE = 18) = (unat x div 2 = 9)" "(x AND 0xF0 = 240) = (unat x div 16 = 15)"
  using and_high_mask [of x 6 "0x40"] and_high_mask [of x 1 18] and_high_mask [of x 4 240]
  unfolding high_masks(1-3) [symmetric] by simp_all

lemma unat_seg: "unat (of_be_bytes [h, l] :: u16) = 256 * unat h + unat l"
proof -
  have "(of_be_bytes [h, l] :: u16) = 256 * ucast h + ucast l"
  proof -
    have "(ucast l :: u16) OR push_bit 8 (ucast h) = ucast l + push_bit 8 (ucast h)"
      by (rule disjunctive_add [symmetric]) (auto simp: bit_simps dest!: bit_imp_le_length [of l])
    then show ?thesis by (simp add: of_be_bytes_def push_bit_eq_mult mult.commute)
  qed
  then show ?thesis
    using unat_bounds(1) [of h] unat_bounds(1) [of l]
    by (simp add: unat_word_ariths unat_ucast_up)
qed

lemma segment_div:
  fixes a b :: nat
  assumes "b < 256"
  shows "((256 * a + b) div 256 = 255) = (a = 255)" "((256 * a + b) div 64 = 1018) = (a = 254 \<and> b div 64 = 2)"
    "((256 * a + b) div 64 = 1019) = (a = 254 \<and> b div 64 = 3)" "((256 * a + b) div 512 = 126) = (a div 2 = 126)"
proof -
  have q: "(256 * a + b) div 64 = 4 * a + b div 64" "b div 64 < 4" using assms by auto
  have "(4 * a + r = 1018) = (a = 254 \<and> r = 2)" "(4 * a + r = 1019) = (a = 254 \<and> r = 3)" if "r < 4" for r
    using that by (presburger, presburger)
  with q show "((256 * a + b) div 64 = 1018) = (a = 254 \<and> b div 64 = 2)" "((256 * a + b) div 64 = 1019) = (a = 254 \<and> b div 64 = 3)"
    by simp_all
  show "((256 * a + b) div 256 = 255) = (a = 255)" using assms by simp
  have "(256 * a + b) div 512 = (256 * a + b) div 256 div 2" by (simp add: div_mult2_eq [symmetric])
  then show "((256 * a + b) div 512 = 126) = (a div 2 = 126)" using assms by simp
qed

lemma segment_masks:
  "((of_be_bytes [h, l] :: u16) AND 0xFF00 = 0xFF00) = (unat h = 255)"
  "((of_be_bytes [h, l] :: u16) AND 0xFFC0 = 0xFE80) = (unat h = 254 \<and> unat l div 64 = 2)"
  "((of_be_bytes [h, l] :: u16) AND 0xFFC0 = 0xFEC0) = (unat h = 254 \<and> unat l div 64 = 3)"
  "((of_be_bytes [h, l] :: u16) AND 0xFE00 = 0xFC00) = (unat h div 2 = 126)"
  using and_high_mask [of "of_be_bytes [h, l] :: u16" 8 "0xFF00", folded high_masks(4)]
    and_high_mask [of "of_be_bytes [h, l] :: u16" 6 "0xFE80", folded high_masks(5)]
    and_high_mask [of "of_be_bytes [h, l] :: u16" 6 "0xFEC0", folded high_masks(5)]
    and_high_mask [of "of_be_bytes [h, l] :: u16" 9 "0xFC00", folded high_masks(6)]
  by (simp_all add: unat_seg segment_div [OF unat_bounds(1)] div_less [OF unat_bounds(1)])

lemma seg_eq: "(of_be_bytes [h, l] = (v :: u16)) = (256 * unat h + unat l = unat v)"
  unfolding word_unat_eq_iff unat_seg ..

lemma seg_zero: "(of_be_bytes [h, l] = (0 :: u16)) = (h = 0 \<and> l = 0)"
  unfolding seg_eq by (simp add: unat_eq_0)

lemma seg_split:
  assumes "unat v = 256 * unat a + unat b"
  shows "(of_be_bytes [h, l] = (v :: u16)) = (h = a \<and> l = b)"
proof -
  have "(256 * x + y = 256 * p + q) = (x = p \<and> y = q)" if "y < 256" "q < 256" for x y p q :: nat
  proof
    assume eq: "256 * x + y = 256 * p + q"
    from arg_cong [OF this, of "\<lambda>v. v div 256"] that have "x = p" by simp
    with eq show "x = p \<and> y = q" by simp
  qed simp
  from this [OF unat_bounds(1) unat_bounds(1)] show ?thesis
    unfolding seg_eq assms by (simp add: word_unat_eq_iff)
qed

lemma v4_table:
  assumes "length a = 4"
  shows "v4_always_blocked a = list_ex (\<lambda>nl. in_block nl a) reserved_v4"
    and "v4_private a = list_ex (\<lambda>nl. in_block nl a) private_v4"
proof -
  obtain w x y z where a: "a = [w, x, y, z]"
    using assms by (auto simp: numeral_eq_Suc length_Suc_conv)
  have top: "(224 \<le> w \<and> w \<le> 239) = (unat w div 16 = 14)" "(16 \<le> x \<and> x \<le> 31) = (unat x div 16 = 1)"
    by (auto simp: word_le_nat_alt)
  have all: "w = 255 \<Longrightarrow> unat w div 16 = 15" by simp
  show "v4_always_blocked a = list_ex (\<lambda>nl. in_block nl a) reserved_v4"
    by (simp add: v4_always_blocked_def reserved_v4_def in_block_def a octet_masks top) (use all in argo)
  show "v4_private a = list_ex (\<lambda>nl. in_block nl a) private_v4"
    by (simp add: v4_private_def private_v4_def in_block_def a top)
qed

lemma v6_table:
  assumes "length a = 16"
  shows "v6_always_blocked a = list_ex (\<lambda>nl. in_block nl a) reserved_v6"
    and "(seg a 0 AND 0xFE00 = 0xFC00) = list_ex (\<lambda>nl. in_block nl a) private_v6"
proof -
  obtain a0 a1 a2 a3 a4 a5 a6 a7 rest where a: "a = a0 # a1 # a2 # a3 # a4 # a5 # a6 # a7 # rest" "length rest = 8"
    using assms by (auto simp: numeral_eq_Suc length_Suc_conv)
  have segs: "seg a 0 = of_be_bytes [a0, a1]" "seg a 1 = of_be_bytes [a2, a3]" "seg a 2 = of_be_bytes [a4, a5]"
    "seg a 3 = of_be_bytes [a6, a7]"
    by (simp_all add: seg_def a(1))
  have words: "(of_be_bytes [h, l] = (0x2001 :: u16)) = (h = 0x20 \<and> l = 1)" "(of_be_bytes [h, l] = (0x0DB8 :: u16)) = (h = 0x0D \<and> l = 0xB8)"
    "(of_be_bytes [h, l] = (0x0064 :: u16)) = (h = 0 \<and> l = 0x64)" "(of_be_bytes [h, l] = (0xFF9B :: u16)) = (h = 0xFF \<and> l = 0x9B)"
    "(of_be_bytes [h, l] = (0x0100 :: u16)) = (h = 1 \<and> l = 0)" for h l
    by (rule seg_split; simp)+
  have bytes: "(unat h = 255) = (h = 0xFF)" "(unat h = 254) = (h = 0xFE)" for h :: u8
    by (simp_all add: word_unat_eq_iff)
  have full: "(take 16 a = take 16 b) = (a = b)" if "length b = 16" for b
    using assms that by simp
  have whole: "in_block (replicate 16 0, 128) a = v6_unspecified a" "in_block (replicate 15 0 @ [1], 128) a = v6_loopback a"
    unfolding in_block_def v6_unspecified_def v6_loopback_def using full [of "replicate 16 0"] full [of "replicate 15 0 @ [1]"] by simp_all
  have upto: "[1..<4] = [1, 2, 3 :: nat]" by (simp add: upt_rec)
  have part: "in_block ([0, 0x64, 0xFF, 0x9B], 32) a = (seg a 0 = 0x0064 \<and> seg a 1 = 0xFF9B)"
    "in_block ([1, 0, 0, 0, 0, 0, 0, 0], 64) a = (seg a 0 = 0x0100 \<and> list_all (\<lambda>i. seg a i = 0) [1..<4])"
    "in_block ([0x20, 1, 0, 0], 32) a = (seg a 0 = 0x2001 \<and> seg a 1 = 0)"
    "in_block ([0x20, 1, 0x0D, 0xB8], 32) a = (seg a 0 = 0x2001 \<and> seg a 1 = 0x0DB8)"
    unfolding upto list.pred_inject segs words seg_zero by (simp_all add: in_block_def a(1))
  have mask: "in_block ([0xFE, 0x80], 10) a = (seg a 0 AND 0xFFC0 = 0xFE80)" "in_block ([0xFE, 0xC0], 10) a = (seg a 0 AND 0xFFC0 = 0xFEC0)"
    "in_block ([0xFF], 8) a = (seg a 0 AND 0xFF00 = 0xFF00)" "in_block ([0xFC], 7) a = (seg a 0 AND 0xFE00 = 0xFC00)"
    unfolding segs segment_masks bytes by (simp_all add: in_block_def a(1) bytes)
  show "v6_always_blocked a = list_ex (\<lambda>nl. in_block nl a) reserved_v6"
    unfolding v6_always_blocked_def reserved_v6_def whole [symmetric] part [symmetric] mask [symmetric] by auto
  show "(seg a 0 AND 0xFE00 = 0xFC00) = list_ex (\<lambda>nl. in_block nl a) private_v6"
    by (simp add: private_v6_def mask)
qed

lemma canonicalize_embedded:
  assumes "ip_ok ip"
  shows "canonicalize ip = embedded ip" and "ip_ok (embedded ip)"
proof -
  show "ip_ok (embedded ip)"
    using assms by (auto simp: ip_ok_def embedded_def split: ip_addr.splits)
  show "canonicalize ip = embedded ip"
  proof (cases ip)
    case (V6 a)
    then have len: "length a = 16" using assms by (simp add: ip_ok_def)
    obtain a0 a1 a2 a3 a4 a5 a6 a7 a8 a9 a10 a11 w x y z where
      a: "a = [a0, a1, a2, a3, a4, a5, a6, a7, a8, a9, a10, a11, w, x, y, z]"
      using len by (auto simp: numeral_eq_Suc length_Suc_conv)
    have upto: "[0..<6] = [0, 1, 2, 3, 4, 5 :: nat]" by (simp add: upt_rec)
    have "list_all (\<lambda>i. seg a i = 0) [0..<6] = (take 12 a = replicate 12 0)"
      unfolding upto by (simp add: seg_def a seg_zero conj_assoc numeral_eq_Suc)
    moreover have "be_bytes 2 (seg a 6) @ be_bytes 2 (seg a 7) = drop 12 a"
      by (simp add: seg_def a be_bytes_of_be_bytes)
    moreover have "v6_loopback a = (take 12 a = replicate 12 0 \<and> drop 12 a = [0, 0, 0, 1])"
      "v6_unspecified a = (take 12 a = replicate 12 0 \<and> drop 12 a = [0, 0, 0, 0])"
      by (auto simp: v6_loopback_def v6_unspecified_def a numeral_eq_Suc)
    moreover have "to_ipv4_mapped a = (if take 12 a = replicate 10 0 @ [0xFF, 0xFF] then Some (drop 12 a) else None)"
      by (simp add: to_ipv4_mapped_def numeral_eq_Suc)
    ultimately show ?thesis by (simp add: V6 canonicalize_def embedded_def)
  qed (simp add: canonicalize_def embedded_def)
qed

lemma address_guard_table:
  assumes "ip_ok ip"
  shows "classify net_contains ip nets =
    (if in_table reserved_v4 reserved_v6 (embedded ip) then VdBlockedReserved
     else if in_table private_v4 private_v6 (embedded ip) \<and> \<not> list_ex (\<lambda>net. net_contains net (embedded ip)) nets
       then VdBlockedPrivate
     else VdAllowed)"
proof -
  have c: "canonicalize ip = embedded ip" and ok: "ip_ok (embedded ip)" using canonicalize_embedded [OF assms] by simp_all
  have "is_always_blocked (embedded ip) = in_table reserved_v4 reserved_v6 (embedded ip)"
    "is_private (embedded ip) = in_table private_v4 private_v6 (embedded ip)"
    using ok v4_table v6_table by (auto simp: is_always_blocked_def is_private_def in_table_def ip_ok_def split: ip_addr.splits)
  then show ?thesis by (auto simp: classify_def c Let_def)
qed



text \<open>The table has no block for 6to4: an address that carries the loopback address in that form passes.\<close>

lemma six_to_four_passes:
  "classify net_contains (V6 [0x20, 0x02, 127, 0, 0, 1, 0, 0, 0, 0, 0, 0, 0, 0, 0, 0]) [] = VdAllowed"
  by code_simp

end
