(* ===== verification/Outbound_Calls.thy ===== *)
theory Outbound_Calls
  imports Outbound_Policy
begin

text \<open>
  The two outbound capabilities of a filter.  HTTP (\<open>host/src/outbound_http.rs\<close>): one call is resolved,
  vetted and dialled by the host.  TCP (\<open>host/src/outbound_tcp.rs\<close>): the guest drives the connect, and the
  host keeps the two seams -- name lookup and the connect gate -- together with the accounts of live
  sockets.  The resolver, the dialled connection and the parser of address literals are arguments.
\<close>

type_synonym sock_addr = "ip_addr \<times> u16"

subsection \<open>Outbound HTTP\<close>

datatype http_error =
    HttpProtocolError
  | HttpRequestUriInvalid
  | HttpRequestDenied
  | ConnectionLimitReached
  | DnsError
  | DestinationIpProhibited
  | ConnectionTimeout
  | SendErr string

text \<open>The target of a request: the scheme and, when there is an authority, its host and port.\<close>

record uri_target =
  ut_scheme :: "string option"
  ut_authority :: "(string \<times> u16 option) option"

definition target_scheme :: "uri_target \<Rightarrow> url_scheme option" where
  "target_scheme t =
     (if ut_scheme t = Some ''https'' then Some SchemeHttps
      else if ut_scheme t = Some ''http'' then Some SchemeHttp else None)"

definition authority_of :: "uri_target \<Rightarrow> bool \<Rightarrow> (string \<times> u16) option" where
  "authority_of t use_tls =
     (case ut_authority t of
        None \<Rightarrow> None
      | Some (host, port) \<Rightarrow>
          if host = [] then None
          else Some (host, case port of Some p \<Rightarrow> p | None \<Rightarrow> if use_tls then 443 else 80))"

definition all_addresses_allowed :: "('n \<Rightarrow> ip_addr \<Rightarrow> bool) \<Rightarrow> 'n outbound_policy \<Rightarrow> sock_addr list \<Rightarrow> bool" where
  "all_addresses_allowed net_contains pol addrs = list_all (\<lambda>a. policy_classify net_contains pol (fst a) = VdAllowed) addrs"

text \<open>
  The addresses dialled, and the outcome.  \<open>connect\<close> stands for the connection and the exchange on it,
  given the address and the host the certificate is checked against.
\<close>

definition resolve_and_connect ::
    "('n \<Rightarrow> ip_addr \<Rightarrow> bool) \<Rightarrow> (string \<Rightarrow> u16 \<Rightarrow> sock_addr list option) \<Rightarrow> (sock_addr \<Rightarrow> string \<Rightarrow> bool \<Rightarrow> (http_error, 'r) result)
       \<Rightarrow> 'n outbound_policy \<Rightarrow> string \<Rightarrow> u16 \<Rightarrow> bool \<Rightarrow> sock_addr list \<times> (http_error, 'r) result" where
  "resolve_and_connect net_contains resolve connect pol host port use_tls =
     (case resolve host port of
        None \<Rightarrow> ([], Inl DnsError)
      | Some [] \<Rightarrow> ([], Inl DnsError)
      | Some (first # rest) \<Rightarrow>
          if \<not> all_addresses_allowed net_contains pol (first # rest) then ([], Inl DestinationIpProhibited)
          else ([first], connect first host use_tls))"

text \<open>Where the deadline of the call strikes, if it does.\<close>

datatype deadline = StrikesResolving | StrikesConnected | InTime

text \<open>\<open>avail\<close> counts the free permits; a permit goes with a response and comes back on an error.\<close>

definition dispatch_http ::
    "('n \<Rightarrow> ip_addr \<Rightarrow> bool) \<Rightarrow> (string \<Rightarrow> u16 \<Rightarrow> sock_addr list option) \<Rightarrow> (sock_addr \<Rightarrow> string \<Rightarrow> bool \<Rightarrow> (http_error, 'r) result)
       \<Rightarrow> 'n outbound_policy \<Rightarrow> deadline \<Rightarrow> uri_target \<Rightarrow> nat \<Rightarrow> nat \<times> sock_addr list \<times> (http_error, 'r) result" where
  "dispatch_http net_contains resolve connect pol dl req avail =
     (case target_scheme req of
        None \<Rightarrow> (avail, [], Inl HttpProtocolError)
      | Some scheme \<Rightarrow>
          let use_tls = (scheme = SchemeHttps)
          in case authority_of req use_tls of
               None \<Rightarrow> (avail, [], Inl HttpRequestUriInvalid)
             | Some (host, port) \<Rightarrow>
                 if \<not> policy_allows pol scheme host port then (avail, [], Inl HttpRequestDenied)
                 else if avail = 0 then (avail, [], Inl ConnectionLimitReached)
                 else
                   let (dialled, outcome) = resolve_and_connect net_contains resolve connect pol host port use_tls
                   in case dl of
                        StrikesResolving \<Rightarrow> (avail, [], Inl ConnectionTimeout)
                      | StrikesConnected \<Rightarrow> (avail, dialled, Inl ConnectionTimeout)
                      | InTime \<Rightarrow>
                          (case outcome of Inl err \<Rightarrow> (avail, dialled, Inl err) | Inr r \<Rightarrow> (avail - 1, dialled, Inr r)))"

text \<open>The body of a response holds the permit until it ends, fails, times out or is dropped.\<close>

datatype 'f inner_poll = PollPending | PollFrame 'f | PollEnd | PollErr string

datatype 'f body_poll = BodyPending | BodyFrame 'f | BodyEnd | BodyErr string | BodyReadTimeout

definition release_lifetime :: "bool \<Rightarrow> nat \<Rightarrow> bool \<times> nat" where
  "release_lifetime live avail = (False, if live then avail + 1 else avail)"

definition poll_frame :: "bool \<Rightarrow> 'f inner_poll \<Rightarrow> bool \<Rightarrow> nat \<Rightarrow> (bool \<times> nat) \<times> 'f body_poll" where
  "poll_frame deadline_over inner live avail =
     (if \<not> live then ((live, avail), BodyEnd)
      else if deadline_over then (release_lifetime live avail, BodyReadTimeout)
      else case inner of
             PollPending \<Rightarrow> ((live, avail), BodyPending)
           | PollFrame f \<Rightarrow> ((live, avail), BodyFrame f)
           | PollEnd \<Rightarrow> (release_lifetime live avail, BodyEnd)
           | PollErr e \<Rightarrow> (release_lifetime live avail, BodyErr e))"

subsection \<open>Outbound TCP: the socket accounts\<close>

definition MAX_PINNED_IPS :: nat where
  "MAX_PINNED_IPS = 1024"

definition MAX_LIVE_TCP_SOCKETS_PER_STORE :: u32 where
  "MAX_LIVE_TCP_SOCKETS_PER_STORE = 64"

definition MAX_LIVE_TCP_SOCKETS_PER_HOST :: u32 where
  "MAX_LIVE_TCP_SOCKETS_PER_HOST = 1024"

record tcp_socket_quota =
  sq_used :: u32
  sq_limit :: u32

definition tcp_socket_quota_new :: tcp_socket_quota where
  "tcp_socket_quota_new = \<lparr>sq_used = 0, sq_limit = MAX_LIVE_TCP_SOCKETS_PER_HOST\<rparr>"

definition quota_try_acquire :: "tcp_socket_quota \<Rightarrow> tcp_socket_quota option" where
  "quota_try_acquire q = (if sq_used q < sq_limit q then Some (q\<lparr>sq_used := sq_used q + 1\<rparr>) else None)"

text \<open>A release past the reservations is logged and changes nothing.\<close>

definition quota_release :: "tcp_socket_quota \<Rightarrow> u32 \<Rightarrow> tcp_socket_quota" where
  "quota_release q count =
     (if count = 0 then q
      else case checked_sub (sq_used q) count of Some u \<Rightarrow> q\<lparr>sq_used := u\<rparr> | None \<Rightarrow> q)"

text \<open>The pinned map: addresses with the names that resolved to them, in order of insertion.\<close>

record 'n guard_inner =
  gi_policy :: "'n outbound_tcp_policy"
  gi_pinned :: "(ip_addr \<times> string list) list"
  gi_connects :: u32
  gi_live_sockets :: u32

definition fresh_guard :: "'n outbound_tcp_policy \<Rightarrow> 'n guard_inner" where
  "fresh_guard pol = \<lparr>gi_policy = pol, gi_pinned = [], gi_connects = 0, gi_live_sockets = 0\<rparr>"

definition try_acquire_live_socket ::
    "'n guard_inner option \<Rightarrow> tcp_socket_quota \<Rightarrow> 'n guard_inner option \<times> tcp_socket_quota \<times> bool" where
  "try_acquire_live_socket guard q =
     (case guard of
        None \<Rightarrow> (None, q, False)
      | Some g \<Rightarrow>
          if gi_live_sockets g < MAX_LIVE_TCP_SOCKETS_PER_STORE
          then let g' = g\<lparr>gi_live_sockets := gi_live_sockets g + 1\<rparr>
               in case quota_try_acquire q of
                    Some q' \<Rightarrow> (Some g', q', True)
                  | None \<Rightarrow> (Some (g'\<lparr>gi_live_sockets := gi_live_sockets g' - 1\<rparr>), q, False)
          else (Some g, q, False))"

definition release_live_socket :: "'n guard_inner option \<Rightarrow> tcp_socket_quota \<Rightarrow> 'n guard_inner option \<times> tcp_socket_quota" where
  "release_live_socket guard q =
     (case guard of
        None \<Rightarrow> (None, q)
      | Some g \<Rightarrow>
          if 0 < gi_live_sockets g then (Some (g\<lparr>gi_live_sockets := gi_live_sockets g - 1\<rparr>), quota_release q 1)
          else (Some g, q))"

definition drop_guard :: "'n guard_inner \<Rightarrow> tcp_socket_quota \<Rightarrow> tcp_socket_quota" where
  "drop_guard g q = quota_release q (gi_live_sockets g)"

definition tcp_begin_request :: "'n guard_inner option \<Rightarrow> 'n guard_inner option" where
  "tcp_begin_request guard = map_option (\<lambda>g. g\<lparr>gi_connects := 0\<rparr>) guard"

subsection \<open>Outbound TCP: the two seams\<close>

datatype socket_addr_use = TcpConnect | TcpBind | TcpListen | TcpAccept | UdpBind | UdpSend | UdpReceive

definition ip_unspecified :: "ip_addr \<Rightarrow> bool" where
  "ip_unspecified ip = (case ip of V4 a \<Rightarrow> a = [0, 0, 0, 0] | V6 a \<Rightarrow> v6_unspecified a)"

definition entry_matches :: "(string \<Rightarrow> ip_addr option) \<Rightarrow> (ip_addr \<times> string list) list \<Rightarrow> ip_addr \<Rightarrow> u16 \<Rightarrow> tcp_allow_entry \<Rightarrow> bool" where
  "entry_matches parse_ip pinned ip port e \<longleftrightarrow>
     te_port e = port
     \<and> ((case parse_ip (te_host e) of Some lit \<Rightarrow> unmap_v4 lit = ip | None \<Rightarrow> False)
        \<or> (case map_of pinned ip of Some names \<Rightarrow> to_ascii_lowercase (te_host e) \<in> set names | None \<Rightarrow> False))"

definition permits ::
    "('n \<Rightarrow> ip_addr \<Rightarrow> bool) \<Rightarrow> (string \<Rightarrow> ip_addr option) \<Rightarrow> 'n guard_inner option \<Rightarrow> sock_addr \<Rightarrow> socket_addr_use
       \<Rightarrow> 'n guard_inner option \<times> bool" where
  "permits net_contains parse_ip guard addr addr_use =
     (case guard of
        None \<Rightarrow> (None, False)
      | Some g \<Rightarrow>
          (case addr_use of
             TcpBind \<Rightarrow> (Some g, ip_unspecified (fst addr) \<and> snd addr = 0)
           | TcpConnect \<Rightarrow>
               let ip = unmap_v4 (fst addr)
               in if tcp_classify net_contains (gi_policy g) ip \<noteq> VdAllowed then (Some g, False)
                  else if \<not> list_ex (entry_matches parse_ip (gi_pinned g) ip (snd addr)) (ot_allow (gi_policy g)) then (Some g, False)
                  else if gi_connects g < ot_max_connections (gi_policy g)
                    then (Some (g\<lparr>gi_connects := gi_connects g + 1\<rparr>), True)
                  else (Some g, False)
           | _ \<Rightarrow> (Some g, False)))"

datatype vetted_resolve_error = PermanentResolverFailure | NameUnresolvable

text \<open>\<open>entry(ip).or_default().insert(name)\<close>.\<close>

fun pin :: "(ip_addr \<times> string list) list \<Rightarrow> ip_addr \<Rightarrow> string \<Rightarrow> (ip_addr \<times> string list) list" where
  "pin [] ip name = [(ip, [name])]"
| "pin ((a, names) # ps) ip name = (if a = ip then (a, List.insert name names) # ps else (a, names) # pin ps ip name)"

text \<open>At the cap the lookup fails; what it pinned before stays.\<close>

fun pin_all :: "(ip_addr \<times> string list) list \<Rightarrow> string \<Rightarrow> ip_addr list \<Rightarrow> (ip_addr \<times> string list) list \<times> bool" where
  "pin_all pinned name [] = (pinned, True)"
| "pin_all pinned name (ip # ips) =
     (if map_of pinned ip = None \<and> MAX_PINNED_IPS \<le> length pinned then (pinned, False)
      else pin_all (pin pinned ip name) name ips)"

text \<open>\<open>answer\<close> is what the resolver says for the lower-case name, \<open>None\<close> for a failure.\<close>

definition resolve_vetted ::
    "('n \<Rightarrow> ip_addr \<Rightarrow> bool) \<Rightarrow> 'n guard_inner option \<Rightarrow> string \<Rightarrow> ip_addr list option
       \<Rightarrow> 'n guard_inner option \<times> (vetted_resolve_error, ip_addr list) result" where
  "resolve_vetted net_contains guard name answer =
     (case guard of
        None \<Rightarrow> (None, Inl PermanentResolverFailure)
      | Some g \<Rightarrow>
          let lower = to_ascii_lowercase name
          in if \<not> allows_name (gi_policy g) lower then (Some g, Inl PermanentResolverFailure)
             else case answer of
               None \<Rightarrow> (Some g, Inl NameUnresolvable)
             | Some [] \<Rightarrow> (Some g, Inl NameUnresolvable)
             | Some addrs \<Rightarrow>
                 let ips = map unmap_v4 addrs
                 in if list_ex (\<lambda>ip. tcp_classify net_contains (gi_policy g) ip \<noteq> VdAllowed) ips
                    then (Some g, Inl PermanentResolverFailure)
                    else (case pin_all (gi_pinned g) lower ips of
                            (pinned, ok) \<Rightarrow>
                              (Some (g\<lparr>gi_pinned := pinned\<rparr>), if ok then Inr ips else Inl PermanentResolverFailure)))"

subsection \<open>What an HTTP call dials\<close>

lemma resolve_and_connect_dials:
  "resolve_and_connect net_contains resolve connect pol host port tls = (dialled, outcome) \<Longrightarrow> a \<in> set dialled \<Longrightarrow>
     dialled = [a] \<and> outcome = connect a host tls
     \<and> (\<exists>rest. resolve host port = Some (a # rest) \<and> all_addresses_allowed net_contains pol (a # rest))"
  by (auto simp: resolve_and_connect_def split: option.splits list.splits if_splits)

lemma dispatch_facts:
  assumes "dispatch_http net_contains resolve connect pol dl req avail = (avail', dialled, outcome)"
  shows "length dialled \<le> 1
    \<and> list_all (\<lambda>a. \<exists>scheme host port rest.
          target_scheme req = Some scheme \<and> authority_of req (scheme = SchemeHttps) = Some (host, port)
          \<and> policy_allows pol scheme host port
          \<and> resolve host port = Some (a # rest) \<and> all_addresses_allowed net_contains pol (a # rest)) dialled
    \<and> avail = avail' + (case outcome of Inl _ \<Rightarrow> 0 | Inr _ \<Rightarrow> 1)"
proof (cases "\<exists>scheme host port. target_scheme req = Some scheme \<and> authority_of req (scheme = SchemeHttps) = Some (host, port)
      \<and> policy_allows pol scheme host port \<and> 0 < avail")
  case True
  then obtain scheme host port where req: "target_scheme req = Some scheme" "authority_of req (scheme = SchemeHttps) = Some (host, port)"
      "policy_allows pol scheme host port" "0 < avail" by blast
  obtain d r where rc: "resolve_and_connect net_contains resolve connect pol host port (scheme = SchemeHttps) = (d, r)" by fastforce
  have run: "dispatch_http net_contains resolve connect pol dl req avail =
      (case dl of StrikesResolving \<Rightarrow> (avail, [], Inl ConnectionTimeout) | StrikesConnected \<Rightarrow> (avail, d, Inl ConnectionTimeout)
       | InTime \<Rightarrow> (case r of Inl err \<Rightarrow> (avail, d, Inl err) | Inr v \<Rightarrow> (avail - 1, d, Inr v)))"
    using gr_implies_not0 [OF req(4)] by (simp add: dispatch_http_def req(1-3) Let_def rc)
  have "dialled = d \<or> dialled = []" and bal: "avail = avail' + (case outcome of Inl _ \<Rightarrow> 0 | Inr _ \<Rightarrow> 1)"
    using assms run req(4) by (auto split: deadline.splits sum.splits)
  moreover have "d = [] \<or> (\<exists>a rest. d = [a] \<and> resolve host port = Some (a # rest) \<and> all_addresses_allowed net_contains pol (a # rest))"
    using resolve_and_connect_dials [OF rc] by (cases d) auto
  ultimately show ?thesis using req by auto
next
  case False
  then have "avail' = avail \<and> dialled = [] \<and> (\<exists>err. outcome = Inl err)"
    using assms by (auto simp: dispatch_http_def Let_def split: option.splits if_splits)
  then show ?thesis by auto
qed

lemmas dispatch_balance = dispatch_facts [THEN conjunct2, THEN conjunct2]

text \<open>
  C21: The host dials nothing it has not vetted.  A call dials at most one address; that address is the first
  the host's own resolution of the requested host gave, every address of that resolution is allowed by the
  guard, and the scheme, host and port are on the operator's list.  A call takes a permit exactly when it
  yields a response, and never one that is not free.
\<close>

theorem http_dials_only_vetted:
  assumes "dispatch_http net_contains resolve connect pol dl req avail = (avail', dialled, outcome)"
  shows "length dialled \<le> 1
    \<and> list_all (\<lambda>a. \<exists>scheme host port rest.
          target_scheme req = Some scheme \<and> authority_of req (scheme = SchemeHttps) = Some (host, port)
          \<and> policy_allows pol scheme host port
          \<and> resolve host port = Some (a # rest) \<and> all_addresses_allowed net_contains pol (a # rest)) dialled
    \<and> avail = avail' + (case outcome of Inl _ \<Rightarrow> 0 | Inr _ \<Rightarrow> 1)"
  by (rule dispatch_facts [OF assms])

definition sample_http_policy :: "unit outbound_policy" where
  "sample_http_policy =
     \<lparr>op_allow = [\<lparr>ae_scheme = SchemeHttps, ae_host = ''idp.test'', ae_port = 443\<rparr>], op_allow_private = [], op_connect_timeout = 1,
      op_total_timeout = 1, op_max_response_bytes = 10, op_max_concurrent = 1\<rparr>"

theorem http_dials_only_vetted_witness:
  "list_all (\<lambda>a. \<exists>scheme host port rest.
       target_scheme \<lparr>ut_scheme = Some ''https'', ut_authority = Some (''idp.test'', None)\<rparr> = Some scheme
       \<and> authority_of \<lparr>ut_scheme = Some ''https'', ut_authority = Some (''idp.test'', None)\<rparr> (scheme = SchemeHttps) = Some (host, port)
       \<and> policy_allows sample_http_policy scheme host port
       \<and> Some [(V4 [8, 8, 8, 8], 443)] = Some (a # rest) \<and> all_addresses_allowed (\<lambda>_ _. False) sample_http_policy (a # rest))
     [(V4 [8, 8, 8, 8], 443)]"
proof -
  have "dispatch_http (\<lambda>_ _. False) (\<lambda>_ _. Some [(V4 [8, 8, 8, 8], 443)]) (\<lambda>_ _ _. Inr ()) sample_http_policy InTime
      \<lparr>ut_scheme = Some ''https'', ut_authority = Some (''idp.test'', None)\<rparr> 1 = (0, [(V4 [8, 8, 8, 8], 443)], Inr ())"
    by code_simp
  from http_dials_only_vetted [OF this] show ?thesis by blast
qed

subsection \<open>The permits of HTTP calls\<close>

text \<open>
  The calls of one filter: the free permits, and for every response so far whether its body still holds
  its permit.  An event is a call with its outcome, a poll of a body or the drop of one.
\<close>

datatype 'f http_event = EvCall "nat \<Rightarrow> nat \<times> bool" | EvPoll nat bool "'f inner_poll" | EvDrop nat

fun http_step :: "'f http_event \<Rightarrow> nat \<times> bool list \<Rightarrow> nat \<times> bool list" where
  "http_step (EvCall call) (avail, bodies) =
     (case call avail of (avail', got) \<Rightarrow> (avail', if got then bodies @ [True] else bodies))"
| "http_step (EvPoll i over inner) (avail, bodies) =
     (if i < length bodies
      then case poll_frame over inner (bodies ! i) avail of ((live, avail'), _) \<Rightarrow> (avail', bodies[i := live])
      else (avail, bodies))"
| "http_step (EvDrop i) (avail, bodies) =
     (if i < length bodies
      then case release_lifetime (bodies ! i) avail of (live, avail') \<Rightarrow> (avail', bodies[i := live])
      else (avail, bodies))"

text \<open>A call event that the dispatch produces.\<close>

definition real_call ::
    "('n \<Rightarrow> ip_addr \<Rightarrow> bool) \<Rightarrow> 'n outbound_policy \<Rightarrow> 'f http_event \<Rightarrow> bool" where
  "real_call net_contains pol ev =
     (case ev of
        EvCall call \<Rightarrow>
          \<exists>resolve (connect :: sock_addr \<Rightarrow> string \<Rightarrow> bool \<Rightarrow> (http_error, unit) result) dl req.
            call = (\<lambda>avail. case dispatch_http net_contains resolve connect pol dl req avail of
                              (avail', _, outcome) \<Rightarrow> (avail', \<exists>r. outcome = Inr r))
      | _ \<Rightarrow> True)"

lemma poll_balance: "poll_frame over inner live avail = ((live', avail'), res) \<Longrightarrow>
    avail' + (if live' then 1 else 0) = avail + (if live then 1 else 0)"
  by (auto simp: poll_frame_def release_lifetime_def split: if_splits inner_poll.splits)

lemma http_step_balance:
  assumes "real_call net_contains pol ev" and "http_step ev (avail, bodies) = (avail', bodies')"
  shows "avail' + tally id bodies' = avail + tally id bodies"
proof (cases ev)
  case (EvCall call)
  obtain a got where c: "call avail = (a, got)" by fastforce
  obtain resolve and connect :: "sock_addr \<Rightarrow> string \<Rightarrow> bool \<Rightarrow> (http_error, unit) result" and dl req where
      call: "call = (\<lambda>avail. case dispatch_http net_contains resolve connect pol dl req avail of (avail', _, outcome) \<Rightarrow> (avail', \<exists>r. outcome = Inr r))"
    using assms(1) EvCall by (auto simp: real_call_def)
  obtain d out where d: "dispatch_http net_contains resolve connect pol dl req avail = (a, d, out)" "got = (\<exists>r. out = Inr r)"
    using c call by (auto split: prod.splits)
  have "avail = a + (if got then 1 else 0)"
    using dispatch_balance [OF d(1)] d(2) by (cases out) auto
  then show ?thesis using assms(2) EvCall c by auto
next
  case (EvPoll i over inner)
  show ?thesis
  proof (cases "i < length bodies")
    case True
    obtain l a r where p: "poll_frame over inner (bodies ! i) avail = ((l, a), r)" by (metis prod.collapse)
    with True tally_update [OF True, of id l] poll_balance [OF p] assms(2) EvPoll show ?thesis by (auto split: if_splits)
  qed (use assms(2) EvPoll in auto)
next
  case (EvDrop i)
  with assms(2) tally_update [of i bodies id False] show ?thesis
    by (auto simp: release_lifetime_def split: if_splits)
qed

text \<open>
  No permit is lost or made up.  After any sequence of outbound calls, polls and drops, the free permits
  and the bodies that still hold one add up to the filter's concurrency limit; so at most that many
  responses are open at once.
\<close>

theorem http_permits_balanced:
  assumes "list_all (real_call net_contains pol) evs"
  shows "(case fold http_step evs (unat (op_max_concurrent pol), []) of
    (avail, bodies) \<Rightarrow> avail + tally id bodies = unat (op_max_concurrent pol))"
proof -
  have "list_all (real_call net_contains pol) evs \<Longrightarrow> (case fold http_step evs (a, b) of (a', b') \<Rightarrow> a' + tally id b' = a + tally id b)" for a b
  proof (induction evs arbitrary: a b)
    case (Cons ev evs)
    obtain a1 b1 where s: "http_step ev (a, b) = (a1, b1)" by fastforce
    from Cons.prems have real: "real_call net_contains pol ev" and rest: "list_all (real_call net_contains pol) evs" by simp_all
    show ?case using Cons.IH [OF rest, of a1 b1] http_step_balance [OF real s] s by (auto simp: id_def)
  qed simp
  from this [OF assms, of "unat (op_max_concurrent pol)" "[]"] show ?thesis by simp
qed

definition sample_call :: "nat \<Rightarrow> nat \<times> bool" where
  "sample_call =
     (\<lambda>avail. case dispatch_http (\<lambda>_ _. False) (\<lambda>_ _. Some [(V4 [8, 8, 8, 8], 443)])
         (\<lambda>_ _ _. Inr () :: (http_error, unit) result) sample_http_policy InTime
         \<lparr>ut_scheme = Some ''https'', ut_authority = Some (''idp.test'', None)\<rparr> avail of
       (avail', _, outcome) \<Rightarrow> (avail', \<exists>r. outcome = Inr r))"

theorem http_permits_balanced_witness:
  "(case fold http_step [EvCall sample_call, EvPoll 0 False (PollFrame ()), EvPoll 0 False PollEnd, EvDrop 0]
      (unat (op_max_concurrent sample_http_policy), []) of
    (avail, bodies) \<Rightarrow> avail + tally id bodies = unat (op_max_concurrent sample_http_policy))"
proof (rule http_permits_balanced)
  have "real_call (\<lambda>_ _. False) sample_http_policy (EvCall sample_call)"
    unfolding real_call_def http_event.case sample_call_def by (intro exI) (rule refl)
  then show "list_all (real_call (\<lambda>_ _. False) sample_http_policy)
      [EvCall sample_call, EvPoll 0 False (PollFrame ()), EvPoll 0 False PollEnd, EvDrop 0]"
    by (simp add: real_call_def)
qed

subsection \<open>What a guest may connect to\<close>

text \<open>
  What a guest does with its capability between the start of its store and now: lookups, with what the
  resolver answered, address checks, and the starts of requests.
\<close>

datatype guest_op = OpLookup string "ip_addr list option" | OpCheck sock_addr socket_addr_use | OpBegin

fun guest_step :: "('n \<Rightarrow> ip_addr \<Rightarrow> bool) \<Rightarrow> (string \<Rightarrow> ip_addr option) \<Rightarrow> guest_op \<Rightarrow> 'n guard_inner option \<Rightarrow> 'n guard_inner option" where
  "guest_step net_contains parse_ip (OpLookup name answer) g = fst (resolve_vetted net_contains g name answer)"
| "guest_step net_contains parse_ip (OpCheck addr use) g = fst (permits net_contains parse_ip g addr use)"
| "guest_step net_contains parse_ip OpBegin g = tcp_begin_request g"

text \<open>A lookup that vouches for a name and an address: all of its answers are allowed.\<close>

definition vouches :: "('n \<Rightarrow> ip_addr \<Rightarrow> bool) \<Rightarrow> 'n outbound_tcp_policy \<Rightarrow> string \<Rightarrow> ip_addr \<Rightarrow> guest_op \<Rightarrow> bool" where
  "vouches net_contains pol name ip op =
     (case op of
        OpLookup asked (Some answers) \<Rightarrow>
          to_ascii_lowercase asked = name \<and> ip \<in> set (map unmap_v4 answers)
          \<and> list_all (\<lambda>a. tcp_classify net_contains pol (unmap_v4 a) = VdAllowed) answers
      | _ \<Rightarrow> False)"

definition guard_inv :: "('n \<Rightarrow> ip_addr \<Rightarrow> bool) \<Rightarrow> 'n outbound_tcp_policy \<Rightarrow> guest_op list \<Rightarrow> 'n guard_inner option \<Rightarrow> bool" where
  "guard_inv net_contains pol ops guard =
     (case guard of
        None \<Rightarrow> False
      | Some g \<Rightarrow>
          gi_policy g = pol \<and> length (gi_pinned g) \<le> MAX_PINNED_IPS \<and> gi_connects g \<le> ot_max_connections pol
          \<and> (\<forall>ip names name. map_of (gi_pinned g) ip = Some names \<longrightarrow> name \<in> set names \<longrightarrow> list_ex (vouches net_contains pol name ip) ops))"

lemma pin_lookup: "map_of (pin ps ip name) a = (if a = ip then Some (case map_of ps ip of None \<Rightarrow> [name] | Some ns \<Rightarrow> List.insert name ns) else map_of ps a)"
  by (induction ps ip name rule: pin.induct) auto

lemma pin_length: "length (pin ps ip name) = (if map_of ps ip = None then length ps + 1 else length ps)"
  by (induction ps ip name rule: pin.induct) auto

lemma pin_all_facts:
  assumes "pin_all ps name ips = (ps', ok)" and "length ps \<le> MAX_PINNED_IPS"
  shows "length ps' \<le> MAX_PINNED_IPS
    \<and> (\<forall>a names n. map_of ps' a = Some names \<longrightarrow> n \<in> set names \<longrightarrow>
          (\<exists>old. map_of ps a = Some old \<and> n \<in> set old) \<or> n = name \<and> a \<in> set ips)"
  using assms
proof (induction ps name ips rule: pin_all.induct)
  case (2 ps name ip ips)
  show ?case
  proof (cases "map_of ps ip = None \<and> MAX_PINNED_IPS \<le> length ps")
    case False
    have len: "length (pin ps ip name) \<le> MAX_PINNED_IPS" using False "2.prems"(2) by (auto simp: pin_length)
    have "pin_all (pin ps ip name) name ips = (ps', ok)" using "2.prems"(1) False by (simp only: pin_all.simps if_False)
    note IH = "2.IH" [OF False this len]
    show ?thesis
    proof (intro conjI allI impI)
      fix a names n assume "map_of ps' a = Some names" "n \<in> set names"
      then consider old where "map_of (pin ps ip name) a = Some old" "n \<in> set old" | "n = name" "a \<in> set ips" using IH by blast
      then show "(\<exists>old. map_of ps a = Some old \<and> n \<in> set old) \<or> n = name \<and> a \<in> set (ip # ips)"
        by cases (auto simp: pin_lookup split: if_splits option.splits)
    qed (use IH in blast)
  qed (use "2.prems" in auto)
qed auto

lemma list_ex_snoc: "list_ex P (xs @ [x]) = (list_ex P xs \<or> P x)"
  by simp

lemma guard_inv_more: "guard_inv net_contains pol ops g \<Longrightarrow> guard_inv net_contains pol (ops @ [op]) g"
  by (auto simp: guard_inv_def split: option.splits)

lemma resolve_vetted_cases:
  assumes "gi_policy g = pol"
  shows "fst (resolve_vetted net_contains (Some g) name answer) = Some g
    \<or> (\<exists>answers. answer = Some answers \<and> list_all (\<lambda>a. tcp_classify net_contains pol (unmap_v4 a) = VdAllowed) answers
        \<and> fst (resolve_vetted net_contains (Some g) name answer)
            = Some (g\<lparr>gi_pinned := fst (pin_all (gi_pinned g) (to_ascii_lowercase name) (map unmap_v4 answers))\<rparr>))"
proof (cases "allows_name pol (to_ascii_lowercase name) \<and> (\<exists>a as. answer = Some (a # as))")
  case True
  then obtain a as where answer: "answer = Some (a # as)" by blast
  have bad: "list_ex (\<lambda>ip. tcp_classify net_contains pol ip \<noteq> VdAllowed) (map unmap_v4 (a # as))
      = (\<not> list_all (\<lambda>a. tcp_classify net_contains pol (unmap_v4 a) = VdAllowed) (a # as))"
    by (auto simp: list_ex_iff list_all_iff)
  obtain ps ok where p: "pin_all (gi_pinned g) (to_ascii_lowercase name) (map unmap_v4 (a # as)) = (ps, ok)" by fastforce
  show ?thesis
  proof (cases "list_all (\<lambda>a. tcp_classify net_contains pol (unmap_v4 a) = VdAllowed) (a # as)")
    case ok: True
    have "fst (resolve_vetted net_contains (Some g) name answer) = Some (g\<lparr>gi_pinned := ps\<rparr>)"
      using True ok unfolding answer
      by (simp only: resolve_vetted_def assms Let_def option.case list.case bad p prod.case simp_thms if_True if_False fst_conv)
    then show ?thesis using ok p unfolding answer by (intro disjI2 exI [of _ "a # as"]) (simp only: fst_conv simp_thms)
  next
    case False
    then show ?thesis
      using True unfolding answer by (simp only: resolve_vetted_def assms Let_def option.case list.case bad simp_thms if_True if_False fst_conv)
  qed
next
  case False
  then show ?thesis
    by (cases answer; cases "the answer") (auto simp: resolve_vetted_def Let_def assms)
qed

lemma guard_inv_lookup:
  assumes "guard_inv net_contains pol ops guard"
  shows "guard_inv net_contains pol (ops @ [OpLookup name answer]) (fst (resolve_vetted net_contains guard name answer))"
proof -
  obtain g where g: "guard = Some g" "gi_policy g = pol" "length (gi_pinned g) \<le> MAX_PINNED_IPS"
    using assms by (auto simp: guard_inv_def split: option.splits)
  consider "fst (resolve_vetted net_contains guard name answer) = guard"
    | answers where "answer = Some answers" "list_all (\<lambda>a. tcp_classify net_contains pol (unmap_v4 a) = VdAllowed) answers"
      "fst (resolve_vetted net_contains guard name answer)
        = Some (g\<lparr>gi_pinned := fst (pin_all (gi_pinned g) (to_ascii_lowercase name) (map unmap_v4 answers))\<rparr>)"
    using resolve_vetted_cases [OF g(2), of net_contains name answer] unfolding g(1) by blast
  then show ?thesis
  proof cases
    case 1
    then show ?thesis using guard_inv_more [OF assms] by simp
  next
    case 2
    obtain ps ok where p: "pin_all (gi_pinned g) (to_ascii_lowercase name) (map unmap_v4 answers) = (ps, ok)" by fastforce
    have new: "vouches net_contains pol (to_ascii_lowercase name) a (OpLookup name answer)" if "a \<in> set (map unmap_v4 answers)" for a
      using that 2(1,2) by (simp add: vouches_def)
    note facts = pin_all_facts [OF p g(3)]
    have old: "gi_connects g \<le> ot_max_connections pol"
      "\<And>ip names n. map_of (gi_pinned g) ip = Some names \<Longrightarrow> n \<in> set names \<Longrightarrow> list_ex (vouches net_contains pol n ip) ops"
      using assms by (auto simp: guard_inv_def g)
    have "list_ex (vouches net_contains pol n a) (ops @ [OpLookup name answer])"
      if "map_of ps a = Some names" "n \<in> set names" for a names n
    proof -
      from facts that consider ns where "map_of (gi_pinned g) a = Some ns" "n \<in> set ns"
        | "n = to_ascii_lowercase name" "a \<in> set (map unmap_v4 answers)" by blast
      then show ?thesis using old(2) new by cases (simp_all only: list_ex_snoc simp_thms)
    qed
    then show ?thesis unfolding 2(3) guard_inv_def p fst_conv using facts old(1) g(2) by simp
  qed
qed

lemma guard_inv_step:
  assumes "guard_inv net_contains pol ops guard"
  shows "guard_inv net_contains pol (ops @ [op]) (guest_step net_contains parse_ip op guard)"
proof (cases op)
  case (OpLookup name answer)
  then show ?thesis using guard_inv_lookup [OF assms] by simp
next
  case (OpCheck addr use)
  have "fst (permits net_contains parse_ip guard addr use) = guard
      \<or> (\<exists>g. guard = Some g \<and> gi_connects g < ot_max_connections (gi_policy g)
           \<and> fst (permits net_contains parse_ip guard addr use) = Some (g\<lparr>gi_connects := gi_connects g + 1\<rparr>))"
    by (cases guard; cases use) (auto simp: permits_def Let_def)
  then show ?thesis
    using guard_inv_more [OF assms, of op] OpCheck by (auto simp: guard_inv_def inc_le)
next
  case OpBegin
  then show ?thesis using guard_inv_more [OF assms, of op] by (auto simp: guard_inv_def tcp_begin_request_def split: option.splits)
qed

lemma guard_inv_run: "guard_inv net_contains pol ops (fold (guest_step net_contains parse_ip) ops (Some (fresh_guard pol)))"
proof (induction ops rule: rev_induct)
  case (snoc op ops)
  then show ?case using guard_inv_step by fastforce
qed (simp add: guard_inv_def fresh_guard_def)


definition sample_tcp_policy :: "unit outbound_tcp_policy" where
  "sample_tcp_policy =
     \<lparr>ot_allow = [\<lparr>te_host = ''Cache.test'', te_port = 6379\<rparr>], ot_allow_private = [()], ot_max_connections = 1, ot_io_deadline = 1\<rparr>"


subsection \<open>The sockets of a host\<close>

text \<open>The stores of one host by number; a store that is gone has no guard.\<close>

datatype sock_op = SockCreate nat | SockDelete nat | StoreDrop nat

fun sock_step :: "sock_op \<Rightarrow> tcp_socket_quota \<times> 'n guard_inner option list \<Rightarrow> tcp_socket_quota \<times> 'n guard_inner option list" where
  "sock_step (SockCreate i) (q, gs) =
     (if i < length gs then case try_acquire_live_socket (gs ! i) q of (g, q', _) \<Rightarrow> (q', gs[i := g]) else (q, gs))"
| "sock_step (SockDelete i) (q, gs) =
     (if i < length gs then case release_live_socket (gs ! i) q of (g, q') \<Rightarrow> (q', gs[i := g]) else (q, gs))"
| "sock_step (StoreDrop i) (q, gs) =
     (if i < length gs then (case gs ! i of None \<Rightarrow> (q, gs) | Some g \<Rightarrow> (drop_guard g q, gs[i := None])) else (q, gs))"

definition live_of :: "'n guard_inner option \<Rightarrow> nat" where
  "live_of guard = (case guard of None \<Rightarrow> 0 | Some g \<Rightarrow> unat (gi_live_sockets g))"

definition sockets_inv :: "tcp_socket_quota \<times> 'n guard_inner option list \<Rightarrow> bool" where
  "sockets_inv st =
     (case st of (q, gs) \<Rightarrow>
        sq_limit q = MAX_LIVE_TCP_SOCKETS_PER_HOST \<and> sq_used q \<le> sq_limit q
        \<and> unat (sq_used q) = (\<Sum>g \<leftarrow> gs. live_of g) \<and> list_all (\<lambda>g. live_of g \<le> 64) gs)"

lemma sum_list_change:
  fixes f :: "'a \<Rightarrow> nat"
  assumes "i < length xs"
  shows "(\<Sum>x \<leftarrow> xs[i := y]. f x) + f (xs ! i) = (\<Sum>x \<leftarrow> xs. f x) + f y" and "f (xs ! i) \<le> (\<Sum>x \<leftarrow> xs. f x)"
  using assms by (induction xs arbitrary: i) (auto simp: nth_Cons split: nat.splits intro: trans_le_add2)

lemma list_all_update: "list_all P xs \<Longrightarrow> P y \<Longrightarrow> list_all P (xs[i := y])"
  by (auto simp: list_all_iff dest!: set_update_subset_insert [THEN subsetD])

lemma unat_incr:
  assumes "a < (b :: 'a::len word)"
  shows "unat (a + 1) = unat a + 1"
proof -
  have "unat a + 1 < 2 ^ LENGTH('a)" using assms unat_lt_pow [of b] unfolding word_less_nat_alt by linarith
  then show ?thesis by (simp add: unat_word_ariths)
qed

lemma acquire_accounts:
  assumes "try_acquire_live_socket guard q = (g', q', ok)" and "sq_limit q = MAX_LIVE_TCP_SOCKETS_PER_HOST" and "live_of guard \<le> 64"
    and "sq_used q \<le> sq_limit q"
  shows "sq_limit q' = MAX_LIVE_TCP_SOCKETS_PER_HOST \<and> live_of g' \<le> 64 \<and> sq_used q' \<le> sq_limit q'
    \<and> unat (sq_used q') + live_of guard = unat (sq_used q) + live_of g'"
proof (cases guard)
  case (Some g)
  show ?thesis
  proof (cases "gi_live_sockets g < MAX_LIVE_TCP_SOCKETS_PER_STORE \<and> sq_used q < sq_limit q")
    case True
    then have "unat (gi_live_sockets g) < 64" by (simp add: word_less_nat_alt MAX_LIVE_TCP_SOCKETS_PER_STORE_def)
    moreover have "unat (gi_live_sockets g + 1) = unat (gi_live_sockets g) + 1" "unat (sq_used q + 1) = unat (sq_used q) + 1"
      using True unat_incr by blast+
    ultimately show ?thesis using True assms Some
      by (auto simp: try_acquire_live_socket_def quota_try_acquire_def live_of_def inc_le)
  qed (use assms Some in \<open>auto simp: try_acquire_live_socket_def quota_try_acquire_def live_of_def Let_def split: if_splits\<close>)
qed (use assms in \<open>auto simp: try_acquire_live_socket_def\<close>)

lemma quota_release_used: "unat n \<le> unat (sq_used q) \<Longrightarrow> unat (sq_used (quota_release q n)) = unat (sq_used q) - unat n \<and> sq_limit (quota_release q n) = sq_limit q"
  by (auto simp: quota_release_def checked_sub_def word_le_nat_alt unat_sub_le)

lemma release_accounts:
  assumes "release_live_socket guard q = (g', q')" and "live_of guard \<le> unat (sq_used q)"
  shows "sq_limit q' = sq_limit q \<and> live_of g' \<le> live_of guard \<and> unat (sq_used q') \<le> unat (sq_used q)
    \<and> unat (sq_used q') + live_of guard = unat (sq_used q) + live_of g'"
proof (cases guard)
  case (Some g)
  show ?thesis
  proof (cases "0 < gi_live_sockets g")
    case True
    then have "0 < unat (gi_live_sockets g)" "unat (gi_live_sockets g - 1) = unat (gi_live_sockets g) - 1"
      by (simp add: word_less_nat_alt, metis True unat_minus_one word_less_nat_alt unat_0 less_irrefl)
    with True assms Some quota_release_used [of 1 q] show ?thesis by (auto simp: release_live_socket_def live_of_def)
  qed (use assms Some in \<open>auto simp: release_live_socket_def live_of_def\<close>)
qed (use assms in \<open>auto simp: release_live_socket_def live_of_def\<close>)

lemma sockets_step:
  assumes "sockets_inv st"
  shows "sockets_inv (sock_step op st)"
proof -
  obtain q gs where st: "st = (q, gs)" by fastforce
  have inv: "sq_limit q = MAX_LIVE_TCP_SOCKETS_PER_HOST" "sq_used q \<le> sq_limit q" "unat (sq_used q) = (\<Sum>g \<leftarrow> gs. live_of g)"
      "list_all (\<lambda>g. live_of g \<le> 64) gs"
    using assms by (auto simp: st sockets_inv_def)
  have le: "live_of (gs ! i) \<le> unat (sq_used q)" "live_of (gs ! i) \<le> 64" if "i < length gs" for i
    using sum_list_change(2) [OF that, of live_of] inv(3,4) that by (simp_all add: list_all_length)
  have upd: "sockets_inv (q', gs[i := g])"
    if "i < length gs" "sq_limit q' = sq_limit q" "sq_used q' \<le> sq_limit q" "live_of g \<le> 64"
      "unat (sq_used q') + live_of (gs ! i) = unat (sq_used q) + live_of g" for i q' g
    using that inv sum_list_change(1) [OF that(1), of live_of g] list_all_update [OF inv(4), of g i]
    by (simp add: sockets_inv_def)
  have small: "sq_used q' \<le> sq_limit q" if "unat (sq_used q') \<le> unat (sq_used q)" for q'
    using that inv(2) by (simp add: word_le_nat_alt)
  show ?thesis
  proof (cases op)
    case (SockCreate i)
    show ?thesis
    proof (cases "i < length gs")
      case True
      obtain g q' ok where a: "try_acquire_live_socket (gs ! i) q = (g, q', ok)" by (metis prod_cases3)
      from acquire_accounts [OF a inv(1) le(2) [OF True] inv(2)] upd [OF True, of q' g] True a SockCreate show ?thesis
        by (auto simp: st inv(1))
    qed (use assms SockCreate in \<open>simp add: st\<close>)
  next
    case (SockDelete i)
    show ?thesis
    proof (cases "i < length gs")
      case True
      obtain g q' where a: "release_live_socket (gs ! i) q = (g, q')" by fastforce
      from release_accounts [OF a le(1) [OF True]] upd [OF True, of q' g] small [of q'] le(2) [OF True] True a SockDelete show ?thesis
        by (simp add: st)
    qed (use assms SockDelete in \<open>simp add: st\<close>)
  next
    case (StoreDrop i)
    show ?thesis
    proof (cases "i < length gs \<and> gs ! i \<noteq> None")
      case True
      then obtain g where g: "gs ! i = Some g" by auto
      have "unat (sq_used (drop_guard g q)) = unat (sq_used q) - live_of (gs ! i) \<and> sq_limit (drop_guard g q) = sq_limit q"
        using quota_release_used [of "gi_live_sockets g" q] le(1) [of i] True by (simp add: drop_guard_def g live_of_def)
      then show ?thesis using upd [of i "drop_guard g q" None] small [of "drop_guard g q"] le(1) [of i] True StoreDrop
        by (simp add: st g live_of_def)
    qed (use assms StoreDrop in \<open>auto simp: st\<close>)
  qed
qed

text \<open>
  The sockets of a host are accounted for.  From a new quota and new stores, after any creations,
  deletions and drops of stores -- also of stores that still hold sockets -- the host's count is exactly
  the sum of the stores' counts, no store holds more than 64 and the host no more than 1024.
\<close>

theorem tcp_sockets_bounded:
  "case fold sock_step ops (tcp_socket_quota_new, map (\<lambda>pol. Some (fresh_guard pol)) pols) of
     (q, gs) \<Rightarrow> unat (sq_used q) = (\<Sum>g \<leftarrow> gs. live_of g) \<and> list_all (\<lambda>g. live_of g \<le> 64) gs \<and> unat (sq_used q) \<le> 1024"
proof -
  have start: "sockets_inv (tcp_socket_quota_new, map (\<lambda>pol. Some (fresh_guard pol)) pols)"
    by (simp add: sockets_inv_def tcp_socket_quota_new_def list_all_iff live_of_def fresh_guard_def o_def)
  have "sockets_inv (fold sock_step ops (tcp_socket_quota_new, map (\<lambda>pol. Some (fresh_guard pol)) pols))"
    by (rule fold_invariant [where Q = "\<lambda>_. True" and P = sockets_inv]) (simp_all add: sockets_step start)
  then show ?thesis
    by (auto simp: sockets_inv_def word_le_nat_alt MAX_LIVE_TCP_SOCKETS_PER_HOST_def split: prod.splits)
qed

end
