(* ===== verification/Body_Stream.thy ===== *)
theory Body_Stream
  imports Plecto_Strings
begin

text \<open>
  Message bodies (\<open>server/src/body.rs\<close>, and the background drain of \<open>server/src/respond.rs\<close>).  A body is
  the list of what its polls yield, a read fault included; the end of the list is the end of the body, and
  a poll that is not ready changes nothing and has no item.  Reading under a deadline is given the number
  of polls that are answered before it strikes, the end of the body counting as one.
\<close>

datatype body_item = DataFrame string | TrailerFrame "(string \<times> string) list" | ReadFault

type_synonym body = "body_item list"

definition full :: "string \<Rightarrow> body" where
  "full bytes = (if bytes = [] then [] else [DataFrame bytes])"

definition MAX_INFLIGHT_BODY_BUFFER_BYTES :: nat where
  "MAX_INFLIGHT_BODY_BUFFER_BYTES = 2 ^ 30"

subsection \<open>Buffering for the body hooks\<close>

datatype buffer_outcome = Buffered string | TooLarge | ReadError

fun buffer_request_body :: "nat \<Rightarrow> nat \<Rightarrow> string \<Rightarrow> body \<Rightarrow> buffer_outcome option" where
  "buffer_request_body cap 0 buf body = None"
| "buffer_request_body cap (Suc ready) buf [] = Some (Buffered buf)"
| "buffer_request_body cap (Suc ready) buf (ReadFault # body) = Some ReadError"
| "buffer_request_body cap (Suc ready) buf (TrailerFrame ts # body) = buffer_request_body cap ready buf body"
| "buffer_request_body cap (Suc ready) buf (DataFrame data # body) =
     (if length buf + length data > cap then Some TooLarge
      else buffer_request_body cap ready (buf @ data) body)"

datatype response_buffer_outcome = RbBuffered string | RbOverCap string body | RbReadError

definition prefixed :: "string \<Rightarrow> body \<Rightarrow> body" where
  "prefixed prefix_bytes rest = DataFrame prefix_bytes # rest"

fun buffer_response_body :: "nat \<Rightarrow> nat \<Rightarrow> string \<Rightarrow> body \<Rightarrow> response_buffer_outcome option" where
  "buffer_response_body cap 0 buf body = None"
| "buffer_response_body cap (Suc ready) buf [] = Some (RbBuffered buf)"
| "buffer_response_body cap (Suc ready) buf (ReadFault # body) = Some RbReadError"
| "buffer_response_body cap (Suc ready) buf (TrailerFrame ts # body) = buffer_response_body cap ready buf body"
| "buffer_response_body cap (Suc ready) buf (DataFrame data # body) =
     (let room = cap - length buf
      in if length data > room
         then Some (RbOverCap (buf @ take room data) (prefixed (drop room data) body))
         else buffer_response_body cap ready (buf @ data) body)"

subsection \<open>Bodies that hold a reservation\<close>

text \<open>
  The wrappers of the request body, the response body and the budgeted response body poll alike: a data
  frame shares the reservation, and the terminal poll drops the wrapper's own share and its inner body.
\<close>

record permitted_body =
  pb_inner :: body
  pb_permit :: bool

datatype permitted_poll = PollDone | PollFault | PollTrailers "(string \<times> string) list" | PollData string bool

definition permitted_poll :: "permitted_body \<Rightarrow> permitted_body \<times> permitted_poll" where
  "permitted_poll b =
     (if \<not> pb_permit b then (b, PollDone)
      else case pb_inner b of
             DataFrame data # rest \<Rightarrow> (b\<lparr>pb_inner := rest\<rparr>, PollData data (pb_permit b))
           | TrailerFrame ts # rest \<Rightarrow> (b\<lparr>pb_inner := rest\<rparr>, PollTrailers ts)
           | ReadFault # rest \<Rightarrow> (\<lparr>pb_inner = [], pb_permit = False\<rparr>, PollFault)
           | [] \<Rightarrow> (\<lparr>pb_inner = [], pb_permit = False\<rparr>, PollDone))"

definition permit_request_body :: "body \<Rightarrow> permitted_body" where
  "permit_request_body body = \<lparr>pb_inner = body, pb_permit = True\<rparr>"

definition hold_request_permit :: "body \<Rightarrow> permitted_body" where
  "hold_request_permit body = \<lparr>pb_inner = body, pb_permit = True\<rparr>"

definition hold_budget :: "body \<Rightarrow> permitted_body" where
  "hold_budget body = \<lparr>pb_inner = body, pb_permit = True\<rparr>"

subsection \<open>Dropping an upstream body\<close>

definition DRAIN_CAP :: nat where
  "DRAIN_CAP = 64 * 1024"

text \<open>What the background drain leaves unread; a fault also ends it, with the rest of the body unread.\<close>

fun discard_upstream_body :: "nat \<Rightarrow> body \<Rightarrow> body" where
  "discard_upstream_body drained [] = []"
| "discard_upstream_body drained (item # body) =
     (if drained < DRAIN_CAP
      then (case item of
              ReadFault \<Rightarrow> ReadFault # body
            | DataFrame data \<Rightarrow> discard_upstream_body (drained + length data) body
            | TrailerFrame _ \<Rightarrow> discard_upstream_body drained body)
      else item # body)"

subsection \<open>What a body carries\<close>

fun data_of :: "body \<Rightarrow> string" where
  "data_of [] = []"
| "data_of (DataFrame data # body) = data @ data_of body"
| "data_of (TrailerFrame ts # body) = data_of body"
| "data_of (ReadFault # body) = []"

definition sound :: "body \<Rightarrow> bool" where
  "sound body \<longleftrightarrow> ReadFault \<notin> set body"

lemma sound_simps [simp]:
  "sound []" "sound (DataFrame d # body) = sound body" "sound (TrailerFrame ts # body) = sound body"
  "\<not> sound (ReadFault # body)"
  by (auto simp: sound_def)

lemma data_of_full [simp]: "data_of (full bytes) = bytes"
  by (simp add: full_def)

lemma sound_full [simp]: "sound (full bytes)"
  by (simp add: full_def)

lemma data_of_prefixed [simp]: "data_of (prefixed p body) = p @ data_of body"
  by (simp add: prefixed_def)

subsection \<open>The request side\<close>

lemma buffer_request_total:
  "length body < ready \<Longrightarrow> \<exists>out. buffer_request_body cap ready buf body = Some out"
  by (induction cap ready buf body rule: buffer_request_body.induct) auto

lemma buffer_request_cases:
  assumes "buffer_request_body cap ready buf body = Some out" and "length buf \<le> cap"
  shows "case out of
      Buffered bytes \<Rightarrow> sound body \<and> bytes = buf @ data_of body \<and> length bytes \<le> cap
    | TooLarge \<Rightarrow> cap < length buf + length (data_of body)
    | ReadError \<Rightarrow> \<not> sound body \<and> length buf + length (data_of body) \<le> cap"
  using assms
  by (induction cap ready buf body rule: buffer_request_body.induct)
    (auto split: buffer_outcome.splits if_splits)

subsection \<open>The response side\<close>

lemma buffer_response_total:
  "length body < ready \<Longrightarrow> \<exists>out. buffer_response_body cap ready buf body = Some out"
  by (induction cap ready buf body rule: buffer_response_body.induct) (auto simp: Let_def)

lemma sound_prefixed [simp]: "sound (prefixed p body) = sound body"
  by (simp add: prefixed_def)

lemma buffer_response_cases:
  assumes "buffer_response_body cap ready buf body = Some out" and "length buf \<le> cap"
  shows "case out of
      RbBuffered bytes \<Rightarrow> sound body \<and> bytes = buf @ data_of body \<and> length bytes \<le> cap
    | RbOverCap start rest \<Rightarrow>
        length start = cap \<and> start @ data_of rest = buf @ data_of body \<and> sound rest = sound body \<and> data_of rest \<noteq> []
    | RbReadError \<Rightarrow> \<not> sound body \<and> length buf + length (data_of body) \<le> cap"
  using assms
  by (induction cap ready buf body rule: buffer_response_body.induct)
    (auto simp: Let_def not_less le_diff_conv2 add.commute add.left_commute split: response_buffer_outcome.splits if_splits)

text \<open>
  Buffering a response for inspection is exact and bounded.  When every poll is answered before the
  deadline, a body longer than the cap stops at exactly the first \<open>cap\<close> bytes, and those bytes with
  the remainder handed back are the body, faults included; a body within the cap is buffered whole when it
  ends, and is a read error when it breaks off.
\<close>

theorem response_buffering_exact:
  assumes "length body < ready"
  shows "\<exists>rest. data_of rest = drop cap (data_of body) \<and> sound rest = sound body
    \<and> buffer_response_body cap ready [] body =
        Some (if cap < length (data_of body) then RbOverCap (take cap (data_of body)) rest
              else if sound body then RbBuffered (data_of body) else RbReadError)"
proof -
  obtain out where out: "buffer_response_body cap ready [] body = Some out"
    using buffer_response_total [OF assms] by blast
  note shape = buffer_response_cases [OF out, simplified]
  show ?thesis
  proof (cases out)
    case (RbOverCap start rest)
    with shape have facts: "length start = cap" "start @ data_of rest = data_of body" "sound rest = sound body" "data_of rest \<noteq> []"
      by simp_all
    have "length (data_of body) = length start + length (data_of rest)"
      by (simp flip: facts(2))
    then have "cap < length (data_of body)" using facts(1,4) by simp
    moreover have "take cap (data_of body) = start" "drop cap (data_of body) = data_of rest"
      by (simp_all flip: facts(1,2))
    ultimately show ?thesis using out RbOverCap facts(3) by auto
  qed (use out shape in \<open>auto intro!: exI [of _ "if sound body then full (drop cap (data_of body)) else [ReadFault]"]\<close>)
qed

theorem response_buffering_exact_witness:
  "\<exists>rest. data_of rest = drop 4 ''abcdef'' \<and> sound rest
    \<and> buffer_response_body 4 9 [] [DataFrame ''abc'', DataFrame ''def'', TrailerFrame []] = Some (RbOverCap ''abcd'' rest)"
  using response_buffering_exact [of "[DataFrame ''abc'', DataFrame ''def'', TrailerFrame []]" 9 4] by simp

subsection \<open>Reservations\<close>

text \<open>The polls of a reader until the first terminal one.\<close>

fun drain_polls :: "nat \<Rightarrow> permitted_body \<Rightarrow> permitted_body \<times> permitted_poll list" where
  "drain_polls 0 b = (b, [])"
| "drain_polls (Suc n) b =
     (case permitted_poll b of (b', p) \<Rightarrow> (case drain_polls n b' of (b'', ps) \<Rightarrow> (b'', p # ps)))"

fun as_poll :: "body_item \<Rightarrow> permitted_poll" where
  "as_poll (DataFrame data) = PollData data True"
| "as_poll (TrailerFrame ts) = PollTrailers ts"
| "as_poll ReadFault = PollFault"

lemma drain_released: "\<not> pb_permit b \<Longrightarrow> drain_polls n b = (b, replicate n PollDone)"
  by (induction n) (auto simp: permitted_poll_def)

lemma drain_held:
  "sound body \<Longrightarrow> n \<le> length body \<Longrightarrow>
     drain_polls n \<lparr>pb_inner = body, pb_permit = True\<rparr>
       = (\<lparr>pb_inner = drop n body, pb_permit = True\<rparr>, map as_poll (take n body))"
proof (induction n arbitrary: body)
  case (Suc n)
  then obtain i rest where "body = i # rest" by (cases body) auto
  with Suc show ?case by (cases i) (auto simp: permitted_poll_def)
qed simp

text \<open>
  A reader of a permitted body sees exactly the inner body, every data frame shares the
  reservation, the wrapper keeps its own share until the terminal poll and has none after it.
\<close>

theorem reservation_until_terminal:
  assumes "sound body" and "n \<le> length body"
  shows "drain_polls n (hold_budget body) = (\<lparr>pb_inner = drop n body, pb_permit = True\<rparr>, map as_poll (take n body))
    \<and> drain_polls (length body + Suc k) (hold_budget body)
        = (\<lparr>pb_inner = [], pb_permit = False\<rparr>, map as_poll body @ replicate (Suc k) PollDone)"
proof -
  have seq: "drain_polls (i + j) b = (case drain_polls i b of (b', ps) \<Rightarrow> (case drain_polls j b' of (b'', qs) \<Rightarrow> (b'', ps @ qs)))"
    for i j b
    by (induction i arbitrary: b) (simp_all split: prod.splits)
  have ended: "drain_polls (Suc k) \<lparr>pb_inner = [], pb_permit = True\<rparr>
      = (\<lparr>pb_inner = [], pb_permit = False\<rparr>, replicate (Suc k) PollDone)"
    by (simp add: permitted_poll_def drain_released)
  show ?thesis
    using drain_held [OF assms] drain_held [OF assms(1) order_refl] ended
    by (simp add: hold_budget_def seq del: drain_polls.simps add_Suc_right)
qed

subsection \<open>The drain\<close>

text \<open>The drain reads less than its cap and one more frame.\<close>

lemma discard_bounded:
  "\<exists>front. body = front @ discard_upstream_body drained body
     \<and> (front = [] \<or> drained + length (data_of (butlast front)) < DRAIN_CAP)"
proof (induction drained body rule: discard_upstream_body.induct)
  case (2 drained item body)
  show ?case
  proof (cases "drained < DRAIN_CAP \<and> item \<noteq> ReadFault")
    case False
    then show ?thesis by (cases item) (auto intro: exI [of _ "[]"])
  next
    case True
    then obtain front where "body = front @ discard_upstream_body drained (item # body)"
      and "front = [] \<or> drained + length (data_of [item]) + length (data_of (butlast front)) < DRAIN_CAP"
      using 2 by (cases item) auto
    then show ?thesis using True
      by (intro exI [of _ "item # front"]) (cases item; auto)
  qed
qed simp

end
