(* ===== verification/Compression.thy ===== *)
theory Compression
  imports Forward Body_Stream
begin

text \<open>
  Native response compression (\<open>server/src/compression.rs\<close>): the negotiation of a content coding with the
  client, the responses that may be transformed, the header rewrite and the compressed body.  The three
  codecs are third-party crates and stand as an argument: how an encoder starts, what it emits for a
  frame and what closes its stream.
\<close>

subsection \<open>Negotiation\<close>

record coding_weights =
  cw_zstd :: "u16 option"
  cw_br :: "u16 option"
  cw_gzip :: "u16 option"

definition no_weights :: coding_weights where
  "no_weights = \<lparr>cw_zstd = None, cw_br = None, cw_gzip = None\<rparr>"

fun slot :: "coding_weights \<Rightarrow> compression_algorithm \<Rightarrow> u16 option" where
  "slot w Zstd = cw_zstd w"
| "slot w Br = cw_br w"
| "slot w Gzip = cw_gzip w"

fun set_slot :: "coding_weights \<Rightarrow> compression_algorithm \<Rightarrow> u16 \<Rightarrow> coding_weights" where
  "set_slot w Zstd q = w\<lparr>cw_zstd := Some q\<rparr>"
| "set_slot w Br q = w\<lparr>cw_br := Some q\<rparr>"
| "set_slot w Gzip q = w\<lparr>cw_gzip := Some q\<rparr>"

definition coding_algo :: "string \<Rightarrow> compression_algorithm option" where
  "coding_algo token =
     (if eq_ignore_ascii_case token ''zstd'' then Some Zstd
      else if eq_ignore_ascii_case token ''br'' then Some Br
      else if eq_ignore_ascii_case token ''gzip'' \<or> eq_ignore_ascii_case token ''x-gzip'' then Some Gzip
      else None)"

fun thousandths :: "string \<Rightarrow> u16 \<Rightarrow> u16 \<Rightarrow> u16" where
  "thousandths [] acc place = acc"
| "thousandths (b # bs) acc place = thousandths bs (acc + word_of_nat (of_char b - 48) * place) (place div 10)"

definition parse_qvalue :: "string \<Rightarrow> u16 option" where
  "parse_qvalue s =
     (case (case split_once (CHR ''.'') s of Some p \<Rightarrow> p | None \<Rightarrow> (s, [])) of
        (int_part, frac) \<Rightarrow>
          if length frac > 3 \<or> \<not> list_all dec_digit frac then None
          else if int_part = ''0'' then Some (thousandths frac 0 100)
          else if int_part = ''1'' then (if list_all (\<lambda>b. b = CHR ''0'') frac then Some 1000 else None)
          else None)"

record accepted =
  ac_explicit :: coding_weights
  ac_star :: "u16 option"
  ac_identity :: "u16 option"

text \<open>The weight a member's parameters give; \<open>None\<close> when one of them is malformed.\<close>

fun params_weight :: "string list \<Rightarrow> u16 \<Rightarrow> u16 option" where
  "params_weight [] q = Some q"
| "params_weight (param # params) q =
     (case split_once (CHR ''='') param of
        None \<Rightarrow> None
      | Some (name, val) \<Rightarrow>
          if eq_ignore_ascii_case (trim name) ''q''
          then (case parse_qvalue (trim val) of Some v \<Rightarrow> params_weight params v | None \<Rightarrow> None)
          else params_weight params q)"

definition accept_member :: "string \<Rightarrow> accepted \<Rightarrow> accepted" where
  "accept_member member acc =
     (case split_on (CHR '';'') member of
        [] \<Rightarrow> acc
      | first # params \<Rightarrow>
          let coding = trim first
          in if coding = [] then acc
             else case params_weight params 1000 of
                    None \<Rightarrow> acc
                  | Some q \<Rightarrow>
                      if coding = ''*'' then acc\<lparr>ac_star := Some q\<rparr>
                      else if eq_ignore_ascii_case coding ''identity'' then acc\<lparr>ac_identity := Some q\<rparr>
                      else case coding_algo coding of
                             Some algo \<Rightarrow> acc\<lparr>ac_explicit := set_slot (ac_explicit acc) algo q\<rparr>
                           | None \<Rightarrow> acc)"

definition accept_line :: "(string \<Rightarrow> string option) \<Rightarrow> string \<Rightarrow> accepted \<Rightarrow> accepted" where
  "accept_line to_str line acc =
     (case to_str line of None \<Rightarrow> acc | Some s \<Rightarrow> fold accept_member (split_on (CHR '','') s) acc)"

definition weight_of :: "accepted \<Rightarrow> compression_algorithm \<Rightarrow> u16" where
  "weight_of acc algo =
     (case slot (ac_explicit acc) algo of
        Some q \<Rightarrow> q
      | None \<Rightarrow> (case ac_star acc of Some q \<Rightarrow> q | None \<Rightarrow> 0))"

fun best_coding :: "accepted \<Rightarrow> compression_algorithm list \<Rightarrow> (u16 \<times> compression_algorithm) option
    \<Rightarrow> (u16 \<times> compression_algorithm) option" where
  "best_coding acc [] best = best"
| "best_coding acc (algo # algos) best =
     (let q = weight_of acc algo
      in if q = 0 then best_coding acc algos best
         else if (case best of None \<Rightarrow> True | Some (bq, _) \<Rightarrow> bq < q) then best_coding acc algos (Some (q, algo))
         else best_coding acc algos best)"

definition negotiate :: "(string \<Rightarrow> string option) \<Rightarrow> string list \<Rightarrow> compression_algorithm list \<Rightarrow> compression_algorithm option" where
  "negotiate to_str lines algorithms =
     (let acc = fold (accept_line to_str) lines \<lparr>ac_explicit = no_weights, ac_star = None, ac_identity = None\<rparr>
      in if lines = [] then None
         else case best_coding acc algorithms None of
                None \<Rightarrow> None
              | Some (bq, algo) \<Rightarrow>
                  if (case ac_identity acc of Some iq \<Rightarrow> bq < iq | None \<Rightarrow> False) then None else Some algo)"

subsection \<open>Eligibility and headers\<close>

definition parse_u64 :: "string \<Rightarrow> u64 option" where
  "parse_u64 s =
     (let digits = (case s of c # rest \<Rightarrow> if c = CHR ''+'' then rest else s | [] \<Rightarrow> s)
      in if digits \<noteq> [] \<and> list_all dec_digit digits \<and> dec_value digits < 2 ^ 64
         then Some (word_of_nat (dec_value digits)) else None)"

definition cache_control_no_transform :: "'m map_ops \<Rightarrow> 'm \<Rightarrow> bool" where
  "cache_control_no_transform ops headers =
     list_ex (\<lambda>v. case mo_to_str ops v of
                    None \<Rightarrow> False
                  | Some s \<Rightarrow>
                      list_ex (\<lambda>directive. eq_ignore_ascii_case (trim (hd (split_on (CHR ''='') directive))) ''no-transform'')
                        (split_on (CHR '','') s))
       (mo_get_all ops headers ''cache-control'')"

definition response_eligible :: "'m map_ops \<Rightarrow> u16 \<Rightarrow> 'm \<Rightarrow> compression_config \<Rightarrow> bool" where
  "response_eligible ops status headers cfg =
     (if 100 \<le> status \<and> status < 200 \<or> status \<in> {204, 206, 304} then False
      else if mo_get_all ops headers ''content-encoding'' \<noteq> [] then False
      else if cache_control_no_transform ops headers then False
      else if \<not> (case mo_get_all ops headers ''content-type'' of
                   [] \<Rightarrow> False
                 | v # _ \<Rightarrow>
                     (case mo_to_str ops v of
                        None \<Rightarrow> False
                      | Some s \<Rightarrow> content_type_eligible (cc_content_types cfg) (hd (split_on (CHR '';'') s)))) then False
      else case mo_get_all ops headers ''content-length'' of
             v # _ \<Rightarrow>
               (case mo_to_str ops v of
                  None \<Rightarrow> False
                | Some s \<Rightarrow> (case parse_u64 (trim s) of None \<Rightarrow> False | Some len \<Rightarrow> cc_min_length cfg \<le> len))
           | [] \<Rightarrow> True)"

definition add_vary_accept_encoding :: "'m map_ops \<Rightarrow> 'm \<Rightarrow> 'm" where
  "add_vary_accept_encoding ops headers =
     (let already = list_ex (\<lambda>v. case mo_to_str ops v of
                    None \<Rightarrow> False
                  | Some s \<Rightarrow> list_ex (\<lambda>m. trim m = ''*'' \<or> eq_ignore_ascii_case (trim m) ''accept-encoding'') (split_on (CHR '','') s))
                (mo_get_all ops headers ''vary'')
      in if already then headers else mo_append ops headers ''vary'' ''accept-encoding'')"

definition mark_compressed :: "'m map_ops \<Rightarrow> 'm \<Rightarrow> compression_algorithm \<Rightarrow> 'm" where
  "mark_compressed ops headers algo =
     (let h1 = mo_insert ops headers ''content-encoding'' (coding_token algo);
          h2 = mo_remove ops h1 ''content-length'';
          h3 = mo_remove ops h2 ''accept-ranges''
      in case mo_get_all ops h3 ''etag'' of
           [] \<Rightarrow> h3
         | etag # _ \<Rightarrow>
             if prefix ''W/'' etag then h3
             else if mo_value_ok ops (''W/'' @ etag) then mo_insert ops h3 ''etag'' (''W/'' @ etag)
             else mo_remove ops h3 ''etag'')"

subsection \<open>The compressed body\<close>

record 'e codec =
  ck_new :: "compression_algorithm \<Rightarrow> 'e option"
  ck_write_flush :: "'e \<Rightarrow> string \<Rightarrow> ('e \<times> string) option"
  ck_finish :: "'e \<Rightarrow> string option"

datatype 'e response_body = PlainBody body | CompressBody "'e option" body body

definition emitted :: "string \<Rightarrow> body" where
  "emitted out = (if out = [] then [] else [DataFrame out])"

text \<open>One poll of encoder, inner body and queue; an encoding error is a fault of the body.\<close>

function poll_compressed ::
    "'e codec \<Rightarrow> 'e option \<Rightarrow> body \<Rightarrow> body \<Rightarrow> 'e response_body \<times> body_item option" where
  "poll_compressed ck enc inner (frame # queue) = (CompressBody enc inner queue, Some frame)"
| "poll_compressed ck None inner [] = (CompressBody None inner [], None)"
| "poll_compressed ck (Some e) [] [] =
     (case ck_finish ck e of
        Some out \<Rightarrow> poll_compressed ck None [] (emitted out)
      | None \<Rightarrow> (CompressBody None [] [], Some ReadFault))"
| "poll_compressed ck (Some e) (DataFrame data # inner) [] =
     (if data = [] then poll_compressed ck (Some e) inner []
      else case ck_write_flush ck e data of
             Some (e', out) \<Rightarrow> poll_compressed ck (Some e') inner (emitted out)
           | None \<Rightarrow> (CompressBody (Some e) inner [], Some ReadFault))"
| "poll_compressed ck (Some e) (TrailerFrame ts # inner) [] =
     (case ck_finish ck e of
        Some out \<Rightarrow> poll_compressed ck None inner (emitted out @ [TrailerFrame ts])
      | None \<Rightarrow> (CompressBody None inner [], Some ReadFault))"
| "poll_compressed ck (Some e) (ReadFault # inner) [] = (CompressBody (Some e) inner [], Some ReadFault)"
  by pat_completeness auto
termination
  by (relation "measure (\<lambda>(ck, enc, inner, queue). length inner + (if enc = None then 0 else 1))") auto

subsection \<open>The response\<close>

record ('m, 'b) response =
  wr_status :: u16
  wr_headers :: 'm
  wr_body :: 'b

definition with_body :: "('m, 'b) response \<Rightarrow> 'm \<Rightarrow> 'c \<Rightarrow> ('m, 'c) response" where
  "with_body resp headers body = \<lparr>wr_status = wr_status resp, wr_headers = headers, wr_body = body\<rparr>"

definition compress_response ::
    "'m map_ops \<Rightarrow> 'e codec \<Rightarrow> ('m, body) response \<Rightarrow> 'm \<Rightarrow> compression_config \<Rightarrow> ('m, 'e response_body) response" where
  "compress_response ops ck resp request_headers cfg =
     (if \<not> response_eligible ops (wr_status resp) (wr_headers resp) cfg
      then with_body resp (wr_headers resp) (PlainBody (wr_body resp))
      else
        let varied = add_vary_accept_encoding ops (wr_headers resp);
            unchanged = with_body resp varied (PlainBody (wr_body resp))
        in case negotiate (mo_to_str ops) (mo_get_all ops request_headers ''accept-encoding'') (cc_algorithms cfg) of
             None \<Rightarrow> unchanged
           | Some algo \<Rightarrow>
               (case ck_new ck algo of
                  None \<Rightarrow> unchanged
                | Some e \<Rightarrow> with_body resp (mark_compressed ops varied algo) (CompressBody (Some e) (wr_body resp) [])))"

definition compression_apply ::
    "'m map_ops \<Rightarrow> 'e codec \<Rightarrow> ('m, body) response \<Rightarrow> compression_config option \<Rightarrow> string \<Rightarrow> 'm
       \<Rightarrow> ('m, 'e response_body) response" where
  "compression_apply ops ck resp compression meth request_headers =
     (case compression of
        None \<Rightarrow> with_body resp (wr_headers resp) (PlainBody (wr_body resp))
      | Some cfg \<Rightarrow>
          if meth = ''HEAD'' then with_body resp (wr_headers resp) (PlainBody (wr_body resp))
          else compress_response ops ck resp request_headers cfg)"

subsection \<open>The coding is the client's best\<close>

text \<open>The first of the greatest weight, in the order the route prefers.\<close>

definition first_heaviest :: "('a \<Rightarrow> u16) \<Rightarrow> 'a list \<Rightarrow> 'a \<Rightarrow> bool" where
  "first_heaviest w xs a \<longleftrightarrow>
     (\<exists>pre post. xs = pre @ a # post \<and> list_all (\<lambda>b. w b < w a) pre \<and> list_all (\<lambda>b. w b \<le> w a) post)"

lemma first_heaviest_max: "first_heaviest w xs a \<Longrightarrow> b \<in> set xs \<Longrightarrow> w b \<le> w a"
  by (fastforce simp: first_heaviest_def list_all_iff)

lemma first_heaviest_mem: "first_heaviest w xs a \<Longrightarrow> a \<in> set xs"
  by (auto simp: first_heaviest_def)

lemma first_heaviest_unique:
  assumes "first_heaviest w xs a" and "first_heaviest w xs b"
  shows "a = b"
proof -
  obtain pre post pre' post' where eq: "pre @ a # post = pre' @ b # post'"
    and a: "list_all (\<lambda>x. w x < w a) pre" "list_all (\<lambda>x. w x \<le> w a) post"
    and b: "list_all (\<lambda>x. w x < w b) pre'" "list_all (\<lambda>x. w x \<le> w b) post'"
    using assms unfolding first_heaviest_def by metis
  have same: "w a = w b"
    using assms by (blast intro: order_antisym first_heaviest_max first_heaviest_mem)
  then have "a \<notin> set pre'" "b \<notin> set pre" using a b by (auto simp: list_all_iff)
  with eq show ?thesis
    by (auto simp: append_eq_append_conv2 Cons_eq_append_conv append_eq_Cons_conv)
qed

lemma best_coding_append:
  "best_coding acc (xs @ ys) best = best_coding acc ys (best_coding acc xs best)"
  by (induction acc xs best rule: best_coding.induct) (auto simp: Let_def)

lemma best_coding_shape:
  "case best_coding acc xs None of
     None \<Rightarrow> list_all (\<lambda>b. weight_of acc b = 0) xs
   | Some (q, a) \<Rightarrow> q = weight_of acc a \<and> 0 < q \<and> first_heaviest (weight_of acc) xs a"
proof (induction xs rule: rev_induct)
  case (snoc x xs)
  let ?w = "weight_of acc"
  show ?case
  proof (cases "best_coding acc xs None")
    case None
    with snoc have "list_all (\<lambda>b. ?w b = 0) xs" by simp
    then have "first_heaviest ?w (xs @ [x]) x" if "?w x \<noteq> 0"
      using that unfolding first_heaviest_def
      by (intro exI [of _ xs] exI [of _ "[]"]) (auto simp: list_all_iff word_neq_0_conv)
    then show ?thesis using None snoc by (auto simp: best_coding_append Let_def word_neq_0_conv)
  next
    case (Some p)
    obtain q a where p: "p = (q, a)" by (cases p)
    with Some snoc have best: "q = ?w a" "0 < q" "first_heaviest ?w xs a" by auto
    have "first_heaviest ?w (xs @ [x]) x" if "q < ?w x"
      using that best(1) first_heaviest_max [OF best(3)] unfolding first_heaviest_def
      by (intro exI [of _ xs] exI [of _ "[]"]) (auto simp: list_all_iff intro: le_less_trans)
    moreover have "first_heaviest ?w (xs @ [x]) a" if "\<not> q < ?w x"
    proof -
      obtain pre post where "xs = pre @ a # post" "list_all (\<lambda>b. ?w b < ?w a) pre" "list_all (\<lambda>b. ?w b \<le> ?w a) post"
        using best(3) by (auto simp: first_heaviest_def)
      then show ?thesis using that best(1) unfolding first_heaviest_def
        by (intro exI [of _ pre] exI [of _ "post @ [x]"]) auto
    qed
    ultimately show ?thesis using Some p best by (auto simp: best_coding_append Let_def word_neq_0_conv)
  qed
qed simp

text \<open>What the client said, as the list of the codings it weighs, in order.\<close>

definition member_claim :: "string \<Rightarrow> (string \<times> u16) option" where
  "member_claim member =
     (let parts = split_on (CHR '';'') member
      in if trim (hd parts) = [] then None else map_option (Pair (trim (hd parts))) (params_weight (tl parts) 1000))"

definition claims_of :: "(string \<Rightarrow> string option) \<Rightarrow> string list \<Rightarrow> (string \<times> u16) list" where
  "claims_of to_str lines = List.map_filter member_claim (concat (map (split_on (CHR '','')) (List.map_filter to_str lines)))"

definition last_claim :: "(string \<Rightarrow> bool) \<Rightarrow> (string \<times> u16) list \<Rightarrow> u16 option" where
  "last_claim named claims = map_option snd (List.find (\<lambda>c. named (fst c)) (rev claims))"

definition client_weight :: "(string \<times> u16) list \<Rightarrow> compression_algorithm \<Rightarrow> u16" where
  "client_weight claims algo =
     (case last_claim (\<lambda>c. coding_algo c = Some algo) claims of
        Some q \<Rightarrow> q
      | None \<Rightarrow> (case last_claim (\<lambda>c. c = ''*'') claims of Some q \<Rightarrow> q | None \<Rightarrow> 0))"

definition identity_weight :: "(string \<times> u16) list \<Rightarrow> u16" where
  "identity_weight claims =
     (case last_claim (\<lambda>c. eq_ignore_ascii_case c ''identity'') claims of Some q \<Rightarrow> q | None \<Rightarrow> 0)"

definition represents :: "accepted \<Rightarrow> (string \<times> u16) list \<Rightarrow> bool" where
  "represents acc claims \<longleftrightarrow>
     (\<forall>a. slot (ac_explicit acc) a = last_claim (\<lambda>c. coding_algo c = Some a) claims)
     \<and> ac_star acc = last_claim (\<lambda>c. c = ''*'') claims
     \<and> ac_identity acc = last_claim (\<lambda>c. eq_ignore_ascii_case c ''identity'') claims"

lemma last_claim_snoc [simp]:
  "last_claim P (claims @ [(c, q)]) = (if P c then Some q else last_claim P claims)"
  by (simp add: last_claim_def)

lemma slot_set [simp]: "slot (set_slot w a q) b = (if a = b then Some q else slot w b)"
  by (cases a; cases b) simp_all

lemma other_codings:
  "coding_algo ''*'' = None" "\<not> eq_ignore_ascii_case ''*'' ''identity''"
  "eq_ignore_ascii_case c ''identity'' \<Longrightarrow> coding_algo c = None"
proof -
  show "coding_algo ''*'' = None" "\<not> eq_ignore_ascii_case ''*'' ''identity''" by code_simp+
  have "to_ascii_lowercase ''identity'' \<notin> to_ascii_lowercase ` {''zstd'', ''br'', ''gzip'', ''x-gzip''}" by code_simp
  then show "coding_algo c = None" if "eq_ignore_ascii_case c ''identity''"
    using that by (auto simp: coding_algo_def eq_ignore_ascii_case_def)
qed

lemma accept_member_represents:
  assumes "represents acc claims"
  shows "represents (accept_member member acc) (claims @ (case member_claim member of None \<Rightarrow> [] | Some c \<Rightarrow> [c]))"
proof -
  obtain first params where parts: "split_on (CHR '';'') member = first # params"
    by (cases "split_on (CHR '';'') member") auto
  show ?thesis
  proof (cases "trim first = [] \<or> params_weight params 1000 = None")
    case True
    then show ?thesis using assms parts by (auto simp: accept_member_def member_claim_def Let_def)
  next
    case False
    then obtain q where q: "params_weight params 1000 = Some q" "trim first \<noteq> []" by auto
    then have claim: "member_claim member = Some (trim first, q)" using parts by (simp add: member_claim_def Let_def)
    show ?thesis using assms q parts other_codings(1,2) other_codings(3) [of "trim first"]
      by (auto simp: represents_def accept_member_def claim Let_def split: option.split)
  qed
qed

lemma fold_members_represent:
  "represents acc claims \<Longrightarrow>
     represents (fold accept_member members acc) (claims @ List.map_filter member_claim members)"
proof (induction members arbitrary: acc claims)
  case (Cons m ms)
  from Cons.IH [OF accept_member_represents [OF Cons.prems], of m] show ?case
    by (cases "member_claim m") (simp_all add: map_filter_simps)
qed (simp add: map_filter_simps)

lemma fold_lines_represent:
  "represents acc claims \<Longrightarrow> represents (fold (accept_line to_str) lines acc) (claims @ claims_of to_str lines)"
proof (induction lines arbitrary: acc claims)
  case (Cons l ls)
  show ?case
  proof (cases "to_str l")
    case None
    then show ?thesis using Cons by (simp add: accept_line_def claims_of_def map_filter_simps)
  next
    case (Some s)
    have "List.map_filter member_claim (xs @ ys) = List.map_filter member_claim xs @ List.map_filter member_claim ys" for xs ys
      by (simp add: map_filter_def)
    then show ?thesis
      using Cons.IH [OF fold_members_represent [OF Cons.prems, of "split_on (CHR '','') s"]] Some
      by (simp add: accept_line_def claims_of_def map_filter_simps)
  qed
qed (simp add: claims_of_def map_filter_simps)

lemma chosen_coding:
  assumes rep: "represents acc claims"
  shows "(case best_coding acc algorithms None of
            None \<Rightarrow> None
          | Some (bq, algo) \<Rightarrow>
              if (case ac_identity acc of Some iq \<Rightarrow> bq < iq | None \<Rightarrow> False) then None else Some algo) = Some algo
    \<longleftrightarrow> first_heaviest (client_weight claims) algorithms algo \<and> 0 < client_weight claims algo
        \<and> identity_weight claims \<le> client_weight claims algo"
proof -
  have weight: "client_weight claims = weight_of acc"
    using rep by (intro ext) (simp add: weight_of_def client_weight_def represents_def split: option.split)
  have ident: "(case ac_identity acc of Some iq \<Rightarrow> q < iq | None \<Rightarrow> False) \<longleftrightarrow> \<not> identity_weight claims \<le> q" for q
    using rep by (auto simp: identity_weight_def represents_def not_le split: option.split)
  show ?thesis
  proof (cases "best_coding acc algorithms None")
    case None
    then have "list_all (\<lambda>b. weight_of acc b = 0) algorithms" using best_coding_shape [of acc algorithms] by simp
    then have "\<not> (first_heaviest (weight_of acc) algorithms algo \<and> 0 < weight_of acc algo)"
      by (auto simp: list_all_iff dest!: first_heaviest_mem)
    then show ?thesis unfolding None weight option.case by blast
  next
    case (Some p)
    obtain q a where p: "p = (q, a)" by (cases p)
    have best: "q = weight_of acc a \<and> 0 < q \<and> first_heaviest (weight_of acc) algorithms a"
      using best_coding_shape [of acc algorithms] unfolding Some p option.case prod.case .
    then have "first_heaviest (weight_of acc) algorithms algo \<longleftrightarrow> algo = a"
      by (metis first_heaviest_unique)
    then show ?thesis unfolding Some p weight ident using best by auto
  qed
qed

lemma start_represents: "represents \<lparr>ac_explicit = no_weights, ac_star = None, ac_identity = None\<rparr> []"
proof -
  have "slot no_weights a = None" for a by (cases a) (simp_all add: no_weights_def)
  then show ?thesis by (simp add: represents_def last_claim_def)
qed

text \<open>
  C18: The coding is what the client ranks highest.  A coding is sent exactly when the request carries
  \<open>Accept-Encoding\<close> at all and the coding is the first of those the route offers, in its order of
  preference, whose weight no other exceeds; the weight is not zero and not below an explicit weight of
  the identity.  A coding's weight is the last well-formed claim about it, else the one about \<open>*\<close>, else
  zero.
\<close>

theorem negotiate_is_client_best:
  "negotiate to_str lines algorithms = Some algo \<longleftrightarrow>
     lines \<noteq> [] \<and> first_heaviest (client_weight (claims_of to_str lines)) algorithms algo
     \<and> 0 < client_weight (claims_of to_str lines) algo
     \<and> identity_weight (claims_of to_str lines) \<le> client_weight (claims_of to_str lines) algo"
proof (cases "lines = []")
  case False
  have "represents (fold (accept_line to_str) lines \<lparr>ac_explicit = no_weights, ac_star = None, ac_identity = None\<rparr>)
      (claims_of to_str lines)"
    using fold_lines_represent [OF start_represents] by simp
  from chosen_coding [OF this] False show ?thesis by (simp only: negotiate_def Let_def if_False simp_thms)
qed (simp add: negotiate_def)

subsection \<open>Only what may be transformed is\<close>

text \<open>A validator of the identity bytes becomes a weak one.\<close>

definition weakened :: "(string \<Rightarrow> bool) \<Rightarrow> string list \<Rightarrow> string list" where
  "weakened ok etags =
     (case etags of
        [] \<Rightarrow> []
      | etag # _ \<Rightarrow> if prefix ''W/'' etag then etags else if ok (''W/'' @ etag) then [''W/'' @ etag] else [])"

lemma get_marked:
  assumes "request_map ops"
  shows "mo_get_all ops (mark_compressed ops h algo) k =
    (if k = ''content-encoding'' then [coding_token algo]
     else if k \<in> {''content-length'', ''accept-ranges''} then []
     else if k = ''etag'' then weakened (mo_value_ok ops) (mo_get_all ops h ''etag'')
     else mo_get_all ops h k)"
  using request_map.get_insert [OF assms] request_map.get_remove [OF assms]
  by (auto simp: mark_compressed_def weakened_def Let_def split: list.split)

lemma get_varied:
  assumes "request_map ops" and "k \<noteq> ''vary''"
  shows "mo_get_all ops (add_vary_accept_encoding ops h) k = mo_get_all ops h k"
  using request_map.get_append [OF assms(1)] assms(2) by (simp add: add_vary_accept_encoding_def Let_def)

text \<open>
  C17: A response is transformed only when the route opted in, the request is not a \<open>HEAD\<close>, the response
  is neither partial nor already encoded nor declared \<open>no-transform\<close>, and the client ranks the coding
  highest.  Then its framing, ranges and validator are those of the coded representation and every other
  header but \<open>Vary\<close> is kept; otherwise body and headers, but \<open>Vary\<close>, are those it had.  The status
  never changes.
\<close>

theorem compression_only_when_allowed:
  assumes "request_map ops" and "out = compression_apply ops ck resp compression meth request_headers"
  shows "wr_status out = wr_status resp
    \<and> (case wr_body out of
         PlainBody body \<Rightarrow>
           body = wr_body resp
           \<and> (k \<noteq> ''vary'' \<longrightarrow> mo_get_all ops (wr_headers out) k = mo_get_all ops (wr_headers resp) k)
       | CompressBody enc body queue \<Rightarrow>
           body = wr_body resp \<and> queue = [] \<and> meth \<noteq> ''HEAD''
           \<and> wr_status resp \<notin> {204, 206, 304} \<and> mo_get_all ops (wr_headers resp) ''content-encoding'' = []
           \<and> \<not> cache_control_no_transform ops (wr_headers resp)
           \<and> (\<exists>cfg algo. compression = Some cfg \<and> enc = ck_new ck algo \<and> enc \<noteq> None
                \<and> negotiate (mo_to_str ops) (mo_get_all ops request_headers ''accept-encoding'') (cc_algorithms cfg) = Some algo
                \<and> (k \<noteq> ''vary'' \<longrightarrow> mo_get_all ops (wr_headers out) k =
                     (if k = ''content-encoding'' then [coding_token algo]
                      else if k \<in> {''content-length'', ''accept-ranges''} then []
                      else if k = ''etag'' then weakened (mo_value_ok ops) (mo_get_all ops (wr_headers resp) ''etag'')
                      else mo_get_all ops (wr_headers resp) k))))"
proof -
  have eligible: "wr_status resp \<notin> {204, 206, 304} \<and> mo_get_all ops (wr_headers resp) ''content-encoding'' = []
      \<and> \<not> cache_control_no_transform ops (wr_headers resp)"
    if "response_eligible ops (wr_status resp) (wr_headers resp) cfg" for cfg
    using that by (auto simp: response_eligible_def split: if_splits)
  note laws = get_marked [OF assms(1)] get_varied [OF assms(1)]
  show ?thesis
  proof (cases "compression = None \<or> meth = ''HEAD''")
    case True
    then show ?thesis by (auto simp: assms(2) compression_apply_def with_body_def split: option.split)
  next
    case False
    then obtain cfg where cfg: "compression = Some cfg" "meth \<noteq> ''HEAD''" by auto
    then have out: "out = compress_response ops ck resp request_headers cfg" by (simp add: assms(2) compression_apply_def)
    show ?thesis
    proof (cases "response_eligible ops (wr_status resp) (wr_headers resp) cfg")
      case False
      then show ?thesis by (simp add: out compress_response_def with_body_def)
    next
      case True
      define best where "best = negotiate (mo_to_str ops) (mo_get_all ops request_headers ''accept-encoding'') (cc_algorithms cfg)"
      show ?thesis
      proof (cases "\<exists>algo e. best = Some algo \<and> ck_new ck algo = Some e")
        case False
        then show ?thesis using True
          by (auto simp: out compress_response_def with_body_def Let_def laws simp flip: best_def split: option.split)
      next
        case coded: True
        then obtain algo e where "best = Some algo" "ck_new ck algo = Some e" by blast
        then show ?thesis using cfg True eligible [OF True]
          by (simp add: out compress_response_def with_body_def Let_def laws flip: best_def)
      qed
    qed
  qed
qed

definition sample_codec :: "unit codec" where
  "sample_codec = \<lparr>ck_new = (\<lambda>_. Some ()), ck_write_flush = (\<lambda>e d. Some (e, d)), ck_finish = (\<lambda>_. Some [])\<rparr>"

definition sample_response :: "((string \<times> string) list, body) response" where
  "sample_response =
     \<lparr>wr_status = 200, wr_headers = [(''content-type'', ''text/html''), (''accept-ranges'', ''bytes''), (''etag'', ''v1'')],
      wr_body = full ''hello''\<rparr>"

definition sample_compression :: compression_config where
  "sample_compression = \<lparr>cc_algorithms = [Zstd, Gzip], cc_min_length = 1024, cc_content_types = [''text/html'']\<rparr>"

theorem compression_only_when_allowed_witness:
  "wr_status (compression_apply sample_ops sample_codec sample_response (Some sample_compression) ''GET''
       [(''accept-encoding'', ''gzip'')]) = 200
   \<and> fields_get (wr_headers (compression_apply sample_ops sample_codec sample_response (Some sample_compression) ''GET''
       [(''accept-encoding'', ''gzip'')])) ''etag'' = [''W/v1'']"
proof -
  let ?out = "compression_apply sample_ops sample_codec sample_response (Some sample_compression) ''GET''
       [(''accept-encoding'', ''gzip'')]"
  have "content_type_eligible [''text/html''] (hd (split_on (CHR '';'') ''text/html''))" by code_simp
  then have "response_eligible sample_ops 200 (wr_headers sample_response) sample_compression"
    by (simp add: response_eligible_def cache_control_no_transform_def sample_ops_def sample_response_def
        sample_compression_def fields_get_def)
  moreover have "negotiate Some [''gzip''] [Zstd, Gzip] = Some Gzip" by code_simp
  ultimately have body: "wr_body ?out = CompressBody (Some ()) (full ''hello'') []"
    by (simp add: compression_apply_def compress_response_def with_body_def sample_compression_def sample_codec_def
        sample_ops_def sample_response_def fields_get_def)
  have etag: "weakened (\<lambda>_. True) (fields_get (wr_headers sample_response) ''etag'') = [''W/v1'']" by code_simp
  have [simp]: "mo_get_all sample_ops = fields_get" "mo_value_ok sample_ops = (\<lambda>_. True)" by (simp_all add: sample_ops_def)
  show ?thesis
    using compression_only_when_allowed [OF field_ops.request_map_axioms refl, of sample_codec sample_response
        "Some sample_compression" "''GET''" "[(''accept-encoding'', ''gzip'')]" "''etag''"] body etag
    by (auto simp: sample_response_def)
qed

subsection \<open>The coded stream carries the identity bytes\<close>

text \<open>What a reader gets in \<open>n\<close> polls; it stops at the end and at a fault.\<close>

fun read_frames :: "'e codec \<Rightarrow> nat \<Rightarrow> 'e option \<Rightarrow> body \<Rightarrow> body \<Rightarrow> body" where
  "read_frames ck 0 enc inner queue = []"
| "read_frames ck (Suc n) enc inner queue =
     (case poll_compressed ck enc inner queue of
        (CompressBody enc' inner' queue', Some frame) \<Rightarrow>
          frame # (if frame = ReadFault then [] else read_frames ck n enc' inner' queue')
      | _ \<Rightarrow> [])"

fun coded_frames :: "'e codec \<Rightarrow> 'e \<Rightarrow> body \<Rightarrow> body" where
  "coded_frames ck e [] = (case ck_finish ck e of Some out \<Rightarrow> emitted out | None \<Rightarrow> [ReadFault])"
| "coded_frames ck e (DataFrame data # inner) =
     (if data = [] then coded_frames ck e inner
      else case ck_write_flush ck e data of
             Some (e', out) \<Rightarrow> emitted out @ coded_frames ck e' inner
           | None \<Rightarrow> [ReadFault])"
| "coded_frames ck e (TrailerFrame ts # inner) =
     (case ck_finish ck e of Some out \<Rightarrow> emitted out @ [TrailerFrame ts] | None \<Rightarrow> [ReadFault])"
| "coded_frames ck e (ReadFault # inner) = [ReadFault]"

definition to_come :: "'e codec \<Rightarrow> 'e option \<Rightarrow> body \<Rightarrow> body \<Rightarrow> body" where
  "to_come ck enc inner queue = queue @ (case enc of None \<Rightarrow> [] | Some e \<Rightarrow> coded_frames ck e inner)"

lemma sound_emitted [simp]: "ReadFault \<notin> set (emitted out)"
  by (simp add: emitted_def)

lemma poll_yields:
  assumes "ReadFault \<notin> set queue"
  shows "\<exists>enc' inner' queue'. ReadFault \<notin> set queue' \<and>
    (poll_compressed ck enc inner queue = (CompressBody enc' inner' queue', None) \<and> to_come ck enc inner queue = []
     \<or> (\<exists>f. poll_compressed ck enc inner queue = (CompressBody enc' inner' queue', Some f)
          \<and> to_come ck enc inner queue = f # (if f = ReadFault then [] else to_come ck enc' inner' queue')))"
  using assms
proof (induction ck enc inner queue rule: poll_compressed.induct)
  case (3 ck e)
  show ?case
  proof (cases "ck_finish ck e")
    case (Some out)
    with 3 show ?thesis by (simp add: to_come_def)
  qed (simp add: to_come_def exI [of _ "[]"])
next
  case (4 ck e data inner)
  show ?case
  proof (cases "data = []")
    case False
    show ?thesis
    proof (cases "ck_write_flush ck e data")
      case (Some p)
      obtain e' out where "p = (e', out)" by (cases p)
      with 4(2) [OF False Some this [symmetric]] False Some show ?thesis by (simp add: to_come_def)
    qed (simp add: False to_come_def exI [of _ "[]"])
  qed (use 4 in \<open>simp add: to_come_def\<close>)
next
  case (5 ck e ts inner)
  show ?case
  proof (cases "ck_finish ck e")
    case (Some out)
    with 5 show ?thesis by (simp add: to_come_def)
  qed (simp add: to_come_def exI [of _ "[]"])
qed (auto simp: to_come_def)

lemma read_frames_eq:
  "ReadFault \<notin> set queue \<Longrightarrow> read_frames ck n enc inner queue = take n (to_come ck enc inner queue)"
proof (induction n arbitrary: enc inner queue)
  case (Suc n)
  from poll_yields [OF Suc.prems, of ck enc inner] obtain enc' inner' queue' where
    ok: "ReadFault \<notin> set queue'" and "poll_compressed ck enc inner queue = (CompressBody enc' inner' queue', None) \<and> to_come ck enc inner queue = []
     \<or> (\<exists>f. poll_compressed ck enc inner queue = (CompressBody enc' inner' queue', Some f)
          \<and> to_come ck enc inner queue = f # (if f = ReadFault then [] else to_come ck enc' inner' queue'))" by blast
  then show ?case using Suc.IH [OF ok] by auto
qed simp

text \<open>An encoder's output for a sequence of chunks, and what it means for a codec to lose nothing.\<close>

fun encode_all :: "'e codec \<Rightarrow> 'e \<Rightarrow> string list \<Rightarrow> string option" where
  "encode_all ck e [] = ck_finish ck e"
| "encode_all ck e (d # ds) =
     (case ck_write_flush ck e d of
        None \<Rightarrow> None
      | Some (e', out) \<Rightarrow> map_option ((@) out) (encode_all ck e' ds))"

definition lossless :: "'e codec \<Rightarrow> (compression_algorithm \<Rightarrow> string \<Rightarrow> string option) \<Rightarrow> bool" where
  "lossless ck decode \<longleftrightarrow>
     (\<forall>a e ds out. ck_new ck a = Some e \<longrightarrow> encode_all ck e ds = Some out \<longrightarrow> decode a out = Some (concat ds))"

lemma coded_frames_encode:
  assumes "ts = [] \<or> (\<exists>t. ts = [TrailerFrame t])" and "sound (coded_frames ck e (map DataFrame ds @ ts))"
  shows "\<exists>coded. coded_frames ck e (map DataFrame ds @ ts) = map DataFrame coded @ ts
    \<and> encode_all ck e (filter (\<lambda>d. d \<noteq> []) ds) = Some (concat coded)"
  using assms(2)
proof (induction ds arbitrary: e)
  case Nil
  with assms(1) show ?case
    by (intro exI [of _ "(case ck_finish ck e of Some out \<Rightarrow> if out = [] then [] else [out] | None \<Rightarrow> [])"])
      (auto simp: emitted_def split: option.splits)
next
  case (Cons d ds)
  show ?case
  proof (cases "d = []")
    case False
    then obtain e' out where w: "ck_write_flush ck e d = Some (e', out)"
      using Cons.prems by (cases "ck_write_flush ck e d") auto
    then have "sound (coded_frames ck e' (map DataFrame ds @ ts))"
      using Cons.prems False by (simp add: sound_def)
    from Cons.IH [OF this] obtain coded where
      "coded_frames ck e' (map DataFrame ds @ ts) = map DataFrame coded @ ts"
      "encode_all ck e' (filter (\<lambda>d. d \<noteq> []) ds) = Some (concat coded)" by blast
    then show ?thesis using False w
      by (intro exI [of _ "(if out = [] then [] else [out]) @ coded"]) (simp add: emitted_def)
  qed (use Cons in simp)
qed

text \<open>
  C19: Compression loses nothing.  For a codec whose decoder inverts its encoder, a client that reads the
  compressed body to its end, without a fault, gets data frames whose bytes decode to exactly the bytes of
  the upstream body, followed by the upstream's trailers.
\<close>

theorem compressed_body_roundtrip:
  assumes "lossless ck decode" and "ck_new ck algo = Some e"
    and "inner = map DataFrame ds @ ts" and "ts = [] \<or> (\<exists>t. ts = [TrailerFrame t])"
  shows "\<exists>frames. (\<forall>n. length frames \<le> n \<longrightarrow> read_frames ck n (Some e) inner [] = frames)
    \<and> (sound frames \<longrightarrow>
        (\<exists>coded. frames = map DataFrame coded @ ts \<and> decode algo (concat coded) = Some (concat ds)))"
proof -
  have nonempty: "concat (filter (\<lambda>d. d \<noteq> []) ds) = concat ds" by (induction ds) auto
  have read: "read_frames ck n (Some e) inner [] = take n (coded_frames ck e inner)" for n
    by (simp add: read_frames_eq to_come_def)
  moreover have "\<exists>coded. coded_frames ck e inner = map DataFrame coded @ ts \<and> decode algo (concat coded) = Some (concat ds)"
    if "sound (coded_frames ck e inner)"
    using coded_frames_encode [OF assms(4) that [unfolded assms(3)]] assms(1,2)
    unfolding lossless_def assms(3) by (metis nonempty)
  ultimately show ?thesis by (intro exI [of _ "coded_frames ck e inner"]) simp
qed

theorem compressed_body_roundtrip_witness:
  "\<exists>frames. (\<forall>n. length frames \<le> n \<longrightarrow>
        read_frames sample_codec n (Some ()) [DataFrame ''ab'', DataFrame [], DataFrame ''c'', TrailerFrame []] [] = frames)
    \<and> (sound frames \<longrightarrow> (\<exists>coded. frames = map DataFrame coded @ [TrailerFrame []] \<and> Some (concat coded) = Some ''abc''))"
proof -
  have "encode_all sample_codec () ds = Some (concat ds)" for ds
    by (induction ds) (simp_all add: sample_codec_def)
  then have "lossless sample_codec (\<lambda>_. Some)" by (simp add: lossless_def)
  from compressed_body_roundtrip [OF this, of Gzip "()" _ "[''ab'', [], ''c'']" "[TrailerFrame []]", OF _ refl]
  show ?thesis by (simp add: sample_codec_def)
qed

end
