(* ===== verification/Respond.thy ===== *)
theory Respond
  imports Compression Route_Match
begin

text \<open>
  The response half of a transaction: the responses of \<open>server/src/respond.rs\<close>, and from
  \<open>server/src/proxy.rs\<close> the way of an upstream response through the chain, its inspection and the upgrade
  switch.  The header map is the argument \<open>ops\<close>; metrics are left out.  A body handed to the background
  drain is part of the result.
\<close>

subsection \<open>Synthesised and streamed responses\<close>

definition status_or_bad_gateway :: "u16 \<Rightarrow> u16" where
  "status_or_bad_gateway s = (if 100 \<le> s \<and> s \<le> 999 then s else 502)"

definition http_response_of :: "'m map_ops \<Rightarrow> http_response \<Rightarrow> ('m, body) response" where
  "http_response_of ops resp =
     \<lparr>wr_status = status_or_bad_gateway (rp_status resp),
      wr_headers = mo_of_fields ops (copy_headers_synth (mo_parse_name ops) (mo_value_ok ops) (rp_headers resp)),
      wr_body = full (rp_body resp)\<rparr>"

definition stream_response :: "'m map_ops \<Rightarrow> u16 \<Rightarrow> header list \<Rightarrow> 'm \<Rightarrow> body \<Rightarrow> ('m, body) response" where
  "stream_response ops status headers upstream body =
     (let h = mo_of_fields ops (copy_headers_synth (mo_parse_name ops) (mo_value_ok ops) headers)
      in \<lparr>wr_status = status_or_bad_gateway status,
          wr_headers = (case mo_get_all ops upstream ''content-length'' of
                          [] \<Rightarrow> h
                        | len # _ \<Rightarrow> mo_insert ops h ''content-length'' len),
          wr_body = body\<rparr>)"

definition stream_response_direct :: "'m map_ops \<Rightarrow> u16 \<Rightarrow> 'm \<Rightarrow> body \<Rightarrow> ('m, body) response" where
  "stream_response_direct ops status headers body =
     \<lparr>wr_status = status,
      wr_headers = mo_of_fields ops (copy_headers_direct (mo_to_str ops) (mo_fields ops headers)),
      wr_body = body\<rparr>"

definition synth :: "'m map_ops \<Rightarrow> u16 \<Rightarrow> string \<Rightarrow> string \<Rightarrow> ('m, body) response" where
  "synth ops status fault msg =
     \<lparr>wr_status = status, wr_headers = mo_insert ops (mo_of_fields ops []) ''x-plecto-fault'' fault, wr_body = full msg\<rparr>"

definition synth_retry_after :: "'m map_ops \<Rightarrow> u16 \<Rightarrow> string \<Rightarrow> string \<Rightarrow> u64 \<Rightarrow> ('m, body) response" where
  "synth_retry_after ops status fault msg retry_after_secs =
     (let resp = synth ops status fault msg;
          secs = show_nat (unat retry_after_secs)
      in resp\<lparr>wr_headers := mo_insert ops (wr_headers resp) ''retry-after'' (if mo_value_ok ops secs then secs else ''0'')\<rparr>)"

definition with_error_code :: "'m map_ops \<Rightarrow> ('m, body) response \<Rightarrow> string \<Rightarrow> ('m, body) response" where
  "with_error_code ops resp code =
     resp\<lparr>wr_headers := mo_insert ops (wr_headers resp) ''x-plecto-error-code''
            (if mo_value_ok ops code then code else ''PLECTO-E0000'')\<rparr>"

definition QUOTA_EXCEEDED :: string where
  "QUOTA_EXCEEDED = ''PLECTO-E0002''"

definition PATH_NORMALIZATION_REJECTED :: string where
  "PATH_NORMALIZATION_REJECTED = ''PLECTO-E0003''"

subsection \<open>The routed half\<close>

datatype 'x server_error = RequestBuild | ChainJoin | ChainPanic | UpstreamError 'x

datatype 'm routed = Synthesised "('m, body) response" | Forwarded "('m, body) response" "nat option"

definition routed_forwarded :: "('m, body) response \<Rightarrow> 'm routed" where
  "routed_forwarded response = Forwarded response None"

definition routed_buffered :: "('m, body) response \<Rightarrow> nat \<Rightarrow> 'm routed" where
  "routed_buffered response permit = Forwarded response (Some permit)"

fun routed_response :: "'m routed \<Rightarrow> ('m, body) response" where
  "routed_response (Synthesised resp) = resp"
| "routed_response (Forwarded resp _) = resp"

definition with_declared_headers :: "'m map_ops \<Rightarrow> ('m, body) response \<Rightarrow> response_headers option \<Rightarrow> ('m, body) response" where
  "with_declared_headers ops resp declared =
     (case declared of
        None \<Rightarrow> resp
      | Some d \<Rightarrow> resp\<lparr>wr_headers := apply_response_headers (mo_remove ops) (mo_insert ops) d (wr_headers resp)\<rparr>)"

definition budget_permits :: "nat \<Rightarrow> nat" where
  "budget_permits bytes = (if bytes < 2 ^ 32 then bytes else 2 ^ 32 - 1)"

datatype inspection_skip = StreamingContentType | ContentEncoding | PartialContent | OverCap

datatype inspectability = Inspect | OutOfScope | Uninspectable inspection_skip

definition is_streaming_media_type :: "string \<Rightarrow> bool" where
  "is_streaming_media_type essence = eq_ignore_ascii_case essence ''text/event-stream''"

definition is_content_encoded :: "'m map_ops \<Rightarrow> 'm \<Rightarrow> bool" where
  "is_content_encoded ops headers =
     list_ex (\<lambda>v. case mo_to_str ops v of
                    Some s \<Rightarrow> list_ex (\<lambda>t. trim t \<noteq> [] \<and> \<not> eq_ignore_ascii_case (trim t) ''identity'') (split_on (CHR '','') s)
                  | None \<Rightarrow> True)
       (mo_get_all ops headers ''content-encoding'')"

definition essence_of :: "'m map_ops \<Rightarrow> 'm \<Rightarrow> string" where
  "essence_of ops headers =
     (case mo_get_all ops headers ''content-type'' of
        [] \<Rightarrow> []
      | v # _ \<Rightarrow> (case mo_to_str ops v of None \<Rightarrow> [] | Some s \<Rightarrow> trim (hd (split_on (CHR '';'') s))))"

definition classify_response :: "'m map_ops \<Rightarrow> u16 \<Rightarrow> 'm \<Rightarrow> response_body_config \<Rightarrow> inspectability" where
  "classify_response ops status headers cfg =
     (let essence = essence_of ops headers
      in if is_streaming_media_type essence then Uninspectable StreamingContentType
         else if \<not> content_type_eligible (bc_content_types cfg) essence then OutOfScope
         else if status = 206 \<or> mo_get_all ops headers ''content-range'' \<noteq> [] then Uninspectable PartialContent
         else if is_content_encoded ops headers then Uninspectable ContentEncoding
         else Inspect)"

subsection \<open>The chain on the worker and off it\<close>

text \<open>Where the engine or a task panics, and the state of the filters it leaves behind.\<close>

datatype chain_call = RequestInline | RequestOffload | RequestBody | ResponseInline | ResponseOffload | ResponseBody

definition run_request_chain ::
    "(chain_call \<Rightarrow> 'w option) \<Rightarrow> 'w loaded_filter list \<Rightarrow> 'w \<Rightarrow> http_request \<Rightarrow> 'w \<times> ('x server_error, chain_outcome) result" where
  "run_request_chain panics chain w request =
     (case panics RequestInline of
        Some w' \<Rightarrow> (w', Inl ChainPanic)
      | None \<Rightarrow>
          (case dispatch_request_inline chain w request of
             (w1, RqComplete out) \<Rightarrow> (w1, Inr out)
           | (w1, RqPending k request1) \<Rightarrow>
               (case panics RequestOffload of
                  Some w' \<Rightarrow> (w', Inl ChainJoin)
                | None \<Rightarrow> (case dispatch_request_from chain k w1 request1 of (w2, out) \<Rightarrow> (w2, Inr out)))))"

definition run_response_chain ::
    "(chain_call \<Rightarrow> 'w option) \<Rightarrow> 'w loaded_filter list \<Rightarrow> 'w \<Rightarrow> http_request \<Rightarrow> http_response
       \<Rightarrow> 'w \<times> ('x server_error, response_outcome) result" where
  "run_response_chain panics chain w forward response =
     (case panics ResponseInline of
        Some w' \<Rightarrow> (w', Inl ChainPanic)
      | None \<Rightarrow>
          (case dispatch_response_inline chain w forward response of
             (w1, RsComplete out) \<Rightarrow> (w1, Inr out)
           | (w1, RsPending k response1) \<Rightarrow>
               (case panics ResponseOffload of
                  Some w' \<Rightarrow> (w', Inl ChainJoin)
                | None \<Rightarrow> (case dispatch_response_from chain k w1 forward response1 of (w2, out) \<Rightarrow> (w2, Inr out)))))"

subsection \<open>Inspection of a response body\<close>

text \<open>
  What the response half yields: the routed response or an error, why inspection was skipped, and the
  upstream body given to the drain.
\<close>

record ('m, 'x) settled =
  st_routed :: "('x server_error, 'm routed) result"
  st_skipped :: "inspection_skip option"
  st_discarded :: "body option"

definition settle :: "'m routed \<Rightarrow> inspection_skip option \<Rightarrow> body option \<Rightarrow> ('m, 'x) settled" where
  "settle r skip dropped = \<lparr>st_routed = Inr r, st_skipped = skip, st_discarded = dropped\<rparr>"

text \<open>The budget's semaphore may be closed; \<open>re_ready\<close> counts the polls answered before the read timeout.\<close>

record 'w response_env =
  re_budget_open :: bool
  re_ready :: nat
  re_panics :: "chain_call \<Rightarrow> 'w option"

definition run_body_hooks ::
    "'m map_ops \<Rightarrow> 'w response_env \<Rightarrow> 'w loaded_filter list \<Rightarrow> nat \<Rightarrow> 'w \<Rightarrow> http_request \<Rightarrow> http_response \<Rightarrow> 'm
       \<Rightarrow> inspection_skip option \<Rightarrow> string \<Rightarrow> body option \<Rightarrow> 'w \<times> ('m, 'x) settled" where
  "run_body_hooks ops env chain cap w forward edited upstream skip inspected rest =
     (case re_panics env ResponseBody of
        Some w' \<Rightarrow> (w', \<lparr>st_routed = Inl ChainJoin, st_skipped = skip, st_discarded = None\<rparr>)
      | None \<Rightarrow>
          (case dispatch_response_body chain w forward edited inspected cap of
             (w1, PbRespond resp) \<Rightarrow> (w1, settle (Synthesised (http_response_of ops resp)) skip rest)
           | (w1, PbForward body headers transformed) \<Rightarrow>
               (w1,
                case rest of
                  None \<Rightarrow>
                    settle (routed_buffered (http_response_of ops \<lparr>rp_status = rp_status edited, rp_headers = headers, rp_body = body\<rparr>)
                             (budget_permits cap)) skip None
                | Some tail \<Rightarrow>
                    if transformed
                    then settle (Synthesised (synth ops 502 ''response-body-partial-modified''
                                  ''filter rewrote a partially inspected response body'')) skip (Some tail)
                    else settle (routed_buffered (stream_response ops (rp_status edited) headers upstream (prefixed body tail))
                                  (budget_permits cap)) skip None)))"

definition inspect_response_body ::
    "'m map_ops \<Rightarrow> 'w response_env \<Rightarrow> 'w loaded_filter list \<Rightarrow> response_body_config \<Rightarrow> 'w \<Rightarrow> http_request \<Rightarrow> http_response
       \<Rightarrow> 'm \<Rightarrow> body \<Rightarrow> 'w \<times> ('m, 'x) settled" where
  "inspect_response_body ops env chain cfg w forward edited upstream ubody =
     (let cap = unat (bc_max_bytes cfg)
      in if \<not> re_budget_open env
         then (w, settle (Synthesised (synth ops 503 ''response-body-buffer-unavailable'' ''response body buffer unavailable''))
                    None (Some ubody))
         else
           (case buffer_response_body cap (re_ready env) [] ubody of
              None \<Rightarrow> (w, settle (Synthesised (synth ops 504 ''response-body-timeout'' ''upstream response body timeout'')) None None)
            | Some RbReadError \<Rightarrow>
                (w, settle (Synthesised (synth ops 502 ''response-body-read-error'' ''upstream response body read error'')) None None)
            | Some (RbBuffered body) \<Rightarrow> run_body_hooks ops env chain cap w forward edited upstream None body None
            | Some (RbOverCap start rest) \<Rightarrow>
                (case bc_over_cap cfg of
                   OverCapReject \<Rightarrow>
                     (w, settle (Synthesised (synth ops 502 ''response-body-too-large'' ''response body too large to inspect''))
                           (Some OverCap) (Some rest))
                 | OverCapPassthrough \<Rightarrow>
                     (w, settle (routed_buffered (stream_response ops (rp_status edited) (rp_headers edited) upstream (prefixed start rest))
                                   (budget_permits cap)) (Some OverCap) None)
                 | OverCapProcessPartial \<Rightarrow>
                     run_body_hooks ops env chain cap w forward edited upstream (Some OverCap) start (Some rest))))"

subsection \<open>Through the chain\<close>

definition project_response :: "'m map_ops \<Rightarrow> u16 \<Rightarrow> 'm \<Rightarrow> http_response" where
  "project_response ops status headers =
     \<lparr>rp_status = status, rp_headers = headers_to_vec (mo_to_str ops) (mo_fields ops headers), rp_body = []\<rparr>"

definition respond_through_chain ::
    "'m map_ops \<Rightarrow> 'w response_env \<Rightarrow> 'w loaded_filter list \<Rightarrow> bool \<Rightarrow> body_hooks \<Rightarrow> response_body_config \<Rightarrow> 'w \<Rightarrow> http_request
       \<Rightarrow> ('m, body) response \<Rightarrow> 'w \<times> ('m, 'x) settled" where
  "respond_through_chain ops env chain has_filters hooks cfg w forward upstream_resp =
     (let status = wr_status upstream_resp; headers = wr_headers upstream_resp; ubody = wr_body upstream_resp
      in if \<not> has_filters then (w, settle (routed_forwarded (stream_response_direct ops status headers ubody)) None None)
         else
           let inspectability = (if bh_response hooks then Some (classify_response ops status headers cfg) else None)
           in case run_response_chain (re_panics env) chain w forward (project_response ops status headers) of
                (w1, Inl err) \<Rightarrow> (w1, \<lparr>st_routed = Inl err, st_skipped = None, st_discarded = None\<rparr>)
              | (w1, Inr (RsRespond resp)) \<Rightarrow> (w1, settle (Synthesised (http_response_of ops resp)) None (Some ubody))
              | (w1, Inr (RsForward edited)) \<Rightarrow>
                  (let streamed = routed_forwarded (stream_response ops (rp_status edited) (rp_headers edited) headers ubody)
                   in case inspectability of
                        None \<Rightarrow> (w1, settle streamed None None)
                      | Some OutOfScope \<Rightarrow> (w1, settle streamed None None)
                      | Some (Uninspectable reason) \<Rightarrow>
                          (case bc_uninspectable cfg of
                             UninspectablePassthrough \<Rightarrow> (w1, settle streamed (Some reason) None)
                           | UninspectableReject \<Rightarrow>
                               (w1, settle (Synthesised (synth ops 502 ''response-body-uninspectable''
                                             ''response body could not be inspected'')) (Some reason) (Some ubody)))
                      | Some Inspect \<Rightarrow> inspect_response_body ops env chain cfg w1 forward edited headers ubody))"

subsection \<open>The upgrade switch\<close>

definition upstream_switched_to :: "'m map_ops \<Rightarrow> 'm \<Rightarrow> string \<Rightarrow> bool" where
  "upstream_switched_to ops headers token =
     (case mo_get_all ops headers ''upgrade'' of
        [] \<Rightarrow> False
      | v # _ \<Rightarrow>
          (case mo_to_str ops v of
             None \<Rightarrow> False
           | Some s \<Rightarrow> list_ex (\<lambda>t. eq_ignore_ascii_case (trim t) token) (split_on (CHR '','') s)))"

definition bad_upgrade :: "'m map_ops \<Rightarrow> string \<Rightarrow> ('m, body) response" where
  "bad_upgrade ops msg = synth ops 502 ''bad-upgrade'' msg"

text \<open>The response of the switch, and whether the two connections are spliced.\<close>

definition switching_response :: "'m map_ops \<Rightarrow> string \<Rightarrow> (string \<times> string) list \<Rightarrow> ('m, body) response \<times> bool" where
  "switching_response ops token copied =
     (if \<not> mo_value_ok ops token then (bad_upgrade ops ''bad upgrade token'', False)
      else (\<lparr>wr_status = 101,
             wr_headers = mo_insert ops (mo_insert ops (mo_of_fields ops copied) ''upgrade'' token) ''connection'' ''upgrade'',
             wr_body = full []\<rparr>, True))"

definition upgrade_switch ::
    "'m map_ops \<Rightarrow> (chain_call \<Rightarrow> 'w option) \<Rightarrow> 'w loaded_filter list \<Rightarrow> bool \<Rightarrow> 'w \<Rightarrow> http_request \<Rightarrow> string option
       \<Rightarrow> ('m, body) response \<Rightarrow> 'w \<times> ('x server_error, ('m, body) response \<times> bool) result" where
  "upgrade_switch ops panics chain has_filters w forward upgrade upstream_resp =
     (case upgrade of
        None \<Rightarrow> (w, Inr (bad_upgrade ops ''unsolicited upgrade'', False))
      | Some token \<Rightarrow>
          if \<not> upstream_switched_to ops (wr_headers upstream_resp) token
          then (w, Inr (bad_upgrade ops ''upgrade token mismatch'', False))
          else if \<not> has_filters
          then (w, Inr (switching_response ops token
                         (copy_headers_direct (mo_to_str ops) (mo_fields ops (wr_headers upstream_resp)))))
          else (case run_response_chain panics chain w forward (project_response ops 101 (wr_headers upstream_resp)) of
                  (w1, Inl err) \<Rightarrow> (w1, Inl err)
                | (w1, Inr (RsRespond resp)) \<Rightarrow> (w1, Inr (http_response_of ops resp, False))
                | (w1, Inr (RsForward edited)) \<Rightarrow>
                    if rp_status edited \<noteq> 101 then (w1, Inr (http_response_of ops edited, False))
                    else (w1, Inr (switching_response ops token
                                    (copy_headers (mo_parse_name ops) (mo_value_ok ops) (rp_headers edited))))))"

subsection \<open>Running the chain in two parts is running it\<close>

lemma response_resume_inline:
  "response_resume chain forward (dispatch_response_inline chain w forward resp) = dispatch_response chain w forward resp"
  using response_inline_resume [of "length chain" chain forward w resp]
  by (cases chain rule: rev_cases) (simp_all add: dispatch_response_inline_def dispatch_response_def dispatch_response_from_def)

lemma request_resume_inline:
  "request_resume chain (dispatch_request_inline chain w request) = dispatch_request chain w request"
  using request_inline_resume [of chain "[]" chain w request]
  by (simp add: dispatch_request_inline_def dispatch_request_def dispatch_request_from_def)

lemma run_response_chain_Inr:
  assumes "run_response_chain panics chain w forward resp = (w', Inr out)"
  shows "dispatch_response chain w forward resp = (w', out)"
proof -
  have "response_resume chain forward (dispatch_response_inline chain w forward resp) = (w', out)"
    using assms by (auto simp: run_response_chain_def response_resume_def split: prod.splits inline_response_outcome.splits option.splits)
  then show ?thesis by (simp add: response_resume_inline)
qed

lemma run_request_chain_Inr:
  assumes "run_request_chain panics chain w request = (w', Inr out)"
  shows "dispatch_request chain w request = (w', out)"
proof -
  have "request_resume chain (dispatch_request_inline chain w request) = (w', out)"
    using assms by (auto simp: run_request_chain_def request_resume_def split: prod.splits inline_request_outcome.splits option.splits)
  then show ?thesis by (simp add: request_resume_inline)
qed

lemma untransformed_body:
  "response_body_loop fs w request response body cap transformed = (w', PbForward body' headers False)
     \<Longrightarrow> body' = body \<and> \<not> transformed"
proof (induction fs arbitrary: w response body transformed)
  case (Cons f fs)
  then show ?case
    by (auto split: prod.splits sum.splits response_body_decision.splits if_splits)
qed simp

subsection \<open>Nothing in scope leaves uninspected\<close>

text \<open>
  C6: With the strict modes, a response the route inspects and forwards was inspected whole.  Its body is
  what the body hooks made of all the bytes of the upstream body, which ended without a fault within the
  cap, after the response chain let the head pass; its size is reserved, and nothing was skipped.
\<close>

theorem inspected_or_refused:
  fixes s :: "('m, 'x) settled" and chain :: "'w loaded_filter list"
  assumes "respond_through_chain ops env chain True hooks cfg w forward upstream_resp = (w', s)"
    and "st_routed s = Inr (Forwarded resp budget)"
    and "bh_response hooks" and "bc_uninspectable cfg = UninspectableReject" and "bc_over_cap cfg = OverCapReject"
    and "classify_response ops (wr_status upstream_resp) (wr_headers upstream_resp) cfg \<noteq> OutOfScope"
  shows "\<exists>w1 edited body headers transformed.
      dispatch_response chain w forward (project_response ops (wr_status upstream_resp) (wr_headers upstream_resp)) = (w1, RsForward edited)
    \<and> dispatch_response_body chain w1 forward edited (data_of (wr_body upstream_resp)) (unat (bc_max_bytes cfg))
        = (w', PbForward body headers transformed)
    \<and> sound (wr_body upstream_resp) \<and> length (data_of (wr_body upstream_resp)) \<le> unat (bc_max_bytes cfg)
    \<and> wr_body resp = full body \<and> budget = Some (budget_permits (unat (bc_max_bytes cfg))) \<and> st_skipped s = None"
proof -
  let ?ubody = "wr_body upstream_resp" and ?cap = "unat (bc_max_bytes cfg)"
  let ?run = "run_response_chain (re_panics env) chain w forward
      (project_response ops (wr_status upstream_resp) (wr_headers upstream_resp)) :: 'w \<times> ('x server_error, response_outcome) result"
  obtain w1 edited where run: "?run = (w1, Inr (RsForward edited))"
    and insp: "inspect_response_body ops env chain cfg w1 forward edited (wr_headers upstream_resp) ?ubody = (w', s)"
    using assms
    by (cases "classify_response ops (wr_status upstream_resp) (wr_headers upstream_resp) cfg")
      (auto simp: respond_through_chain_def Let_def settle_def split: prod.splits sum.splits response_outcome.splits)
  obtain bytes where buf: "buffer_response_body ?cap (re_ready env) [] ?ubody = Some (RbBuffered bytes)"
    and hooks: "run_body_hooks ops env chain ?cap w1 forward edited (wr_headers upstream_resp) None bytes None = (w', s)"
    using insp assms(2,5)
    by (auto simp: inspect_response_body_def Let_def settle_def split: if_splits option.splits response_buffer_outcome.splits)
  obtain body headers transformed where
    "dispatch_response_body chain w1 forward edited bytes ?cap = (w', PbForward body headers transformed)"
    "wr_body resp = full body" "budget = Some (budget_permits ?cap)" "st_skipped s = None"
    using hooks assms(2)
    by (auto simp: run_body_hooks_def settle_def routed_buffered_def http_response_of_def split: option.splits prod.splits response_body_outcome.splits)
  then show ?thesis
    using run_response_chain_Inr [OF run] buffer_response_cases [OF buf] by auto
qed

definition echo_filter :: "unit loaded_filter" where
  "echo_filter =
     \<lparr>lf_runs_inline = True, lf_idle = (\<lambda>_. True), lf_body_hooks = \<lparr>bh_request = True, bh_response = True\<rparr>,
      lf_on_request = (\<lambda>w _. (w, Inr RqContinue)), lf_call_request_body = (\<lambda>w _. (w, Inr QbContinue)),
      lf_on_response = (\<lambda>w _ _. (w, Inr RpContinue)), lf_call_response_body = (\<lambda>w _ _ _. (w, Inr PbContinue))\<rparr>"

definition sample_as_forwarded :: http_request where
  "sample_as_forwarded = \<lparr>rq_method = ''GET'', rq_path_with_query = ''/'', rq_authority = ''a.test'', rq_scheme = ''http'', rq_headers = []\<rparr>"

definition sample_inspection :: response_body_config where
  "sample_inspection =
     \<lparr>bc_max_bytes = 8, bc_over_cap = OverCapReject, bc_uninspectable = UninspectableReject, bc_content_types = [''text/html'']\<rparr>"

definition sample_response_env :: "unit response_env" where
  "sample_response_env = \<lparr>re_budget_open = True, re_ready = 5, re_panics = (\<lambda>_. None)\<rparr>"

text \<open>The way of the sample response through one filter.\<close>

lemma sample_essence: "essence_of sample_ops (wr_headers sample_response) = ''text/html''"
  by code_simp

lemma sample_inspect: "classify_response sample_ops 200 (wr_headers sample_response) sample_inspection = Inspect"
proof -
  have "content_type_eligible [''text/html''] ''text/html''" "\<not> is_streaming_media_type ''text/html''" by code_simp+
  then show ?thesis
    by (simp add: classify_response_def sample_essence sample_inspection_def is_content_encoded_def)
      (simp add: sample_response_def sample_ops_def fields_get_def)
qed

lemma sample_chain:
  "run_response_chain (\<lambda>_. None) [echo_filter] () sample_as_forwarded p = ((), Inr (RsForward p))"
  by (simp add: run_response_chain_def dispatch_response_inline_def try_on_response_def echo_filter_def handle_response_step_def)

lemma sample_settled:
  "\<exists>s resp. respond_through_chain sample_ops sample_response_env [echo_filter] True \<lparr>bh_request = True, bh_response = True\<rparr>
       sample_inspection () sample_as_forwarded sample_response = ((), s)
     \<and> st_routed s = Inr (Forwarded resp (Some (budget_permits 8))) \<and> wr_body resp = full ''hello''"
proof -
  have buf: "buffer_response_body 8 5 [] (full ''hello'') = Some (RbBuffered ''hello'')"
    by (simp add: full_def numeral_eq_Suc)
  have sel: "wr_status sample_response = 200" "wr_body sample_response = full ''hello''" "re_panics sample_response_env = (\<lambda>_. None)"
    "re_budget_open sample_response_env" "re_ready sample_response_env = 5" "unat (bc_max_bytes sample_inspection) = 8"
    by (simp_all add: sample_response_def sample_response_env_def sample_inspection_def)
  have hooks: "dispatch_response_body [echo_filter] () sample_as_forwarded p ''hello'' 8 = ((), PbForward ''hello'' (rp_headers p) False)" for p
    by (simp add: dispatch_response_body_def on_response_body_def echo_filter_def)
  show ?thesis
    by (simp add: respond_through_chain_def Let_def sel sample_inspect sample_chain inspect_response_body_def buf run_body_hooks_def hooks
        settle_def routed_buffered_def http_response_of_def)
qed

theorem inspected_or_refused_witness:
  "\<exists>w1 edited body headers transformed.
      dispatch_response [echo_filter] () sample_as_forwarded (project_response sample_ops 200 (wr_headers sample_response)) = (w1, RsForward edited)
    \<and> dispatch_response_body [echo_filter] w1 sample_as_forwarded edited ''hello'' 8 = ((), PbForward body headers transformed)
    \<and> full ''hello'' = full body"
proof -
  obtain s resp where s: "respond_through_chain sample_ops sample_response_env [echo_filter] True \<lparr>bh_request = True, bh_response = True\<rparr>
       sample_inspection () sample_as_forwarded sample_response = ((), s :: ((string \<times> string) list, unit) settled)"
    and routed: "st_routed s = Inr (Forwarded resp (Some (budget_permits 8)))" and body: "wr_body resp = full ''hello''"
    using sample_settled by blast
  have sel: "wr_status sample_response = 200" "data_of (wr_body sample_response) = ''hello''" "unat (bc_max_bytes sample_inspection) = 8"
    by (simp_all add: sample_response_def sample_inspection_def)
  from inspected_or_refused [OF s routed] body show ?thesis
    unfolding sel sample_inspect by (simp add: sample_inspection_def) blast
qed

subsection \<open>Framing towards the client\<close>

text \<open>
  What a client may rely on: no hop-by-hop header, and a \<open>Content-Length\<close> only where it is one the
  upstream declared and the bytes sent are the upstream's.
\<close>

definition framed_by_host :: "'m map_ops \<Rightarrow> ('m, body) response \<Rightarrow> ('m, body) response \<Rightarrow> bool" where
  "framed_by_host ops up resp \<longleftrightarrow>
     list_all (\<lambda>k. mo_get_all ops (wr_headers resp) k = []) HOP_BY_HOP
     \<and> (mo_get_all ops (wr_headers resp) ''content-length'' = []
        \<or> set (mo_get_all ops (wr_headers resp) ''content-length'') \<subseteq> set (mo_get_all ops (wr_headers up) ''content-length'')
          \<and> data_of (wr_body resp) = data_of (wr_body up) \<and> sound (wr_body resp) = sound (wr_body up))"

context request_map
begin

lemma synth_fields:
  assumes "k \<in> set HOP_BY_HOP \<or> k = ''content-length''"
  shows "mo_get_all ops (mo_of_fields ops (copy_headers_synth (mo_parse_name ops) (mo_value_ok ops) headers)) k = []"
proof -
  have low: "to_ascii_lowercase k = k"
    using assms by (auto simp: HOP_BY_HOP_def) (code_simp+)
  have "is_hop_by_hop n \<or> eq_ignore_ascii_case n ''content-length''" if "to_ascii_lowercase n = k" for n
    using assms that low by (auto simp: is_hop_by_hop_def list_ex_iff eq_ignore_ascii_case_def intro!: bexI [of _ k])
  then have "f \<in> set (copy_headers_synth (mo_parse_name ops) (mo_value_ok ops) headers) \<Longrightarrow> fst f \<noteq> k" for f
    using name_lower
    by (fastforce simp: copy_headers_synth_def copy_headers_filtered_def map_filter_def split: if_splits option.splits)
  then show ?thesis by (auto simp: get_of_fields fields_get_def filter_empty_conv)
qed

lemma get_stream_response:
  assumes "k \<in> set HOP_BY_HOP \<or> k = ''content-length''"
  shows "mo_get_all ops (wr_headers (stream_response ops status headers upstream body)) k =
    (if k = ''content-length'' then take 1 (mo_get_all ops upstream ''content-length'') else [])"
  using synth_fields [OF assms] by (auto simp: stream_response_def Let_def get_insert split: list.split)

lemma get_http_response:
  assumes "k \<in> set HOP_BY_HOP \<or> k = ''content-length''"
  shows "mo_get_all ops (wr_headers (http_response_of ops resp)) k = []"
  using synth_fields [OF assms] by (simp add: http_response_of_def)

lemma get_synth:
  assumes "k \<noteq> ''x-plecto-fault''"
  shows "mo_get_all ops (wr_headers (synth ops status fault msg)) k = []"
  using assms by (simp add: synth_def get_insert get_of_fields fields_get_def)

lemma framed_http_response: "framed_by_host ops up (http_response_of ops resp)"
  by (simp add: framed_by_host_def get_http_response list_all_iff)

lemma framed_synth: "framed_by_host ops up (synth ops status fault msg)"
proof -
  have "k \<noteq> ''x-plecto-fault''" if "k \<in> set HOP_BY_HOP" for k
    using that by (auto simp: HOP_BY_HOP_def)
  then show ?thesis by (simp add: framed_by_host_def get_synth list_all_iff)
qed

lemma framed_stream:
  assumes "data_of body = data_of (wr_body up)" and "sound body = sound (wr_body up)"
  shows "framed_by_host ops up (stream_response ops status headers (wr_headers up) body)"
proof -
  have names: "k \<noteq> ''content-length''" if "k \<in> set HOP_BY_HOP" for k
    using that by (auto simp: HOP_BY_HOP_def)
  have "wr_body (stream_response ops status headers (wr_headers up) body) = body"
    by (simp add: stream_response_def Let_def)
  then show ?thesis
    using assms names by (simp add: framed_by_host_def get_stream_response list_all_iff set_take_subset)
qed

lemma framed_direct: "framed_by_host ops up (stream_response_direct ops status (wr_headers up) (wr_body up))"
proof -
  have hop: "is_hop_by_hop k" if "k \<in> set HOP_BY_HOP" for k
    using that by (auto simp: is_hop_by_hop_def list_ex_iff eq_ignore_ascii_case_def)
  have "fields_get (copy_headers_direct (mo_to_str ops) fs) k = []" if "k \<in> set HOP_BY_HOP" for k fs
    using hop [OF that] by (auto simp: fields_get_def copy_headers_direct_def Let_def filter_empty_conv)
  moreover have "set (fields_get (copy_headers_direct (mo_to_str ops) (mo_fields ops m)) k) \<subseteq> set (mo_get_all ops m k)" for m k
    unfolding get_fields [symmetric] by (auto simp: fields_get_def copy_headers_direct_def Let_def)
  ultimately show ?thesis
    by (simp add: framed_by_host_def stream_response_direct_def get_of_fields list_all_iff)
qed

lemma framed_hooks:
  assumes "run_body_hooks ops env chain cap w forward edited (wr_headers up) skip inspected rest = (w', s)"
    and "st_routed s = Inr r"
    and "case rest of None \<Rightarrow> True | Some tail \<Rightarrow> inspected @ data_of tail = data_of (wr_body up) \<and> sound tail = sound (wr_body up)"
  shows "framed_by_host ops up (routed_response r)"
proof (cases "re_panics env ResponseBody")
  case None
  note body = untransformed_body [of "rev chain" w forward edited inspected cap False, folded dispatch_response_body_def]
  show ?thesis
    using assms None body
    by (auto simp: run_body_hooks_def settle_def routed_buffered_def framed_http_response framed_synth
        split: prod.splits response_body_outcome.splits option.splits if_splits intro!: framed_stream)
qed (use assms in \<open>auto simp: run_body_hooks_def\<close>)

lemma framed_inspection:
  assumes "inspect_response_body ops env chain cfg w forward edited (wr_headers up) (wr_body up) = (w', s)"
    and "st_routed s = Inr r"
  shows "framed_by_host ops up (routed_response r)"
proof (cases "buffer_response_body (unat (bc_max_bytes cfg)) (re_ready env) [] (wr_body up)")
  case None
  then show ?thesis using assms
    by (auto simp: inspect_response_body_def Let_def settle_def framed_synth split: if_splits)
next
  case (Some out)
  note shape = buffer_response_cases [OF Some]
  show ?thesis
  proof (cases out)
    case (RbBuffered bytes)
    then show ?thesis using assms Some
      by (auto simp: inspect_response_body_def Let_def settle_def framed_synth split: if_splits intro: framed_hooks)
  next
    case RbReadError
    then show ?thesis using assms Some
      by (auto simp: inspect_response_body_def Let_def settle_def framed_synth split: if_splits)
  next
    case (RbOverCap start rest)
    with shape have "start @ data_of rest = data_of (wr_body up)" "sound rest = sound (wr_body up)" by simp_all
    then show ?thesis using assms Some RbOverCap
      by (auto simp: inspect_response_body_def Let_def settle_def framed_synth routed_buffered_def
          split: if_splits over_cap_mode.splits intro: framed_hooks intro!: framed_stream)
  qed
qed

lemma framed_chain:
  assumes "respond_through_chain ops env chain has_filters hooks cfg w forward up = (w', s)" and "st_routed s = Inr r"
  shows "framed_by_host ops up (routed_response r)"
proof (cases has_filters)
  case False
  then show ?thesis using assms
    by (auto simp: respond_through_chain_def Let_def settle_def routed_forwarded_def framed_direct)
next
  case True
  then show ?thesis using assms
    by (auto simp: respond_through_chain_def Let_def settle_def routed_forwarded_def framed_synth framed_http_response
        split: prod.splits sum.splits response_outcome.splits option.splits if_splits inspectability.splits uninspectable_mode.splits
        intro: framed_inspection intro!: framed_stream)
qed

end

text \<open>
  C7: The host owns the framing towards the client.  Whatever the filters do with the headers of a
  response, the one that leaves the response path has no hop-by-hop header, and a \<open>Content-Length\<close> only
  where the bytes sent are exactly the upstream's and the value is the upstream's own declaration.
\<close>

theorem client_framing_host_owned:
  assumes "request_map ops"
    and "respond_through_chain ops env chain has_filters hooks cfg w forward up = (w', s)" and "st_routed s = Inr r"
  shows "framed_by_host ops up (routed_response r)"
  by (rule request_map.framed_chain [OF assms])

theorem client_framing_host_owned_witness:
  "\<exists>r. framed_by_host sample_ops sample_response (routed_response r) \<and> wr_body (routed_response r) = full ''hello''"
proof -
  obtain s resp where "respond_through_chain sample_ops sample_response_env [echo_filter] True \<lparr>bh_request = True, bh_response = True\<rparr>
       sample_inspection () sample_as_forwarded sample_response = ((), s :: ((string \<times> string) list, unit) settled)"
    and "st_routed s = Inr (Forwarded resp (Some (budget_permits 8)))" and "wr_body resp = full ''hello''"
    using sample_settled by blast
  with client_framing_host_owned [OF field_ops.request_map_axioms this(1,2)] show ?thesis
    by (auto intro!: exI [of _ "Forwarded resp (Some (budget_permits 8))"])
qed

subsection \<open>Only an agreed upgrade is spliced\<close>



subsection \<open>Limits of the response path\<close>

text \<open>A body that was inspected whole is sent without the trailers it came with.\<close>

lemma inspected_trailers_lost:
  "buffer_response_body cap (Suc (Suc (Suc n))) [] [DataFrame d, TrailerFrame ts] = Some (RbBuffered d)"
  if "length d \<le> cap"
  using that by simp

text \<open>A filter may answer 101 where nobody asked for an upgrade, and the answer is sent as it is.\<close>

lemma filter_answers_switching: "wr_status (http_response_of ops \<lparr>rp_status = 101, rp_headers = [], rp_body = []\<rparr>) = 101"
  by (simp add: http_response_of_def status_or_bad_gateway_def)

end
