(* ===== verification/Transaction.thy ===== *)
theory Transaction
  imports Respond
begin

text \<open>
  A whole transaction (\<open>server/src/proxy.rs\<close>, \<open>server/src/dispatch.rs\<close>): admission, ingress
  normalisation, route, native rate limit, request chain, traffic split, body hook, circuit breaker,
  forwarding, response half, declared headers and compression, composed from the theories below in the
  order of the code.  The world is what outlives a request: the routes with their limiters and split
  cursors, the groups, the instances, the state of the filters.  The answers of the environment (clocks,
  the upstream client, what arrives in time) are the argument \<open>env\<close>; metrics, access log and spans are left
  out.  The transaction also yields the attempts that reached an upstream.
\<close>

subsection \<open>State and environment\<close>

record 'w tx_world =
  tw_routes :: "(nat, 'w) compiled_route list"
  tw_groups :: "upstream_group list"
  tw_heap :: heap
  tw_rng :: u64
  tw_filters :: 'w

record ('m, 'w, 'x) tx_env =
  te_request_permit :: bool
  te_trusted_proxy :: "(ip_addr \<Rightarrow> bool) option"
  te_parse_ip :: "string \<Rightarrow> ip_addr option"
  te_show_ip :: "ip_addr \<Rightarrow> string"
  te_parse_authority :: "string \<Rightarrow> authority_parts option"
  te_build_uri :: "string \<Rightarrow> string \<Rightarrow> bool"
  te_limiter_now :: u64
  te_wall :: u64
  te_instant :: nat
  te_on_upgrade :: bool
  te_traceparent :: string
  te_request_budget_open :: bool
  te_request_ready :: nat
  te_forward :: "('m, body, 'm \<times> body, 'x) forward_env"
  te_response :: "'w response_env"
  te_alt_svc :: "string option"

type_synonym ('m, 'x) tx_attempt = "('m, body, 'm \<times> body, 'x) attempt"

record ('m, 'x) tx_out =
  to_settled :: "('m, 'x) settled"
  to_attempts :: "('m, 'x) tx_attempt list"
  to_spliced :: bool

definition answered :: "('m, body) response \<Rightarrow> ('m, 'x) tx_out" where
  "answered resp = \<lparr>to_settled = settle (Synthesised resp) None None, to_attempts = [], to_spliced = False\<rparr>"

definition failed :: "'x server_error \<Rightarrow> ('m, 'x) tx_out" where
  "failed err = \<lparr>to_settled = \<lparr>st_routed = Inl err, st_skipped = None, st_discarded = None\<rparr>, to_attempts = [], to_spliced = False\<rparr>"

subsection \<open>Steps of the request half\<close>

definition upgrade_intent :: "'m map_ops \<Rightarrow> bool \<Rightarrow> upgrade_config option \<Rightarrow> 'm \<Rightarrow> bool \<Rightarrow> string option" where
  "upgrade_intent ops on_upgrade cfg headers bodyless =
     (if \<not> bodyless then None
      else case cfg of
             None \<Rightarrow> None
           | Some uc \<Rightarrow>
               (case upgrade_request_header (mo_to_str ops) (mo_get_all ops) headers of
                  None \<Rightarrow> None
                | Some header \<Rightarrow>
                    (case allowed_token uc header of
                       None \<Rightarrow> None
                     | Some token \<Rightarrow> if on_upgrade then Some token else None)))"

definition INSPECTION_HOSTILE_REQUEST_HEADERS :: "string list" where
  "INSPECTION_HOSTILE_REQUEST_HEADERS = [''accept-encoding'', ''range'', ''if-range'']"

definition strip_inspection_hostile_headers :: "header list \<Rightarrow> header list" where
  "strip_inspection_hostile_headers headers =
     filter (\<lambda>h. \<not> list_ex (\<lambda>n. eq_ignore_ascii_case (h_name h) n) INSPECTION_HOSTILE_REQUEST_HEADERS) headers"

datatype 'm body_hook_outcome = HookProceed "body forward_body" "header list" | HookRespond "('m, body) response"

definition request_body_hook ::
    "'m map_ops \<Rightarrow> ('m, 'w, 'x) tx_env \<Rightarrow> 'w loaded_filter list \<Rightarrow> bool \<Rightarrow> body forward_body \<Rightarrow> header list \<Rightarrow> 'w
       \<Rightarrow> 'w \<times> ('x server_error, 'm body_hook_outcome) result" where
  "request_body_hook ops env chain reads_body real_body headers w =
     (if \<not> reads_body then (w, Inr (HookProceed real_body headers))
      else case take_oneshot real_body of
             (left, None) \<Rightarrow> (w, Inr (HookProceed left headers))
           | (left, Some b) \<Rightarrow>
               if \<not> te_request_budget_open env
               then (w, Inr (HookRespond (synth ops 503 ''body-buffer-unavailable'' ''body buffer unavailable'')))
               else
                 (case buffer_request_body MAX_REQUEST_BODY_BUFFER (te_request_ready env) [] b of
                    None \<Rightarrow> (w, Inr (HookRespond (synth ops 408 ''body-timeout'' ''request body read timeout'')))
                  | Some TooLarge \<Rightarrow> (w, Inr (HookRespond (synth ops 413 ''body-too-large'' ''request body too large'')))
                  | Some ReadError \<Rightarrow> (w, Inr (HookRespond (synth ops 400 ''body-read-error'' ''request body read error'')))
                  | Some (Buffered bytes) \<Rightarrow>
                      (case re_panics (te_response env) RequestBody of
                         Some w' \<Rightarrow> (w', Inl ChainJoin)
                       | None \<Rightarrow>
                           (case dispatch_request_body chain w bytes headers of
                              (w1, QbRespond resp) \<Rightarrow> (w1, Inr (HookRespond (http_response_of ops resp)))
                            | (w1, QbForward edited edited_headers) \<Rightarrow>
                                (w1, Inr (HookProceed (Replayable edited) edited_headers))))))"

definition group_try_acquire :: "upstream_group \<Rightarrow> upstream_group option" where
  "group_try_acquire g =
     (if ug_max_requests g = 0 then Some g
      else if ug_max_requests g \<le> ug_in_flight g then None
      else Some (g\<lparr>ug_in_flight := ug_in_flight g + 1\<rparr>))"

definition drop_permit :: "upstream_group \<Rightarrow> upstream_group" where
  "drop_permit g = (if ug_max_requests g = 0 then g else g\<lparr>ug_in_flight := ug_in_flight g - 1\<rparr>)"

definition hash_key_of :: "'m map_ops \<Rightarrow> hash_key_source option \<Rightarrow> 'm \<Rightarrow> ip_addr \<Rightarrow> hash_input option" where
  "hash_key_of ops src headers client =
     (case src of
        None \<Rightarrow> None
      | Some (HeaderKey name) \<Rightarrow>
          (case mo_get_all ops headers (to_ascii_lowercase name) of [] \<Rightarrow> None | v # _ \<Rightarrow> Some (HashBytes (address_bytes v)))
      | Some SourceIpKey \<Rightarrow> Some (HashIp client))"

definition overall_deadline :: "nat \<Rightarrow> u64 \<Rightarrow> nat option" where
  "overall_deadline now overall = (if overall = 0 then None else Some (now + unat overall))"

subsection \<open>Forwarding and the response\<close>

text \<open>
  What follows an upstream's answer.  The permit and the pick end with the transaction, unless the
  connections were spliced and the tunnel holds them.
\<close>

definition after_forward ::
    "'m map_ops \<Rightarrow> ('m, 'w, 'x) tx_env \<Rightarrow> (nat, 'w) route_info \<Rightarrow> 'w loaded_filter list \<Rightarrow> string option \<Rightarrow> http_request \<Rightarrow> 'w
       \<Rightarrow> ('m \<times> body, 'x) forward_outcome \<Rightarrow> 'w \<times> ('m, 'x) settled \<times> bool" where
  "after_forward ops env route chain upgrade forward w out =
     (case out of
        FwOverallTimeout \<Rightarrow> (w, settle (Synthesised (synth ops 504 ''request-timeout'' ''request timeout'')) None None, False)
      | FwPerTryTimeout \<Rightarrow> (w, settle (Synthesised (synth ops 504 ''upstream-timeout'' ''upstream timeout'')) None None, False)
      | FwSendFailed x \<Rightarrow> (w, \<lparr>st_routed = Inl (UpstreamError x), st_skipped = None, st_discarded = None\<rparr>, False)
      | FwBuildFailed \<Rightarrow> (w, \<lparr>st_routed = Inl RequestBuild, st_skipped = None, st_discarded = None\<rparr>, False)
      | FwResponse status (headers, ubody) pk \<Rightarrow>
          let upstream_resp = \<lparr>wr_status = status, wr_headers = headers, wr_body = ubody\<rparr>
          in if status = 101
             then (case upgrade_switch ops (re_panics (te_response env)) chain (ri_has_filters route) w forward upgrade upstream_resp of
                     (w1, Inl err) \<Rightarrow> (w1, \<lparr>st_routed = Inl err, st_skipped = None, st_discarded = None\<rparr>, False)
                   | (w1, Inr (resp, spliced)) \<Rightarrow> (w1, settle (Synthesised resp) None None, spliced))
             else (case respond_through_chain ops (te_response env) chain (ri_has_filters route) (ri_body_hooks route)
                          (ri_response_body route) w forward upstream_resp of
                     (w1, st) \<Rightarrow> (w1, st, False)))"

definition forward_stage ::
    "'m map_ops \<Rightarrow> ('m, 'w, 'x) tx_env \<Rightarrow> (nat, 'w) route_info \<Rightarrow> 'w loaded_filter list \<Rightarrow> string option \<Rightarrow> 'm \<Rightarrow> ip_addr
       \<Rightarrow> nat \<Rightarrow> http_request \<Rightarrow> body forward_body \<Rightarrow> 'w tx_world \<Rightarrow> ('w tx_world \<times> ('m, 'x) tx_out) option" where
  "forward_stage ops env route chain upgrade original client gi forward real_body tw =
     (let g = tw_groups tw ! gi;
          key = hash_key_of ops (ug_hash_key g) original client;
          lim = \<lparr>fl_per_try_bound = unat (effective_request_timeout (ri_timeouts route) (ug_request_timeout g)),
                 fl_overall_deadline =
                   overall_deadline (te_instant env) (effective_overall_timeout (ri_timeouts route) (ug_overall_timeout g))\<rparr>
      in case request_body_hook ops env chain (bh_request (ri_body_hooks route)) real_body (rq_headers forward) (tw_filters tw) of
           (w1, Inl err) \<Rightarrow> Some (tw\<lparr>tw_filters := w1\<rparr>, failed err)
         | (w1, Inr (HookRespond resp)) \<Rightarrow> Some (tw\<lparr>tw_filters := w1\<rparr>, answered resp)
         | (w1, Inr (HookProceed hooked headers)) \<Rightarrow>
             (case group_try_acquire g of
                None \<Rightarrow> Some (tw\<lparr>tw_filters := w1\<rparr>, answered (synth ops 503 ''circuit-open'' ''upstream overloaded''))
              | Some g0 \<Rightarrow>
                  (case group_pick (tw_heap tw) (tw_rng tw) (te_wall env) g0 key of
                     None \<Rightarrow> None
                   | Some (g1, hp, rng, None) \<Rightarrow>
                       Some (tw\<lparr>tw_groups := (tw_groups tw)[gi := drop_permit g1], tw_heap := hp, tw_rng := rng, tw_filters := w1\<rparr>,
                             answered (synth ops 503 ''no-healthy-upstream'' ''no healthy upstream''))
                   | Some (g1, hp, rng, Some pk) \<Rightarrow>
                       let sent = forward\<lparr>rq_headers :=
                             if bh_response (ri_body_hooks route) then strip_inspection_hostile_headers headers else headers\<rparr>;
                           fwd = \<lparr>fr_method = rq_method sent,
                                  fr_headers = (if ri_has_filters route then ChainHeaders (rq_headers sent)
                                                else DirectHeaders (mo_fields ops original)),
                                  fr_original_headers = original, fr_authority = rq_authority sent,
                                  fr_upstream_path = rewrite_path (rq_path_with_query forward) (ri_strip_prefix route),
                                  fr_traceparent = te_traceparent env, fr_upgrade_token = upgrade\<rparr>
                       in (case forward_with_retry ops (te_forward env) lim fwd key (unat (ug_max_retries g)) hooked pk
                                  \<lparr>lw_heap = hp, lw_group = g1, lw_rng = rng\<rparr> of
                             None \<Rightarrow> None
                           | Some (out, lw, attempts) \<Rightarrow>
                               (case after_forward ops env route chain upgrade sent w1 out of
                                  (w2, st, spliced) \<Rightarrow>
                                    Some (tw\<lparr>tw_groups := (tw_groups tw)[gi := if spliced then lw_group lw else drop_permit (lw_group lw)],
                                             tw_heap := (case out of
                                                FwResponse _ _ used \<Rightarrow> if spliced then lw_heap lw else drop_pick (lw_heap lw) used
                                              | _ \<Rightarrow> lw_heap lw),
                                             tw_rng := lw_rng lw, tw_filters := w2\<rparr>,
                                          \<lparr>to_settled = st, to_attempts = attempts, to_spliced = spliced\<rparr>))))))"

text \<open>The block of the code in which the route is chosen: everything that is that route's answer.\<close>

definition routed_stage ::
    "'m map_ops \<Rightarrow> ('m, 'w, 'x) tx_env \<Rightarrow> (nat, 'w) route_info \<Rightarrow> 'm \<Rightarrow> ip_addr \<Rightarrow> http_request \<Rightarrow> bool \<Rightarrow> body
       \<Rightarrow> 'w tx_world \<Rightarrow> ('w tx_world \<times> ('m, 'x) tx_out) option" where
  "routed_stage ops env route original client http_req bodyless body tw =
     (let i = ri_index route; chain = cr_resolved_chain (tw_routes tw ! i)
      in case check_rate_limit route client (te_limiter_now env) of
           (route1, decision) \<Rightarrow>
             let tw1 = tw\<lparr>tw_routes := (tw_routes tw)[i := (tw_routes tw ! i)\<lparr>cr_rate_limit := ri_rate_limit route1\<rparr>]\<rparr>
             in (case decision of
                   Limit retry_ms \<Rightarrow>
                     Some (tw1, answered (with_error_code ops
                       (synth_retry_after ops 429 ''rate-limited'' ''rate limit exceeded'' (div_ceil retry_ms 1000))
                       QUOTA_EXCEEDED))
                 | Allow \<Rightarrow>
                     (let upgrade = upgrade_intent ops (te_on_upgrade env) (ri_upgrade route) original bodyless
                      in case (if ri_has_filters route
                               then run_request_chain (re_panics (te_response env)) chain (tw_filters tw) http_req
                               else (tw_filters tw, Inr (ChForward http_req))) of
                           (w1, Inl err) \<Rightarrow> Some (tw1\<lparr>tw_filters := w1\<rparr>, failed err)
                         | (w1, Inr (ChRespond resp)) \<Rightarrow> Some (tw1\<lparr>tw_filters := w1\<rparr>, answered (http_response_of ops resp))
                         | (w1, Inr (ChForward forward)) \<Rightarrow>
                             (case weighted_pick (\<lambda>gi. has_eligible (tw_heap tw) (te_wall env) (tw_groups tw ! gi)) (ri_backends route) of
                                (backends, picked) \<Rightarrow>
                                  let tw2 = tw1\<lparr>tw_routes := (tw_routes tw1)[i := (tw_routes tw1 ! i)\<lparr>cr_backends := backends\<rparr>],
                                                tw_filters := w1\<rparr>
                                  in (case picked of
                                        None \<Rightarrow> Some (tw2, answered (synth ops 503 ''no-healthy-upstream'' ''no healthy upstream''))
                                      | Some gi \<Rightarrow>
                                          forward_stage ops env route chain upgrade original client gi forward
                                            (if bodyless then Bodyless else OneShot (Some body)) tw2)))))"

subsection \<open>The transaction\<close>

text \<open>The single exit of a routed response.\<close>

definition finish_routed ::
    "'m map_ops \<Rightarrow> 'e codec \<Rightarrow> (nat, 'w) route_info \<Rightarrow> string \<Rightarrow> 'm \<Rightarrow> ('x server_error, 'm routed) result
       \<Rightarrow> ('m, 'e response_body) response" where
  "finish_routed ops ck route meth original result =
     (case (case result of
              Inr r \<Rightarrow> r
            | Inl err \<Rightarrow> Synthesised (synth ops 502 ''upstream'' ''upstream error'')) of
        Synthesised resp \<Rightarrow>
          (let resp' = with_declared_headers ops resp (ri_response_headers route)
           in with_body resp' (wr_headers resp') (PlainBody (wr_body resp')))
      | Forwarded resp budget \<Rightarrow>
          compression_apply ops ck (with_declared_headers ops resp (ri_response_headers route)) (ri_compression route) meth original)"

definition plain :: "('m, body) response \<Rightarrow> ('m, 'e response_body) response" where
  "plain resp = with_body resp (wr_headers resp) (PlainBody (wr_body resp))"

definition head_fields :: "'m map_ops \<Rightarrow> 'm request_head \<Rightarrow> (string \<times> string) list request_head" where
  "head_fields ops parts =
     \<lparr>qh_version = qh_version parts, qh_method = qh_method parts, qh_uri_scheme = qh_uri_scheme parts,
      qh_uri_authority = qh_uri_authority parts, qh_path_and_query = qh_path_and_query parts,
      qh_headers = mo_fields ops (qh_headers parts)\<rparr>"

definition proxy_core_inner ::
    "'m map_ops \<Rightarrow> 'e codec \<Rightarrow> ('m, 'w, 'x) tx_env \<Rightarrow> string \<Rightarrow> ip_addr \<Rightarrow> 'm request_head \<Rightarrow> bool \<Rightarrow> body
       \<Rightarrow> 'w tx_world \<Rightarrow> ('w tx_world \<times> ('m, 'x) tx_out option \<times> ('m, 'e response_body) response) option" where
  "proxy_core_inner ops ck env scheme client parts bodyless body tw =
     (let http_req = to_http_request (mo_to_str ops) (head_fields ops parts) scheme
      in case normalize_path (rq_path_with_query http_req) of
           None \<Rightarrow>
             Some (tw, None, plain (with_error_code ops (synth ops 400 ''bad-path'' ''bad request path'') PATH_NORMALIZATION_REJECTED))
         | Some path \<Rightarrow>
             (let normal = http_req\<lparr>rq_path_with_query := path\<rparr>
              in case find_route (tw_routes tw) normal of
                   None \<Rightarrow> Some (tw, None, plain (synth ops 404 ''no-route'' ''no route''))
                 | Some route \<Rightarrow>
                     map_option (\<lambda>(tw', out).
                         (tw', Some out, finish_routed ops ck route (qh_method parts) (qh_headers parts) (st_routed (to_settled out))))
                       (routed_stage ops env route (qh_headers parts) client normal bodyless body tw)))"

definition proxy_core ::
    "'m map_ops \<Rightarrow> 'e codec \<Rightarrow> ('m, 'w, 'x) tx_env \<Rightarrow> string \<Rightarrow> ip_addr \<Rightarrow> 'm request_head \<Rightarrow> bool \<Rightarrow> body
       \<Rightarrow> 'w tx_world \<Rightarrow> ('w tx_world \<times> ('m, 'x) tx_out option \<times> ('m, 'e response_body) response) option" where
  "proxy_core ops ck env scheme peer parts bodyless body tw =
     (if \<not> te_request_permit env then Some (tw, None, plain (synth ops 503 ''request-overloaded'' ''server overloaded''))
      else
        case set_forwarded (mo_to_str ops) (te_parse_ip env) (mo_get_all ops) (mo_remove ops) (mo_insert ops) (te_show_ip env)
               (mo_value_ok ops) (qh_headers parts) peer scheme (te_trusted_proxy env) of
          (headers, client) \<Rightarrow>
            (case normalize_ingress_authority (mo_to_str ops) (te_parse_authority env) (mo_value_ok ops) (te_build_uri env)
                    (mo_get_all ops) (mo_remove ops) (mo_insert ops) (parts\<lparr>qh_headers := headers\<rparr>) scheme of
               Reject \<Rightarrow> Some (tw, None, plain (synth ops 400 ''bad-authority'' ''bad request authority''))
             | Accept parts1 \<Rightarrow> proxy_core_inner ops ck env scheme client parts1 bodyless body tw))"

definition attach_alt_svc :: "'m map_ops \<Rightarrow> ('m, 'b) response \<Rightarrow> string option \<Rightarrow> ('m, 'b) response" where
  "attach_alt_svc ops resp alt_svc =
     (case alt_svc of None \<Rightarrow> resp | Some av \<Rightarrow> resp\<lparr>wr_headers := mo_insert ops (wr_headers resp) ''alt-svc'' av\<rparr>)"

definition handle ::
    "'m map_ops \<Rightarrow> 'e codec \<Rightarrow> ('m, 'w, 'x) tx_env \<Rightarrow> string \<Rightarrow> ip_addr \<Rightarrow> 'm request_head \<Rightarrow> bool \<Rightarrow> body
       \<Rightarrow> 'w tx_world \<Rightarrow> ('w tx_world \<times> ('m, 'x) tx_out option \<times> ('m, 'e response_body) response) option" where
  "handle ops ck env scheme peer parts bodyless body tw =
     map_option (\<lambda>(tw', out, resp). (tw', out, attach_alt_svc ops resp (te_alt_svc env)))
       (proxy_core ops ck env scheme peer parts bodyless body tw)"

subsection \<open>What forwarding leaves of a group\<close>

definition same_but_cursor :: "upstream_group \<Rightarrow> upstream_group \<Rightarrow> bool" where
  "same_but_cursor g g' \<longleftrightarrow> g'\<lparr>ug_rr := ug_rr g\<rparr> = g"

lemma cursor_refl [simp]: "same_but_cursor g g"
  by (simp add: same_but_cursor_def)

lemma cursor_trans: "same_but_cursor g g' \<Longrightarrow> same_but_cursor g' g'' \<Longrightarrow> same_but_cursor g g''"
  unfolding same_but_cursor_def by (cases g; cases g'; cases g'') simp

lemma cursor_fields:
  "same_but_cursor g g' \<Longrightarrow>
     ug_max_requests g' = ug_max_requests g \<and> ug_in_flight g' = ug_in_flight g \<and> ug_endpoints g' = ug_endpoints g"
  unfolding same_but_cursor_def by (cases g; cases g') simp

lemma round_robin_cursor: "round_robin_pick hp now g ids ex = (g', p) \<Longrightarrow> same_but_cursor g g'"
  by (auto simp: round_robin_pick_def Let_def same_but_cursor_def split: if_splits)

lemma pick_cursor:
  assumes "pick_dispatch hp rng now g ex key = Some (g', hp', rng', p)"
  shows "same_but_cursor g g'"
proof (cases "ep_lb (ug_endpoints g)")
  case LbRoundRobin
  with assms show ?thesis by (auto simp: pick_dispatch_def Let_def split: prod.splits dest: round_robin_cursor)
next
  case LbLeastRequest
  with assms show ?thesis
    by (auto simp: pick_dispatch_def least_request_pick_def metered_pick_def Let_def split: prod.splits if_splits option.splits
        dest: round_robin_cursor)
next
  case (LbMaglev t)
  with assms show ?thesis by (auto simp: pick_dispatch_def maglev_pick_def Let_def split: prod.splits option.splits dest: round_robin_cursor)
qed

text \<open>Every attempt is one of the request that is forwarded.\<close>

definition attempt_of :: "'m map_ops \<Rightarrow> 'm forward_request \<Rightarrow> ('m, 'b, 'r, 'x) attempt \<Rightarrow> bool" where
  "attempt_of ops fwd a \<longleftrightarrow> (\<exists>w pk body. at_request a = build_attempt ops fwd w pk body)"

lemma attempt_of_made [simp]:
  "attempt_of ops fwd \<lparr>at_instance = i, at_start = st, at_per_try = pt, at_request = build_attempt ops fwd w pk body, at_result = res\<rparr>"
  by (auto simp: attempt_of_def)

lemma forward_loop_frame:
  "forward_loop ops env lim fwd key n tries body pk w = Some (out, w', as)
     \<Longrightarrow> same_but_cursor (lw_group w) (lw_group w') \<and> length (lw_heap w') = length (lw_heap w) \<and> list_all (attempt_of ops fwd) as"
proof (induction ops env lim fwd key n tries body pk w arbitrary: out w' as rule: forward_loop.induct)
  case (1 ops env lim fwd key n tries body pk w)
  show ?case
  proof (cases "per_try_timeout (fl_overall_deadline lim) (fl_per_try_bound lim) (fe_before env n)")
    case OverallDeadlineElapsed
    then show ?thesis using 1(2) by (subst (asm) forward_loop.simps) auto
  next
    case (Bounded pt)
    define req where "req = build_attempt ops fwd w pk body"
    define res where "res = fe_client env n req pt"
    define elapsed where "elapsed = (case fl_overall_deadline lim of Some d \<Rightarrow> d \<le> fe_after env n | None \<Rightarrow> False)"
    obtain w1 att where st: "settle_attempt w pk (fe_wall env n) res = (w1, att)" by fastforce
    then have same: "lw_group w1 = lw_group w" "length (lw_heap w1) = length (lw_heap w)" by (simp_all add: settle_frame)
    note eq = 1(2) [unfolded forward_loop.simps [of ops env lim fwd key n tries body pk w] Bounded per_try.case Let_def,
        folded req_def, folded res_def elapsed_def, unfolded st prod.case]
    show ?thesis
    proof (cases "pick_excluding (lw_heap w1) (lw_rng w1) (fe_pick_wall env n) (lw_group w1) (pk_instance pk) key")
      case None
      then show ?thesis using eq same by (auto split: if_splits send_result.splits simp: req_def)
    next
      case (Some r)
      obtain g hp rng p where r: "r = (g, hp, rng, p)" by (cases r) auto
      have g: "same_but_cursor (lw_group w) g" "length hp = length (lw_heap w)"
        using pick_cursor pick_frame Some r same by (simp_all add: pick_excluding_def)
      note IH = 1(1) [OF Bounded req_def refl _ res_def refl elapsed_def _ st [symmetric] refl refl _ Some [unfolded r] refl refl refl]
      show ?thesis
      proof (cases p)
        case None
        then show ?thesis using eq Some r g same by (auto split: if_splits send_result.splits simp: req_def)
      next
        case next_pick: (Some nxt)
        then show ?thesis
          using eq Some r g same IH [OF _ _ _ next_pick] by (auto split: if_splits send_result.splits intro: cursor_trans simp: req_def)
      qed
    qed
  qed
qed

lemma acquired_in_flight:
  "group_try_acquire g = Some g0 \<Longrightarrow> same_but_cursor g0 g1 \<Longrightarrow> ug_in_flight (drop_permit g1) = ug_in_flight g"
  by (auto simp: group_try_acquire_def drop_permit_def dest!: cursor_fields split: if_splits)

lemma acquired_endpoints:
  "group_try_acquire g = Some g0 \<Longrightarrow> same_but_cursor g0 g1 \<Longrightarrow> ug_endpoints (drop_permit g1) = ug_endpoints g \<and> ug_endpoints g1 = ug_endpoints g"
  by (auto simp: group_try_acquire_def drop_permit_def dest!: cursor_fields split: if_splits)

text \<open>What a transaction leaves of the world: the routes' tables, the groups' instances, the heap's size.\<close>

definition same_shape :: "'w tx_world \<Rightarrow> 'w tx_world \<Rightarrow> bool" where
  "same_shape tw tw' \<longleftrightarrow>
     map ug_endpoints (tw_groups tw') = map ug_endpoints (tw_groups tw) \<and> length (tw_heap tw') = length (tw_heap tw)
     \<and> map (\<lambda>r. (wb_table (cr_backends r), wb_groups (cr_backends r))) (tw_routes tw')
         = map (\<lambda>r. (wb_table (cr_backends r), wb_groups (cr_backends r))) (tw_routes tw)"

lemma map_update_same: "f g' = f (gs ! i) \<Longrightarrow> map f (gs[i := g']) = map f gs"
  by (cases "i < length gs") (simp_all add: map_update list_update_same_conv list_update_beyond)

lemma forward_stage_elim:
  assumes "forward_stage ops env route chain upgrade original client gi forward real_body tw = Some (tw', out)"
  obtains
    (refused) "to_attempts out = []" "\<not> to_spliced out"
      "map ug_in_flight (tw_groups tw') = map ug_in_flight (tw_groups tw)" "same_shape tw tw'"
  | (forwarded) g0 g1 fwd st w2 outcome sent where
      "group_try_acquire (tw_groups tw ! gi) = Some g0" "same_but_cursor g0 g1"
      "list_all (attempt_of ops fwd) (to_attempts out)"
      "fr_method fwd = rq_method forward"
      "fr_upstream_path fwd = rewrite_path (rq_path_with_query forward) (ri_strip_prefix route)"
      "tw_groups tw' = (tw_groups tw)[gi := if to_spliced out then g1 else drop_permit g1]"
      "after_forward ops env route chain upgrade sent st outcome = (w2, to_settled out, to_spliced out)"
      "same_shape tw tw'"
proof -
  obtain w1 hook where hook: "request_body_hook ops env chain (bh_request (ri_body_hooks route)) real_body (rq_headers forward)
      (tw_filters tw) = (w1, hook)" by fastforce
  show ?thesis
  proof (cases "\<exists>hooked headers. hook = Inr (HookProceed hooked headers)")
    case False
    then show ?thesis using assms hook
      by (intro refused) (auto simp: forward_stage_def Let_def failed_def answered_def same_shape_def split: sum.splits body_hook_outcome.splits)
  next
    case True
    then obtain hooked headers where proceed: "hook = Inr (HookProceed hooked headers)" by blast
    show ?thesis
    proof (cases "group_try_acquire (tw_groups tw ! gi)")
      case None
      then show ?thesis using assms hook proceed
        by (intro refused) (auto simp: forward_stage_def Let_def answered_def same_shape_def)
    next
      case (Some g0)
      let ?key = "hash_key_of ops (ug_hash_key (tw_groups tw ! gi)) original client"
      obtain g1 hp rng p where pick: "group_pick (tw_heap tw) (tw_rng tw) (te_wall env) g0 ?key = Some (g1, hp, rng, p)"
        using assms hook proceed Some
        by (cases "group_pick (tw_heap tw) (tw_rng tw) (te_wall env) g0 ?key") (auto simp: forward_stage_def Let_def)
      then have cur: "same_but_cursor g0 g1" "length hp = length (tw_heap tw)"
        using pick_frame by (auto simp: group_pick_def pick_cursor)
      show ?thesis
      proof (cases p)
        case None
        then show ?thesis using assms hook proceed Some pick cur(2) acquired_in_flight [OF Some cur(1)] acquired_endpoints [OF Some cur(1)]
          by (intro refused) (auto simp: forward_stage_def Let_def answered_def map_update_same same_shape_def)
      next
        case picked: (Some pk)
        define sent where "sent = forward\<lparr>rq_headers :=
            if bh_response (ri_body_hooks route) then strip_inspection_hostile_headers headers else headers\<rparr>"
        define fwd where "fwd = \<lparr>fr_method = rq_method sent,
            fr_headers = (if ri_has_filters route then ChainHeaders (rq_headers sent) else DirectHeaders (mo_fields ops original)),
            fr_original_headers = original, fr_authority = rq_authority sent,
            fr_upstream_path = rewrite_path (rq_path_with_query forward) (ri_strip_prefix route),
            fr_traceparent = te_traceparent env, fr_upgrade_token = upgrade\<rparr>"
        define g where "g = tw_groups tw ! gi"
        define loop where "loop = forward_with_retry ops (te_forward env)
            \<lparr>fl_per_try_bound = unat (effective_request_timeout (ri_timeouts route) (ug_request_timeout g)),
             fl_overall_deadline = overall_deadline (te_instant env) (effective_overall_timeout (ri_timeouts route) (ug_overall_timeout g))\<rparr>
            fwd ?key (unat (ug_max_retries g)) hooked pk \<lparr>lw_heap = hp, lw_group = g1, lw_rng = rng\<rparr>"
        note stage = assms [unfolded forward_stage_def Let_def hook proceed prod.case sum.case body_hook_outcome.case Some option.case
            pick picked, folded sent_def, folded fwd_def g_def, folded loop_def [unfolded g_def]]
        show ?thesis
        proof (cases loop)
          case None
          then show ?thesis using stage by (simp add: loop_def g_def)
        next
          case (Some r)
          obtain outcome lw attempts where r: "r = (outcome, lw, attempts)" by (cases r)
          obtain w2 st spliced where af: "after_forward ops env route chain upgrade sent w1 outcome = (w2, st, spliced)"
            by (cases "after_forward ops env route chain upgrade sent w1 outcome")
          have frame: "same_but_cursor g1 (lw_group lw)" "length (lw_heap lw) = length hp" "list_all (attempt_of ops fwd) attempts"
            using forward_loop_frame [OF Some [unfolded r loop_def forward_with_retry_def]] by simp_all
          have out: "out = \<lparr>to_settled = st, to_attempts = attempts, to_spliced = spliced\<rparr>"
            and groups: "tw_groups tw' = (tw_groups tw)[gi := if spliced then lw_group lw else drop_permit (lw_group lw)]"
            and heap: "length (tw_heap tw') = length (lw_heap lw)" and routes: "tw_routes tw' = tw_routes tw"
            using stage Some r af by (auto simp: loop_def g_def split: forward_outcome.splits)
          have end0: "same_but_cursor g0 (lw_group lw)" using cur(1) frame(1) by (rule cursor_trans)
          show ?thesis
          proof (rule forwarded)
            show "group_try_acquire (tw_groups tw ! gi) = Some g0" by fact
            show "same_but_cursor g0 (lw_group lw)" by fact
            show "list_all (attempt_of ops fwd) (to_attempts out)" using frame(3) out by simp
            show "fr_method fwd = rq_method forward" by (simp add: fwd_def sent_def)
            show "fr_upstream_path fwd = rewrite_path (rq_path_with_query forward) (ri_strip_prefix route)" by (simp add: fwd_def)
            show "tw_groups tw' = (tw_groups tw)[gi := if to_spliced out then lw_group lw else drop_permit (lw_group lw)]"
              using groups out by simp
            show "after_forward ops env route chain upgrade sent w1 outcome = (w2, to_settled out, to_spliced out)"
              using af out by simp
            show "same_shape tw tw'"
              using acquired_endpoints [OF \<open>group_try_acquire _ = Some g0\<close> end0] groups heap routes frame(2) cur(2)
              by (simp add: same_shape_def map_update_same)
          qed
        qed
      qed
    qed
  qed
qed

lemma scan_table_eligible: "scan_table el wb start offs = Some g \<Longrightarrow> el g"
  by (induction offs) (auto simp: Let_def split: if_splits)

lemma weighted_pick_Some: "weighted_pick el wb = (wb', Some g) \<Longrightarrow> el g"
  by (auto simp: weighted_pick_def Let_def split: if_splits dest: scan_table_eligible)

lemma find_route_Some:
  assumes "find_route routes req = Some route"
  shows "ri_index route < length routes \<and> ri_backends route = cr_backends (routes ! ri_index route)
    \<and> ri_response_headers route = cr_response_headers (routes ! ri_index route)"
proof -
  obtain i where sel: "select_route routes \<lparr>pt_authority = rq_authority req, pt_path = rq_path_with_query req,
      pt_method = rq_method req, pt_headers = rq_headers req\<rparr> = Some i" and "ri_index route = i"
    "ri_backends route = cr_backends (routes ! i)" "ri_response_headers route = cr_response_headers (routes ! i)"
    using assms by (auto simp: find_route_def Let_def split: option.splits)
  moreover from sel have "i < length routes"
    by (auto simp: select_route_def dest!: max_by_key_Some simp: indexed_filter simp del: set_filter)
  ultimately show ?thesis by simp
qed

text \<open>What the request chain of a route lets through; a route without filters lets everything through.\<close>

definition let_pass :: "(nat, 'w) route_info \<Rightarrow> 'w loaded_filter list \<Rightarrow> 'w \<Rightarrow> http_request \<Rightarrow> 'w \<Rightarrow> http_request \<Rightarrow> bool" where
  "let_pass route chain w req w' forward \<longleftrightarrow>
     (if ri_has_filters route then dispatch_request chain w req = (w', ChForward forward) else w' = w \<and> forward = req)"

lemma routed_stage_elim:
  fixes env :: "('m, 'w, 'x) tx_env"
  assumes "routed_stage ops env route original client http_req bodyless body tw = Some (tw', out)"
    and "ri_backends route = cr_backends (tw_routes tw ! ri_index route)"
  obtains
    (stopped) "to_attempts out = []" "\<not> to_spliced out" "tw_groups tw' = tw_groups tw" "same_shape tw tw'"
  | (staged) w1 forward gi tw2 upgrade real_body where
      "snd (check_rate_limit route client (te_limiter_now env)) = Allow"
      "let_pass route (cr_resolved_chain (tw_routes tw ! ri_index route)) (tw_filters tw) http_req w1 forward"
      "has_eligible (tw_heap tw) (te_wall env) (tw_groups tw ! gi)"
      "tw_groups tw2 = tw_groups tw"
      "upgrade = upgrade_intent ops (te_on_upgrade env) (ri_upgrade route) original bodyless"
      "forward_stage ops env route (cr_resolved_chain (tw_routes tw ! ri_index route)) upgrade original client gi forward
         real_body tw2 = Some (tw', out)"
      "same_shape tw tw2"
proof -
  let ?chain = "cr_resolved_chain (tw_routes tw ! ri_index route)"
  obtain route1 decision where limit: "check_rate_limit route client (te_limiter_now env) = (route1, decision)" by fastforce
  show ?thesis
  proof (cases decision)
    case (Limit ms)
    then show ?thesis using assms limit by (intro stopped) (auto simp: routed_stage_def Let_def answered_def same_shape_def map_update_same)
  next
    case Allow
    define run :: "'w \<times> ('x server_error, chain_outcome) result" where
      "run = (if ri_has_filters route then run_request_chain (re_panics (te_response env)) ?chain (tw_filters tw) http_req
              else (tw_filters tw, Inr (ChForward http_req)))"
    note stage = assms(1) [unfolded routed_stage_def Let_def limit prod.case Allow rate_limit_decision.case, folded run_def]
    obtain w1 res where run: "run = (w1, res)" by fastforce
    show ?thesis
    proof (cases "\<exists>forward. res = Inr (ChForward forward)")
      case False
      then show ?thesis using stage run
        by (intro stopped) (auto simp: answered_def failed_def same_shape_def map_update_same split: sum.splits chain_outcome.splits)
    next
      case True
      then obtain forward where res: "res = Inr (ChForward forward)" by blast
      have pass: "let_pass route ?chain (tw_filters tw) http_req w1 forward"
        using run res by (auto simp: run_def let_pass_def dest: run_request_chain_Inr split: if_splits)
      obtain backends picked where pick: "weighted_pick (\<lambda>gi. has_eligible (tw_heap tw) (te_wall env) (tw_groups tw ! gi))
          (ri_backends route) = (backends, picked)" by fastforce
      have split: "wb_table backends = wb_table (ri_backends route)" "wb_groups backends = wb_groups (ri_backends route)"
        using pick by (auto simp: weighted_pick_def Let_def split: if_splits)
      let ?tab = "\<lambda>r :: (nat, 'w) compiled_route. (wb_table (cr_backends r), wb_groups (cr_backends r))"
      let ?rl = "(tw_routes tw)[ri_index route := (tw_routes tw ! ri_index route)\<lparr>cr_rate_limit := ri_rate_limit route1\<rparr>]"
      have nth: "cr_backends (?rl ! ri_index route) = cr_backends (tw_routes tw ! ri_index route)"
        by (cases "ri_index route < length (tw_routes tw)") (simp_all add: list_update_beyond)
      have tables: "map ?tab (?rl[ri_index route := (?rl ! ri_index route)\<lparr>cr_backends := backends\<rparr>]) = map ?tab (tw_routes tw)"
        using assms(2) split nth by (simp add: map_update_same)
      show ?thesis
      proof (cases picked)
        case None
        then show ?thesis using stage run res pick tables by (intro stopped) (auto simp: answered_def same_shape_def)
      next
        case (Some gi)
        show ?thesis
          by (rule staged [OF _ pass _ _ refl stage [unfolded run res prod.case sum.case chain_outcome.case pick Some option.case]])
            (use limit Allow pick Some tables in \<open>auto simp: same_shape_def dest: weighted_pick_Some\<close>)
      qed
    qed
  qed
qed

subsection \<open>Only what was admitted reaches an upstream\<close>


subsection \<open>Every transaction ends and leaves the world in order\<close>

definition tx_ok :: "'w tx_world \<Rightarrow> bool" where
  "tx_ok tw \<longleftrightarrow>
     list_all (\<lambda>r. wb_inv (cr_backends r) \<and> list_all (\<lambda>gi. gi < length (tw_groups tw)) (wb_groups (cr_backends r))) (tw_routes tw)
     \<and> list_all (group_ok (tw_heap tw)) (tw_groups tw)"

lemma map_eq_member: "map f xs = map f ys \<Longrightarrow> x \<in> set xs \<Longrightarrow> \<exists>y \<in> set ys. f y = f x"
  by (metis (no_types, lifting) imageE imageI list.set_map)

lemma tx_ok_shape:
  assumes "same_shape tw tw'" and "tx_ok tw"
  shows "tx_ok tw'"
proof -
  note shape = assms(1) [unfolded same_shape_def]
  have len: "length (tw_groups tw') = length (tw_groups tw)"
    using shape by (metis length_map)
  have "wb_inv (cr_backends r') \<and> list_all (\<lambda>gi. gi < length (tw_groups tw')) (wb_groups (cr_backends r'))"
    if member: "r' \<in> set (tw_routes tw')" for r'
  proof -
    obtain r where "r \<in> set (tw_routes tw)" "wb_table (cr_backends r) = wb_table (cr_backends r')"
        "wb_groups (cr_backends r) = wb_groups (cr_backends r')"
      using map_eq_member [OF conjunct2 [OF conjunct2 [OF shape]] member] by auto
    then show ?thesis using assms(2) len by (auto simp: tx_ok_def list_all_iff wb_inv_def)
  qed
  moreover have "group_ok (tw_heap tw') g'" if member: "g' \<in> set (tw_groups tw')" for g'
  proof -
    obtain g where "g \<in> set (tw_groups tw)" "ug_endpoints g = ug_endpoints g'"
      using map_eq_member [OF conjunct1 [OF shape] member] by auto
    then show ?thesis using assms(2) shape by (auto simp: tx_ok_def list_all_iff group_ok_def)
  qed
  ultimately show ?thesis by (simp add: tx_ok_def list_all_iff)
qed

lemma forward_stage_total:
  fixes env :: "('m, 'w, 'x) tx_env"
  assumes "group_ok (tw_heap tw) (tw_groups tw ! gi)"
  shows "\<exists>x. forward_stage ops env route chain upgrade original client gi forward real_body tw = Some x"
proof -
  have g0: "group_ok (tw_heap tw) g0" if "group_try_acquire (tw_groups tw ! gi) = Some g0" for g0
    using assms that by (auto simp: group_try_acquire_def group_ok_def split: if_splits)
  have pick: "\<exists>g1 hp rng p. group_pick (tw_heap tw) r now g0 key = Some (g1, hp, rng, p) \<and> group_ok hp g1"
    if "group_try_acquire (tw_groups tw ! gi) = Some g0" for g0 r now key
    using promise_dispatch [OF g0 [OF that], of now None r key] group_ok_frame [OF g0 [OF that]] pick_frame
    unfolding pick_promise_def group_pick_def by metis
  have loop: "forward_with_retry ops (te_forward env) lim fwd key n body pk \<lparr>lw_heap = hp, lw_group = g1, lw_rng = rng\<rparr> \<noteq> None"
    if "group_ok hp g1" for lim fwd key n body pk hp g1 rng
    using forward_loop_attempts [where w = "\<lparr>lw_heap = hp, lw_group = g1, lw_rng = rng\<rparr>" and env = "te_forward env" and ops = ops and lim = lim
        and fwd = fwd and key = key and n = 0 and tries = n and body = body and pk = pk] that
    unfolding forward_with_retry_def by fastforce
  show ?thesis
  proof (cases "group_try_acquire (tw_groups tw ! gi)")
    case None
    then show ?thesis by (auto simp: forward_stage_def Let_def split: prod.split sum.split body_hook_outcome.split)
  next
    case (Some g0)
    obtain g1 hp rng p where "group_pick (tw_heap tw) (tw_rng tw) (te_wall env) g0
        (hash_key_of ops (ug_hash_key (tw_groups tw ! gi)) original client) = Some (g1, hp, rng, p)" and ok: "group_ok hp g1"
      using pick [OF Some] by blast
    note picked = this(1)
    have never: "forward_with_retry ops (te_forward env) lim fwd key n body pk \<lparr>lw_heap = hp, lw_group = g1, lw_rng = rng\<rparr> = None
        \<longleftrightarrow> False" for lim fwd key n body pk
      using loop [OF ok] by blast
    show ?thesis using Some picked
      by (simp add: never forward_stage_def Let_def split: prod.split sum.split body_hook_outcome.split option.split)
  qed
qed

lemma weighted_pick_member:
  assumes "wb_inv wb" and "weighted_pick el wb = (wb', Some g)"
  shows "g \<in> set (wb_groups wb)"
proof -
  obtain h where "h \<in> set (wb_groups wb)" "el h"
    using assms(2) by (auto simp: weighted_pick_def list_ex_iff split: if_splits)
  from weighted_pick_eligible [where eligible = el, OF assms(1) this] assms(2) show ?thesis by auto
qed

lemma routed_stage_total:
  fixes env :: "('m, 'w, 'x) tx_env"
  assumes "tx_ok tw" and "find_route (tw_routes tw) req = Some route"
  shows "\<exists>x. routed_stage ops env route original client http_req bodyless body tw = Some x"
proof -
  have stage: "\<exists>x. forward_stage ops env route chain upgrade original client gi forward real_body tw2 = Some x"
    if "weighted_pick el (ri_backends route) = (wb, Some gi)" "tw_heap tw2 = tw_heap tw" "tw_groups tw2 = tw_groups tw"
    for el wb gi chain upgrade forward real_body and tw2 :: "'w tx_world"
  proof -
    have "wb_inv (ri_backends route) \<and> list_all (\<lambda>gi. gi < length (tw_groups tw)) (wb_groups (ri_backends route))"
      using assms(1) find_route_Some [OF assms(2)] by (simp add: tx_ok_def list_all_length)
    then have "gi < length (tw_groups tw)" using weighted_pick_member that(1) by (fastforce simp: list_all_iff)
    then show ?thesis using assms(1) that by (intro forward_stage_total) (simp add: tx_ok_def list_all_length)
  qed
  show ?thesis
    using stage
    by (auto simp: routed_stage_def Let_def split: prod.split rate_limit_decision.split sum.split chain_outcome.split option.split)
qed

lemma same_shape_refl [simp]: "same_shape tw tw"
  by (simp add: same_shape_def)

lemma same_shape_trans: "same_shape tw tw1 \<Longrightarrow> same_shape tw1 tw2 \<Longrightarrow> same_shape tw tw2"
  by (simp add: same_shape_def)

lemma routed_stage_keeps:
  assumes "routed_stage ops env route original client http_req bodyless body tw = Some (tw', out)"
    and "ri_backends route = cr_backends (tw_routes tw ! ri_index route)"
  shows "same_shape tw tw' \<and> (to_spliced out \<or> map ug_in_flight (tw_groups tw') = map ug_in_flight (tw_groups tw))"
  using assms
proof (cases rule: routed_stage_elim)
  case (staged w1 forward gi tw2 upgrade real_body)
  from staged(6) show ?thesis
  proof (cases rule: forward_stage_elim)
    case refused
    then show ?thesis using staged(4,7) by (auto intro: same_shape_trans)
  next
    case (forwarded g0 g1 fwd st w2 outcome sent)
    have "to_spliced out \<or> map ug_in_flight (tw_groups tw') = map ug_in_flight (tw_groups tw)"
      using acquired_in_flight [OF forwarded(1,2)] forwarded(6) staged(4) by (auto simp: map_update_same)
    then show ?thesis using forwarded(8) staged(7) by (auto intro: same_shape_trans)
  qed
qed simp

text \<open>
  C2: Every request is answered and leaves the world in order.  From a world whose routes point to known
  groups and whose groups point to known instances, the handler returns a response whatever the filters,
  the upstreams, the clocks and the client do; the world it leaves is again such a world, and the slot
  under the circuit breaker is given back on every path but the one that hands it to a tunnel.
\<close>

theorem every_request_answered:
  fixes env :: "('m, 'w, 'x) tx_env"
  assumes "tx_ok tw"
  shows "\<exists>tw' out resp. handle ops ck env scheme peer parts bodyless body tw = Some (tw', out, resp) \<and> tx_ok tw'
    \<and> ((case out of Some t \<Rightarrow> to_spliced t | None \<Rightarrow> False)
       \<or> map ug_in_flight (tw_groups tw') = map ug_in_flight (tw_groups tw))"
proof -
  have inner: "\<exists>tw' out resp. proxy_core_inner ops ck env scheme client parts1 bodyless body tw = Some (tw', out, resp) \<and> tx_ok tw'
      \<and> ((case out of Some t \<Rightarrow> to_spliced t | None \<Rightarrow> False)
         \<or> map ug_in_flight (tw_groups tw') = map ug_in_flight (tw_groups tw))" for client parts1
  proof -
    let ?req = "to_http_request (mo_to_str ops) (head_fields ops parts1) scheme"
    consider "normalize_path (rq_path_with_query ?req) = None"
      | path where "normalize_path (rq_path_with_query ?req) = Some path"
          "find_route (tw_routes tw) (?req\<lparr>rq_path_with_query := path\<rparr>) = None"
      | path route where "normalize_path (rq_path_with_query ?req) = Some path"
          "find_route (tw_routes tw) (?req\<lparr>rq_path_with_query := path\<rparr>) = Some route"
      by (metis not_None_eq)
    then show ?thesis
    proof cases
      case (3 path route)
      obtain tw' out where stage: "routed_stage ops env route (qh_headers parts1) client (?req\<lparr>rq_path_with_query := path\<rparr>)
          bodyless body tw = Some (tw', out)"
        using routed_stage_total [OF assms 3(2)] by fast
      have "ri_backends route = cr_backends (tw_routes tw ! ri_index route)" using find_route_Some [OF 3(2)] by simp
      from routed_stage_keeps [OF stage this] tx_ok_shape [OF _ assms] 3 stage show ?thesis
        by (auto simp: proxy_core_inner_def Let_def)
    qed (use assms in \<open>simp_all add: proxy_core_inner_def Let_def\<close>)
  qed
  obtain headers client where fw: "set_forwarded (mo_to_str ops) (te_parse_ip env) (mo_get_all ops) (mo_remove ops) (mo_insert ops)
      (te_show_ip env) (mo_value_ok ops) (qh_headers parts) peer scheme (te_trusted_proxy env) = (headers, client)" by fastforce
  have "\<exists>tw' out resp. proxy_core ops ck env scheme peer parts bodyless body tw = Some (tw', out, resp) \<and> tx_ok tw'
      \<and> ((case out of Some t \<Rightarrow> to_spliced t | None \<Rightarrow> False)
         \<or> map ug_in_flight (tw_groups tw') = map ug_in_flight (tw_groups tw))"
    using inner assms by (auto simp: proxy_core_def fw split: outcome.split)
  then show ?thesis by (auto simp: handle_def)
qed

subsection \<open>The declared headers are on every routed response\<close>

text \<open>The headers a codec writes after the declaration.\<close>

definition CODEC_HEADERS :: "string list" where
  "CODEC_HEADERS = [''vary'', ''content-encoding'', ''content-length'', ''accept-ranges'', ''etag'']"

context request_map
begin

lemma header_map_ops: "header_map (mo_get_all ops) (mo_remove ops) (mo_insert ops)"
  by unfold_locales (rule get_remove, rule get_insert)

lemma get_declared:
  assumes "case declared of None \<Rightarrow> True | Some d \<Rightarrow> distinct (map fst (rs_set d))"
  shows "mo_get_all ops (wr_headers (with_declared_headers ops resp declared)) k =
    (case declared of
       None \<Rightarrow> mo_get_all ops (wr_headers resp) k
     | Some d \<Rightarrow>
         (case map_of (rs_set d) k of
            Some v \<Rightarrow> [v]
          | None \<Rightarrow> if k \<in> set (rs_remove d) then [] else mo_get_all ops (wr_headers resp) k))"
  using assms by (auto simp: with_declared_headers_def header_map.get_apply [OF header_map_ops] split: option.split)

lemma get_compressed:
  assumes "k \<notin> set CODEC_HEADERS"
  shows "mo_get_all ops (wr_headers (compression_apply ops ck resp compression meth original)) k = mo_get_all ops (wr_headers resp) k"
  using assms get_marked [OF request_map_axioms] get_varied [OF request_map_axioms]
  by (auto simp: CODEC_HEADERS_def compression_apply_def compress_response_def with_body_def Let_def split: option.split)

lemma get_finished:
  assumes "ri_response_headers route = Some d" and "distinct (map fst (rs_set d))" and "k \<notin> set CODEC_HEADERS"
    and "map_of (rs_set d) k = Some v \<or> k \<in> set (rs_remove d) \<and> map_of (rs_set d) k = None"
  shows "mo_get_all ops (wr_headers (finish_routed ops ck route meth original result)) k =
    (case map_of (rs_set d) k of Some v \<Rightarrow> [v] | None \<Rightarrow> [])"
  using assms get_declared [of "Some d" _ k]
  by (auto simp: finish_routed_def with_body_def Let_def get_compressed split: sum.split routed.split option.splits)

end


subsection \<open>A sample transaction\<close>

definition sample_tx_group :: upstream_group where
  "sample_tx_group = sample_group\<lparr>ug_endpoints := \<lparr>ep_instances = [0, 1], ep_lb = LbRoundRobin\<rparr>, ug_request_timeout := 5\<rparr>"

definition sample_tx_heap :: heap where
  "sample_tx_heap = map (\<lambda>a. (instance_new a 1 (up_health sample_upstream))\<lparr>i_healthy := True\<rparr>) [''a:1'', ''b:1'']"

definition sample_tx_route :: "(nat, unit) compiled_route" where
  "sample_tx_route = (plain_route None ''/'')
     \<lparr>cr_backends := \<lparr>wb_groups = [0], wb_table = [0], wb_cursor = 0\<rparr>,
      cr_response_headers := Some \<lparr>rs_set = [(''x-frame-options'', ''DENY'')], rs_remove = [''server'']\<rparr>\<rparr>"

definition sample_tx_world :: "unit tx_world" where
  "sample_tx_world =
     \<lparr>tw_routes = [sample_tx_route], tw_groups = [sample_tx_group], tw_heap = sample_tx_heap, tw_rng = 0, tw_filters = ()\<rparr>"

definition sample_tx_env :: "((string \<times> string) list, unit, unit) tx_env" where
  "sample_tx_env =
     \<lparr>te_request_permit = True, te_trusted_proxy = None, te_parse_ip = (\<lambda>_. None), te_show_ip = (\<lambda>_. ''198.51.100.7''),
      te_parse_authority = sample_authority, te_build_uri = (\<lambda>_ _. True), te_limiter_now = 0, te_wall = 7, te_instant = 0,
      te_on_upgrade = False, te_traceparent = ''00'', te_request_budget_open = True, te_request_ready = 3,
      te_forward =
        \<lparr>fe_client = (\<lambda>_ _ _. Answered 200 ([(''server'', ''up'')], full ''ok'')), fe_before = (\<lambda>n. n), fe_after = (\<lambda>n. n + 1),
         fe_wall = (\<lambda>_. 7), fe_pick_wall = (\<lambda>_. 7), fe_build_ok = (\<lambda>_ _. True)\<rparr>,
      te_response = sample_response_env, te_alt_svc = None\<rparr>"

definition sample_tx_head :: "(string \<times> string) list request_head" where
  "sample_tx_head =
     \<lparr>qh_version = Http11, qh_method = ''GET'', qh_uri_scheme = None, qh_uri_authority = None, qh_path_and_query = Some ''/'',
      qh_headers = [(''host'', ''a.test'')]\<rparr>"

lemma sample_tx_ok: "tx_ok sample_tx_world"
  by (simp add: tx_ok_def sample_tx_world_def sample_tx_route_def sample_tx_group_def group_ok_def wb_inv_def served_def sample_tx_heap_def)

lemma sample_tx_path: "normalize_path ''/'' = Some ''/''"
  by code_simp

lemma single_route:
  "select_route [r] req = (if select_matches req r then Some 0 else None)"
  by (simp add: select_route_def max_by_key_def)

definition sample_tx_request :: "(string \<times> string) list request_head \<Rightarrow> http_request" where
  "sample_tx_request parts = to_http_request (mo_to_str sample_ops) (head_fields sample_ops parts) ''http''"

definition sample_tx_info :: "(nat, unit) route_info" where
  "sample_tx_info =
     (let r = sample_tx_route
      in \<lparr>ri_index = 0, ri_name = cr_name r, ri_backends = cr_backends r, ri_strip_prefix = cr_strip_prefix r,
          ri_has_filters = (cr_filters r \<noteq> []), ri_body_hooks = cr_body_hooks r,
          ri_rate_limit = cr_rate_limit r, ri_upgrade = cr_upgrade r, ri_compression = cr_compression r,
          ri_response_headers = cr_response_headers r, ri_timeouts = cr_timeouts r,
          ri_response_body = cr_response_body r\<rparr>)"

lemma sample_tx_find:
  assumes "select_matches \<lparr>pt_authority = rq_authority req, pt_path = rq_path_with_query req, pt_method = rq_method req,
      pt_headers = rq_headers req\<rparr> sample_tx_route"
  shows "find_route (tw_routes sample_tx_world) req = Some sample_tx_info"
  using assms by (simp add: find_route_def sample_tx_world_def single_route sample_tx_info_def Let_def)

lemma sample_tx_req: "sample_tx_request sample_tx_head =
    \<lparr>rq_method = ''GET'', rq_path_with_query = ''/'', rq_authority = ''a.test'', rq_scheme = ''http'',
     rq_headers = [\<lparr>h_name = ''host'', h_value = ''a.test''\<rparr>]\<rparr>"
  by code_simp

lemma sample_tx_matches:
  "select_matches \<lparr>pt_authority = ''a.test'', pt_path = ''/'', pt_method = ''GET'', pt_headers = hs\<rparr> sample_tx_route"
proof -
  have "path_under_prefix ''/'' ''/''" by code_simp
  then show ?thesis by (simp add: select_matches_def route_matches_def sample_tx_route_def plain_route_def)
qed

theorem every_request_answered_witness:
  "\<exists>tw' out resp. handle sample_ops sample_codec sample_tx_env ''http'' (V4 [198, 51, 100, 7]) sample_tx_head True [] sample_tx_world
      = Some (tw', out, resp) \<and> tx_ok tw'
    \<and> ((case out of Some t \<Rightarrow> to_spliced t | None \<Rightarrow> False)
       \<or> map ug_in_flight (tw_groups tw') = map ug_in_flight (tw_groups sample_tx_world))"
  by (rule every_request_answered [OF sample_tx_ok])


lemma answered_at_once:
  assumes "fl_overall_deadline lim = None" and "\<And>m u. fe_build_ok env m u" and "\<And>n r t. fe_client env n r t = Answered 200 x"
  shows "\<exists>out w' a. forward_with_retry ops env lim fwd key n body pk w = Some (out, w', [a])"
  using assms
  by (simp add: forward_with_retry_def forward_loop.simps per_try_timeout_def Let_def unanswered_def should_attempt_retry_def
      settle_attempt_def is_retriable_5xx_def)

lemma sample_tx_attempts:
  "\<exists>tw' out. routed_stage sample_ops sample_tx_env sample_tx_info original client http_req True [] sample_tx_world = Some (tw', out)
     \<and> to_attempts out \<noteq> []"
proof -
  let ?g0 = "sample_tx_group\<lparr>ug_in_flight := 1\<rparr>"
  have el: "has_eligible sample_tx_heap 7 sample_tx_group"
    by (simp add: has_eligible_def eligibility_ctx_def sample_tx_heap_def sample_tx_group_def instance_new_def is_healthy_def
        is_outlier_ejected_def)
  then have "eligible_ids sample_tx_heap 7 ?g0 None \<noteq> []"
    by (simp add: has_eligible_iff eligible_ids_def eligibility_ctx_def outlier_enabled_def is_eligible_def cong: filter_cong)
  moreover have "group_ok sample_tx_heap ?g0" using sample_tx_ok by (simp add: tx_ok_def sample_tx_world_def group_ok_def)
  ultimately obtain g1 hp rng pk where pick: "group_pick sample_tx_heap 0 7 ?g0 None = Some (g1, hp, rng, Some pk)"
    using promise_dispatch [of sample_tx_heap ?g0 7 None 0 None] unfolding pick_promise_def group_pick_def by (metis not_None_eq)
  have acq: "group_try_acquire sample_tx_group = Some ?g0"
    by (simp add: group_try_acquire_def sample_tx_group_def sample_group_def)
  have key: "hash_key_of sample_ops (ug_hash_key sample_tx_group) original client = None"
    by (simp add: hash_key_of_def sample_tx_group_def sample_group_def)
  have split: "weighted_pick (\<lambda>gi. has_eligible sample_tx_heap 7 ([sample_tx_group] ! gi)) \<lparr>wb_groups = [0], wb_table = [0], wb_cursor = 0\<rparr>
      = (\<lparr>wb_groups = [0], wb_table = [0], wb_cursor = 1\<rparr>, Some 0)"
    using el by (simp add: weighted_pick_def Let_def)
  have lim: "overall_deadline 0 (effective_overall_timeout timeout_config_default (ug_overall_timeout sample_tx_group)) = None"
    by (simp add: overall_deadline_def effective_overall_timeout_def timeout_config_default_def sample_tx_group_def sample_group_def)
  have loop: "\<exists>out w' a. forward_with_retry sample_ops (te_forward sample_tx_env)
      \<lparr>fl_per_try_bound = b, fl_overall_deadline = None\<rparr> fwd key n body pk w = Some (out, w', [a])" for b fwd key n body pk w
    by (rule answered_at_once) (simp_all add: sample_tx_env_def)
  have sel: "te_wall sample_tx_env = 7" "te_instant sample_tx_env = 0" by (simp_all add: sample_tx_env_def)
  obtain F G H where once: "forward_with_retry sample_ops (te_forward sample_tx_env) \<lparr>fl_per_try_bound = b, fl_overall_deadline = None\<rparr>
      fwd key n body pk w = Some (F b fwd key n body pk w, G b fwd key n body pk w, [H b fwd key n body pk w])"
    for b fwd key n body pk w
    using loop by metis
  show ?thesis
    by (simp add: routed_stage_def check_rate_limit_def sample_tx_info_def sample_tx_route_def plain_route_def sample_tx_world_def
        Let_def sel split forward_stage_def request_body_hook_def body_hooks_none_def acq key pick lim once split: prod.split)
qed


end
