(* ===== verification/Spec2Isabelle.thy ===== *)
theory Spec2Isabelle
  imports Registry Outlier Permits Host_State Rate_Limit Route_Path Route_Manifest Route_Match Pool_Concurrency
    Loaded_Filter Forward Outbound_Calls Transaction
begin

text \<open>
  Plecto is a reverse proxy whose request and response handling is extended by WebAssembly filters.  It
  has three crates: \<open>control\<close> (the manifest, routes, upstreams, the filter chain), \<open>host\<close> (the runtime of
  the filters and the state they may keep) and \<open>server\<close> (connections, headers, forwarding).  All paths
  below are under \<open>src/plecto/crates\<close>.

  The way of a request.  A connection is accepted under the connection cap; behind an L4 balancer its
  client address comes from a PROXY header; the authority and the path are brought into one form; a route
  is selected; the native rate limiter and the chain of filters run; an upstream group and one of its
  instances are picked; the request is forwarded with retries; the response goes back through the chain.

  \<^descr>[Shared theories] \<^verbatim>\<open>Plecto_Prelude\<close> holds the word types, saturating and checked arithmetic, the
  result type and the collections of simplification rules; \<^verbatim>\<open>Plecto_Strings\<close> the operations of Rust's
  \<open>str\<close> that the code uses.

  \<^descr>[Edge] \<^verbatim>\<open>Proxy_Protocol\<close> (\<open>server/src/proxy_protocol.rs\<close>, \<open>control/src/manifest/listen.rs\<close>): the parser
  accepts exactly the headers of the specification, and only a trusted peer can name another address.
  \<^verbatim>\<open>Ingress_Headers\<close> (\<open>server/src/headers.rs\<close>): one authority per request, forwarding headers that a
  client cannot forge, the hop-by-hop strip.  \<^verbatim>\<open>Permits\<close> (\<open>server/src/conn_limit.rs\<close>,
  \<open>control/src/upstream/circuit_breaker.rs\<close>): step relations over the atomic operations of any number of
  concurrent callers; the caps hold in every reachable state.

  \<^descr>[Routing] \<^verbatim>\<open>Route_Manifest\<close> (\<open>control/src/manifest/route.rs\<close>): the route section; validation accepts
  exactly the manifests of a declarative specification.  \<^verbatim>\<open>Route_Path\<close>, \<^verbatim>\<open>Route_Config\<close> and
  \<^verbatim>\<open>Route_Match\<close> (\<open>control/src/route.rs\<close>): normalised paths are canonical and stay so after a rewrite,
  the declared response headers are a floor, and the selected route is the most specific that matches.
  \<^verbatim>\<open>Rate_Limit\<close> (\<open>control/src/ratelimit.rs\<close>) and \<^verbatim>\<open>Net_Addr\<close>: the native limiter and its keys.

  \<^descr>[Filters] \<^verbatim>\<open>Chain\<close> (\<open>control/src/chain.rs\<close>): dispatch through the filters, inline or offloaded, and
  the fail-closed answers.  \<^verbatim>\<open>Guest_Contract\<close> (\<open>host/src/contract.rs\<close>): the four contract tracks and the
  gate every guest output passes.  \<^verbatim>\<open>Instance_Pool\<close> and \<^verbatim>\<open>Pool_Concurrency\<close> (\<open>host/src/pool.rs\<close>): the
  lifecycle of instances, sequentially and interleaved.  \<^verbatim>\<open>Loaded_Filter\<close> (\<open>host/src/runtime.rs\<close>,
  \<open>host/src/filter.rs\<close>): the filters the chain runs; the locale of gated chains is interpreted on them, so
  that whatever the guests compute, nothing they emit reaches the wire outside the gate.

  \<^descr>[Host state] \<^verbatim>\<open>Token_Bucket\<close> and \<^verbatim>\<open>Kv_Backend\<close> (\<open>host/src/backend.rs\<close>), \<^verbatim>\<open>Kv_Quota\<close>
  (\<open>host/src/quota.rs\<close>), \<^verbatim>\<open>Host_State\<close> (\<open>host/src/state.rs\<close>): what a filter stores stays within its caps
  and its namespace, restoration after a restart recomputes the accounts exactly, and the bucket neither
  exceeds its rate nor refuses longer than it says.

  \<^descr>[Upstreams] \<^verbatim>\<open>Upstream_Manifest\<close>, \<^verbatim>\<open>Upstream_Instance\<close>, \<^verbatim>\<open>Upstream_Group\<close>, \<^verbatim>\<open>Outlier\<close> and
  \<^verbatim>\<open>Registry\<close> (\<open>control/src/upstream\<close>, \<open>control/src/manifest/upstream.rs\<close>): health, the three load
  balancing algorithms, ejection, reconciliation on reload.  \<^verbatim>\<open>Maglev\<close>, \<^verbatim>\<open>Weighted\<close>,
  \<^verbatim>\<open>Murmur_Hash\<close> and \<^verbatim>\<open>Split_Mix\<close> (\<open>control/src/maglev.rs\<close>, \<open>weighted.rs\<close>, \<open>hash.rs\<close>, \<open>rng.rs\<close>): the
  table, the schedule, the hash and the random draws behind them.  \<^verbatim>\<open>Forward\<close> (\<open>server/src/forward.rs\<close>,
  \<open>server/src/retry.rs\<close>): the retry loop over a group.

  \<^descr>[Responses] \<^verbatim>\<open>Body_Stream\<close> (\<open>server/src/body.rs\<close>): buffering for the body hooks is exact and bounded.
  \<^verbatim>\<open>Compression\<close> (\<open>server/src/compression.rs\<close>): the coding is the client's best, only responses that may be
  transformed are, and the coded stream carries the identity bytes.  \<^verbatim>\<open>Respond\<close> (\<open>server/src/respond.rs\<close>,
  \<open>server/src/proxy.rs\<close>): with the strict modes nothing in scope leaves uninspected, the host owns the
  framing, and only an agreed upgrade is spliced.

  \<^descr>[The transaction] \<^verbatim>\<open>Transaction\<close> (\<open>server/src/proxy.rs\<close>, \<open>server/src/dispatch.rs\<close>) composes all of the
  above in the order of the code: only a request that every gate admitted reaches an upstream, every request
  is answered and leaves the shared state in order, and the declared headers are on every routed response.

  \<^descr>[Outbound calls] \<^verbatim>\<open>Outbound_Policy\<close> and \<^verbatim>\<open>Outbound_Calls\<close> (\<open>host/src/outbound.rs\<close>,
  \<open>host/src/outbound_http.rs\<close>, \<open>host/src/outbound_tcp.rs\<close>): the calls of a filter reach only addresses the
  policy allows, and hold bounded numbers of permits and sockets.

  Conventions.  Machine integers are words of their width, with the wrap-around or saturation the code
  asks for; \<open>usize\<close> counts of things in memory are natural numbers; text and bytes are strings of 8-bit
  characters.  Errors are values of a sum or option type.  Instances of a group live in a heap that the
  old and the new configuration share, as the \<open>Arc\<close>s of the code do.  Clocks, random seeds, the upstream
  client, the header map of the \<open>http\<close> crate, the Wasm engine and the parsers of third-party crates are
  arguments, and what a theorem relies on of them is a named hypothesis or a locale.

  Loops.  Every loop is a terminating function, with two exceptions that are bounded by the world: the
  rejection sampling of a random draw is an optional value (\<open>None\<close> when it would never end), and it is
  proved to return; a checkout that waits is given the list of its wake-ups before the deadline, and a
  look at an untrusted connection the list of its peeks, each of arbitrary length.

  Not modelled.  The redb backend, the sockets behind the outbound calls, DNS, the listeners, HTTP/3 and
  the tunnel after an upgrade, TLS and session tickets, the compression codecs, artifact loading and
  signatures, metrics, logs and tracing, the command line, the examples and the load generator: they are
  I/O over third-party libraries or asynchronous glue around the parts above.
\<close>

end
